(* ===== verification/Prelude.thy ===== *)
theory Prelude
  imports Main "HOL-Library.Word"
begin

text \<open>
  The vocabulary the components share: the C integer types as words, the build configuration
  (architecture and the \<^verbatim>\<open>-D\<close> flags the server prints for the client), what ends the process
  (\<open>stop\<close>) and the result type of operations that may end it, little-endian stores and loads,
  and the collections the component proofs draw on. The lemmas are generic; nothing here
  models a function of the repository except the configuration, the macro \<^verbatim>\<open>assert\<close> and the byte
  stores through integer pointers.
\<close>

unbundle bit_operations_syntax

named_theorems wire_simps \<open>lengths and shapes of encoded byte strings\<close>
named_theorems inv_intros \<open>an operation keeps its component's invariant\<close>

section \<open>Integer types\<close>

type_synonym u8 = "8 word"
type_synonym u16 = "16 word"
type_synonym u32 = "32 word"
type_synonym u64 = "64 word"

text \<open>A C \<^verbatim>\<open>int\<close> as its 32 bits; \<open>sint\<close> reads it.\<close>

type_synonym i32 = "32 word"

section \<open>Build configuration\<close>

datatype arch = RISCV64 | AARCH64

record build =
  arch :: arch
  flag_VECTOR :: bool
  flag_FLOATS :: bool
  flag_CHECK_MEM :: bool
  flag_AUTO_MAP_MEM :: bool
  flag_AUTO_MAP_MEM_RW_PROT :: bool
  flag_META :: bool
  MAX_SEQ_LEN :: nat

section \<open>Ending the process\<close>

text \<open>
  \<open>Exit status why\<close> is \<^verbatim>\<open>exit(status)\<close> after the message \<open>why\<close>; a failed \<^verbatim>\<open>assert\<close>
  of util.h prints the condition and calls \<^verbatim>\<open>exit(EXIT_FAILURE)\<close>. \<open>Undefined why\<close> stands for an
  access whose effect C leaves open, such as an index outside an array.
\<close>

datatype stop = Exit nat string | Undefined string

type_synonym 'a res = "stop + 'a"

abbreviation (input) EXIT_FAILURE :: nat where "EXIT_FAILURE \<equiv> 1"

definition res_bind :: "'e + 'a \<Rightarrow> ('a \<Rightarrow> 'e + 'b) \<Rightarrow> 'e + 'b" where
  "res_bind m f = (case m of Inl e \<Rightarrow> Inl e | Inr x \<Rightarrow> f x)"

lemma res_bind_simps [simp]:
  "res_bind (Inl e) f = Inl e"
  "res_bind (Inr x) f = f x"
  by (simp_all add: res_bind_def)

lemma res_bind_Inr_iff:
  "res_bind m f = Inr y \<longleftrightarrow> (\<exists>x. m = Inr x \<and> f x = Inr y)"
  by (cases m) auto

text \<open>The macro \<^verbatim>\<open>assert\<close> of util.h.\<close>

definition c_assert :: "bool \<Rightarrow> string \<Rightarrow> unit res" where
  "c_assert c why = (if c then Inr () else Inl (Exit EXIT_FAILURE why))"

lemma c_assert_simps [simp]:
  "c_assert True why = Inr ()"
  "c_assert False why = Inl (Exit EXIT_FAILURE why)"
  by (simp_all add: c_assert_def)

section \<open>Words\<close>

lemma unat_ucast_up:
  fixes w :: "'a::len word"
  assumes "LENGTH('a) \<le> LENGTH('b)"
  shows "unat (ucast w :: 'b::len word) = unat w"
proof -
  have "unat w < 2 ^ LENGTH('a)" by (rule unsigned_less)
  also have "\<dots> \<le> 2 ^ LENGTH('b)" using assms by (simp add: power_increasing)
  finally show ?thesis by (simp add: unsigned_ucast_eq take_bit_nat_eq_self)
qed

lemma unat_bounds:
  "unat (a :: u8) < 2 ^ 8" "unat (b :: u16) < 2 ^ 16"
  "unat (c :: u32) < 2 ^ 32" "unat (d :: u64) < 2 ^ 64"
  using unsigned_less [of a, where ?'a = nat] unsigned_less [of b, where ?'a = nat]
    unsigned_less [of c, where ?'a = nat] unsigned_less [of d, where ?'a = nat]
  by simp_all

section \<open>Little-endian stores and loads\<close>

text \<open>
  \<open>le_store n x\<close> is what a store of \<open>x\<close> through a pointer to an \<open>n\<close>-byte integer leaves
  in memory on the little-endian targets; \<open>le_load\<close> reads bytes back as Python's
  \<^verbatim>\<open>int.from_bytes(_, "little")\<close> and \<^verbatim>\<open>struct.unpack\<close> do.
\<close>

fun le_store :: "nat \<Rightarrow> nat \<Rightarrow> u8 list" where
  "le_store 0 x = []"
| "le_store (Suc n) x = of_nat (x mod 256) # le_store n (x div 256)"

fun le_load :: "u8 list \<Rightarrow> nat" where
  "le_load [] = 0"
| "le_load (b # bs) = unat b + 256 * le_load bs"

lemma length_le_store [simp, wire_simps]: "length (le_store n x) = n"
  by (induction n arbitrary: x) simp_all

lemma le_load_store: "le_load (le_store n x) = x mod 256 ^ n"
proof (induction n arbitrary: x)
  case 0
  then show ?case by simp
next
  case (Suc n)
  have "unat (of_nat (x mod 256) :: u8) = x mod 256"
    by (simp add: unat_of_nat)
  moreover have "x mod (256 * 256 ^ n) = x mod 256 + 256 * (x div 256 mod 256 ^ n)"
    by (simp add: mod_mult2_eq)
  ultimately show ?case using Suc.IH [of "x div 256"] by simp
qed

lemma le_load_bound: "le_load bs < 256 ^ length bs"
proof (induction bs)
  case Nil
  then show ?case by simp
next
  case (Cons b bs)
  have "unat b < 256" using unsigned_less [of b] by simp
  with Cons show ?case by simp
qed

lemma le_store_load: "le_store (length bs) (le_load bs) = bs"
proof (induction bs)
  case Nil
  then show ?case by simp
next
  case (Cons b bs)
  have "unat b < 256" using unsigned_less [of b] by simp
  then have "(unat b + 256 * le_load bs) mod 256 = unat b"
    and "(unat b + 256 * le_load bs) div 256 = le_load bs"
    by simp_all
  with Cons show ?case by simp
qed

lemma le_load_unat_store:
  fixes w :: "'a::len word"
  assumes "LENGTH('a) \<le> 8 * n"
  shows "le_load (le_store n (unat w)) = unat w"
proof -
  have "unat w < 2 ^ LENGTH('a)" by (rule unsigned_less)
  also have "\<dots> \<le> 2 ^ (8 * n)" using assms by (simp add: power_increasing)
  also have "\<dots> = 256 ^ n" by (simp add: power_mult)
  finally show ?thesis by (simp add: le_load_store)
qed

section \<open>A computation for every element\<close>

fun map_res :: "('a \<Rightarrow> 'e + 'b) \<Rightarrow> 'a list \<Rightarrow> 'e + 'b list" where
  "map_res f [] = Inr []"
| "map_res f (x # xs) = res_bind (f x) (\<lambda>y. res_bind (map_res f xs) (\<lambda>ys. Inr (y # ys)))"

lemma map_res_Inr: "(\<And>x. x \<in> set xs \<Longrightarrow> f x = Inr (g x)) \<Longrightarrow> map_res f xs = Inr (map g xs)"
  by (induction xs) simp_all

end
