(* ===== verification/Rng.thy ===== *)
theory Rng
  imports Prelude
begin

text \<open>
  lib/rng.h and lib/rng.c: the Mersenne Twister MT19937 that client and server share, so that
  both generate the same inputs from a seed and a sequence number. The state is the array of
  624 words and the read index; the loops over the array are folds over the index range that
  update the array in place. \<open>mt_seq\<close> is the reference definition: the linear recurrence of
  MT19937 as an infinite sequence. The lemmas relate the in-place twist to the recurrence
  (\<open>rng_twist_window\<close>), every call of \<open>rng_next\<close> to the tempered next element
  (\<open>rng_next_tracks\<close>), and bound \<open>rng_randint\<close>. The locale \<open>rng_action\<close> is the contract of
  every routine that draws from the generator; its lemma \<open>draws_good\<close> covers the loops
  that fill arrays with drawn values.
\<close>

section \<open>State and operations\<close>

abbreviation MT19937_N :: nat where "MT19937_N \<equiv> 624"
abbreviation MT19937_M :: nat where "MT19937_M \<equiv> 397"
abbreviation MT19937_UPPER_MASK :: u32 where "MT19937_UPPER_MASK \<equiv> 0x80000000"
abbreviation MT19937_LOWER_MASK :: u32 where "MT19937_LOWER_MASK \<equiv> 0x7fffffff"

record shared_rng =
  mt :: "u32 list"
  rng_index :: nat

definition rng_seed_word :: "u64 \<Rightarrow> u32" where
  "rng_seed_word seed = ucast (seed AND 0xFFFFFFFF) XOR ucast (drop_bit 32 seed)"

text \<open>One round of the initialisation loop, in unsigned long arithmetic, stored to 32 bits.\<close>

definition rng_init_step :: "u32 \<Rightarrow> nat \<Rightarrow> u32" where
  "rng_init_step p i =
     ucast ((1812433253 :: u64) * ucast (p XOR drop_bit 30 p) + of_nat i)"

definition rng_init :: "shared_rng \<Rightarrow> u64 \<Rightarrow> shared_rng" where
  "rng_init rng seed =
     rng\<lparr>mt := fold (\<lambda>i a. a[i := rng_init_step (a ! (i - 1)) i]) [1..<MT19937_N]
                ((mt rng)[0 := rng_seed_word seed]),
         rng_index := MT19937_N\<rparr>"

definition rng_twist_word :: "u32 \<Rightarrow> u32 \<Rightarrow> u32" where
  "rng_twist_word hi lo =
     (let y = (hi AND MT19937_UPPER_MASK) OR (lo AND MT19937_LOWER_MASK);
          xA = drop_bit 1 y
      in if y mod 2 \<noteq> 0 then xA XOR 0x9908B0DF else xA)"

definition rng_twist_step :: "nat \<Rightarrow> u32 list \<Rightarrow> u32 list" where
  "rng_twist_step i a =
     a[i := a ! ((i + MT19937_M) mod MT19937_N)
            XOR rng_twist_word (a ! i) (a ! ((i + 1) mod MT19937_N))]"

definition rng_twist :: "shared_rng \<Rightarrow> shared_rng" where
  "rng_twist rng = rng\<lparr>mt := fold rng_twist_step [0..<MT19937_N] (mt rng), rng_index := 0\<rparr>"

definition rng_temper :: "u32 \<Rightarrow> u32" where
  "rng_temper y0 =
     (let y1 = y0 XOR drop_bit 11 y0;
          y2 = y1 XOR (push_bit 7 y1 AND 0x9D2C5680);
          y3 = y2 XOR (push_bit 15 y2 AND 0xEFC60000)
      in y3 XOR drop_bit 18 y3)"

definition rng_next :: "shared_rng \<Rightarrow> u64 \<times> shared_rng" where
  "rng_next rng0 =
     (let rng = (if rng_index rng0 \<ge> MT19937_N then rng_twist rng0 else rng0);
          y = mt rng ! rng_index rng
      in (ucast (rng_temper y), rng\<lparr>rng_index := rng_index rng + 1\<rparr>))"

text \<open>
  The bounds are \<^verbatim>\<open>int64_t\<close>; the remainder and the sum are computed in \<^verbatim>\<open>uint64_t\<close> and the
  sum is read back as \<^verbatim>\<open>int64_t\<close>.
\<close>

definition rng_randint :: "shared_rng \<Rightarrow> int \<Rightarrow> int \<Rightarrow> int \<times> shared_rng" where
  "rng_randint rng a b =
     (let (x, rng') = rng_next rng
      in (sint (word_of_int a + x mod word_of_int (b - a + 1) :: u64), rng'))"

section \<open>The reference sequence\<close>

fun mt_seed_seq :: "u32 \<Rightarrow> nat \<Rightarrow> u32" where
  "mt_seed_seq s 0 = s"
| "mt_seed_seq s (Suc i) = rng_init_step (mt_seed_seq s i) (Suc i)"

function mt_seq :: "u32 \<Rightarrow> nat \<Rightarrow> u32" where
  "mt_seq s n =
     (if n < MT19937_N then mt_seed_seq s n
      else mt_seq s (n - MT19937_N + MT19937_M)
           XOR rng_twist_word (mt_seq s (n - MT19937_N)) (mt_seq s (n - MT19937_N + 1)))"
  by pat_completeness auto
termination
  by (relation "measure snd") auto

declare mt_seq.simps [simp del]

lemma mt_seq_step:
  "mt_seq s (k + MT19937_N) =
     mt_seq s (k + MT19937_M) XOR rng_twist_word (mt_seq s k) (mt_seq s (k + 1))"
  by (subst mt_seq.simps) simp

definition mt_window :: "u32 \<Rightarrow> nat \<Rightarrow> u32 list" where
  "mt_window s b = map (mt_seq s) [b..<b + MT19937_N]"

lemma length_mt_window [simp]: "length (mt_window s b) = MT19937_N"
  by (simp add: mt_window_def)

section \<open>Initialisation and twist against the reference\<close>

lemma rng_init_fold:
  assumes "length a = MT19937_N" and "k < MT19937_N" and "a ! 0 = s"
  shows "take (Suc k) (fold (\<lambda>i a. a[i := rng_init_step (a ! (i - 1)) i]) [1..<Suc k] a)
           = map (mt_seed_seq s) [0..<Suc k]
         \<and> length (fold (\<lambda>i a. a[i := rng_init_step (a ! (i - 1)) i]) [1..<Suc k] a) = MT19937_N"
  using assms(2)
proof (induction k)
  case 0
  then show ?case using assms by (simp add: take_Suc_conv_app_nth)
next
  case (Suc k)
  define b where "b = fold (\<lambda>i a. a[i := rng_init_step (a ! (i - 1)) i]) [1..<Suc k] a"
  from Suc have tk: "take (Suc k) b = map (mt_seed_seq s) [0..<Suc k]"
    and len: "length b = MT19937_N"
    by (simp_all add: b_def)
  have "b ! k = take (Suc k) b ! k" by simp
  also have "\<dots> = mt_seed_seq s k"
    unfolding tk by (simp del: upt_Suc)
  finally have bk: "b ! k = mt_seed_seq s k" .
  have "fold (\<lambda>i a. a[i := rng_init_step (a ! (i - 1)) i]) [1..<Suc (Suc k)] a
          = b[Suc k := rng_init_step (b ! k) (Suc k)]"
    by (simp add: b_def)
  moreover have "take (Suc (Suc k)) (b[Suc k := rng_init_step (b ! k) (Suc k)])
          = take (Suc k) b @ [mt_seed_seq s (Suc k)]"
    using Suc.prems len by (simp add: take_Suc_conv_app_nth bk del: take_Suc)
  ultimately show ?case using len tk by simp
qed

lemma rng_init_window:
  assumes "length (mt rng) = MT19937_N"
  shows "rng_init rng seed =
           rng\<lparr>mt := mt_window (rng_seed_word seed) 0, rng_index := MT19937_N\<rparr>"
proof -
  let ?a = "fold (\<lambda>i a. a[i := rng_init_step (a ! (i - 1)) i]) [1..<MT19937_N]
              ((mt rng)[0 := rng_seed_word seed])"
  have "take MT19937_N ?a = map (mt_seed_seq (rng_seed_word seed)) [0..<MT19937_N]
        \<and> length ?a = MT19937_N"
    using rng_init_fold [of "(mt rng)[0 := rng_seed_word seed]" 623 "rng_seed_word seed"] assms
    by (simp del: upt_Suc upt_conv_Cons upt_rec_numeral)
  moreover have "map (mt_seed_seq s) [0..<MT19937_N] = mt_window s 0" for s
    unfolding mt_window_def by (rule map_cong) (auto simp: mt_seq.simps)
  ultimately have tk: "take MT19937_N ?a = mt_window (rng_seed_word seed) 0"
    and len: "length ?a = MT19937_N"
    by (simp_all only:)
  have "take MT19937_N a = w \<Longrightarrow> length a = MT19937_N \<Longrightarrow> a = w" for a w :: "u32 list"
    by simp
  then have "?a = mt_window (rng_seed_word seed) 0" using tk len by (simp only:)
  then show ?thesis by (simp only: rng_init_def)
qed

text \<open>After \<open>i\<close> rounds the first \<open>i\<close> cells hold the next window, the others the old one.\<close>

definition mt_mixed :: "u32 \<Rightarrow> nat \<Rightarrow> nat \<Rightarrow> u32 list" where
  "mt_mixed s b i =
     map (mt_seq s) [b + MT19937_N..<b + MT19937_N + i] @ map (mt_seq s) [b + i..<b + MT19937_N]"

lemma mt_mixed_nth:
  assumes "i \<le> MT19937_N" and "j < MT19937_N"
  shows "mt_mixed s b i ! j = (if j < i then mt_seq s (b + MT19937_N + j) else mt_seq s (b + j))"
  using assms by (simp add: mt_mixed_def nth_append)

lemma rng_twist_step_mixed:
  assumes "i < MT19937_N"
  shows "rng_twist_step i (mt_mixed s b i) = mt_mixed s b (Suc i)"
proof (rule nth_equalityI)
  show "length (rng_twist_step i (mt_mixed s b i)) = length (mt_mixed s b (Suc i))"
    using assms by (simp add: rng_twist_step_def mt_mixed_def)
next
  fix j assume j: "j < length (rng_twist_step i (mt_mixed s b i))"
  then have jN: "j < MT19937_N"
    using assms by (simp add: rng_twist_step_def mt_mixed_def)
  have far: "mt_mixed s b i ! ((i + MT19937_M) mod MT19937_N) = mt_seq s (b + i + MT19937_M)"
  proof (cases "i < 227")
    case True
    then show ?thesis by (simp add: mt_mixed_nth add_ac)
  next
    case False
    then have "(i + MT19937_M) mod MT19937_N = i - 227"
      using assms by (simp add: mod_if)
    moreover have "b + MT19937_N + (i - 227) = b + i + MT19937_M" using False by simp
    ultimately show ?thesis using assms False by (simp add: mt_mixed_nth add_ac)
  qed
  have near: "mt_mixed s b i ! ((i + 1) mod MT19937_N) = mt_seq s (b + i + 1)"
  proof (cases "i = 623")
    case True
    then show ?thesis by (simp add: mt_mixed_nth add_ac)
  next
    case False
    then show ?thesis using assms by (simp add: mt_mixed_nth add_ac)
  qed
  have here: "mt_mixed s b i ! i = mt_seq s (b + i)"
    using assms by (simp add: mt_mixed_nth)
  show "rng_twist_step i (mt_mixed s b i) ! j = mt_mixed s b (Suc i) ! j"
  proof (cases "j = i")
    case True
    have "rng_twist_step i (mt_mixed s b i) ! i
            = mt_seq s (b + i + MT19937_M)
              XOR rng_twist_word (mt_seq s (b + i)) (mt_seq s (b + i + 1))"
      using assms unfolding rng_twist_step_def far near here by (simp add: mt_mixed_def)
    also have "\<dots> = mt_seq s (b + MT19937_N + i)"
      using mt_seq_step [of s "b + i"] by (simp add: add_ac)
    finally show ?thesis using True assms by (simp add: mt_mixed_nth)
  next
    case False
    then show ?thesis using assms jN
      by (simp add: rng_twist_step_def mt_mixed_nth)
  qed
qed

lemma rng_twist_fold:
  "i \<le> MT19937_N \<Longrightarrow> fold rng_twist_step [0..<i] (mt_window s b) = mt_mixed s b i"
proof (induction i)
  case 0
  then show ?case by (simp add: mt_window_def mt_mixed_def)
next
  case (Suc i)
  then show ?case by (simp add: rng_twist_step_mixed)
qed

lemma rng_twist_window:
  assumes "mt rng = mt_window s b"
  shows "rng_twist rng = rng\<lparr>mt := mt_window s (b + MT19937_N), rng_index := 0\<rparr>"
proof -
  have "fold rng_twist_step [0..<MT19937_N] (mt rng) = mt_mixed s b MT19937_N"
    unfolding assms by (rule rng_twist_fold) (rule order_refl)
  also have "\<dots> = mt_window s (b + MT19937_N)"
    by (simp add: mt_mixed_def mt_window_def)
  finally show ?thesis by (simp only: rng_twist_def)
qed

section \<open>Every call returns the next tempered element\<close>

text \<open>
  \<open>rng_tracks s n rng\<close>: \<open>rng\<close> was seeded with \<open>s\<close> and has returned \<open>n\<close> values; its array is the
  window of the reference sequence that starts at some \<open>b\<close>, and the index points at
  element \<open>624 + n\<close>.
\<close>

definition rng_tracks :: "u32 \<Rightarrow> nat \<Rightarrow> shared_rng \<Rightarrow> bool" where
  "rng_tracks s n rng \<longleftrightarrow>
     rng_index rng \<le> MT19937_N \<and>
     (\<exists>b. mt rng = mt_window s b \<and> b + rng_index rng = MT19937_N + n)"

lemma rng_init_tracks:
  "length (mt rng) = MT19937_N \<Longrightarrow> rng_tracks (rng_seed_word seed) 0 (rng_init rng seed)"
  by (auto simp: rng_init_window rng_tracks_def)

lemma rng_next_tracks:
  assumes "rng_tracks s n rng"
  shows "fst (rng_next rng) = ucast (rng_temper (mt_seq s (MT19937_N + n)))"
    and "rng_tracks s (Suc n) (snd (rng_next rng))"
proof -
  from assms obtain b where b: "mt rng = mt_window s b"
    and idx: "b + rng_index rng = MT19937_N + n" "rng_index rng \<le> MT19937_N"
    by (auto simp: rng_tracks_def)
  define rng1 where "rng1 = (if rng_index rng \<ge> MT19937_N then rng_twist rng else rng)"
  have "\<exists>b. mt rng1 = mt_window s b \<and> b + rng_index rng1 = MT19937_N + n \<and> rng_index rng1 < MT19937_N"
  proof (cases "rng_index rng \<ge> MT19937_N")
    case True
    then show ?thesis using b idx by (auto simp: rng1_def rng_twist_window add.commute)
  next
    case False
    then show ?thesis using b idx by (auto simp: rng1_def)
  qed
  then obtain c where c: "mt rng1 = mt_window s c" "c + rng_index rng1 = MT19937_N + n"
      "rng_index rng1 < MT19937_N"
    by blast
  have next_eq: "rng_next rng =
      (ucast (rng_temper (mt rng1 ! rng_index rng1)), rng1\<lparr>rng_index := rng_index rng1 + 1\<rparr>)"
    by (simp add: rng_next_def rng1_def Let_def)
  have "mt rng1 ! rng_index rng1 = mt_seq s (MT19937_N + n)"
    using c by (simp add: mt_window_def)
  then show "fst (rng_next rng) = ucast (rng_temper (mt_seq s (MT19937_N + n)))"
    by (simp add: next_eq)
  show "rng_tracks s (Suc n) (snd (rng_next rng))"
    using c by (auto simp: next_eq rng_tracks_def)
qed

section \<open>Routines that draw from the generator\<close>

text \<open>The type invariant: the C array has 624 cells and the index never runs past it.\<close>

definition rng_inv :: "shared_rng \<Rightarrow> bool" where
  "rng_inv rng \<longleftrightarrow> length (mt rng) = MT19937_N \<and> rng_index rng \<le> MT19937_N"

text \<open>A loop that fills an array with \<open>n\<close> drawn values, first cell first.\<close>

fun draws :: "nat \<Rightarrow> (shared_rng \<Rightarrow> 'a \<times> shared_rng) \<Rightarrow> shared_rng \<Rightarrow> 'a list \<times> shared_rng" where
  "draws 0 act rng = ([], rng)"
| "draws (Suc n) act rng =
     (let (x, rng1) = act rng; (xs, rng2) = draws n act rng1 in (x # xs, rng2))"

text \<open>
  The contract of a routine that draws: it keeps the invariant and its value is \<open>good\<close>.
\<close>

locale rng_action =
  fixes act :: "shared_rng \<Rightarrow> 'a \<times> shared_rng"
    and good :: "'a \<Rightarrow> bool"
  assumes act_inv: "rng_inv rng \<Longrightarrow> rng_inv (snd (act rng))"
    and act_good: "rng_inv rng \<Longrightarrow> good (fst (act rng))"
begin

lemma draws_good:
  "rng_inv rng \<Longrightarrow>
     rng_inv (snd (draws n act rng)) \<and> length (fst (draws n act rng)) = n
     \<and> (\<forall>x \<in> set (fst (draws n act rng)). good x)"
proof (induction n arbitrary: rng)
  case 0
  then show ?case by simp
next
  case (Suc n)
  from Suc.prems have "rng_inv (snd (act rng))" and "good (fst (act rng))"
    by (rule act_inv, rule act_good)
  with Suc.IH [of "snd (act rng)"] show ?case
    by (auto simp: Let_def case_prod_unfold)
qed

lemma then_act_inv:
  "rng_inv rng \<Longrightarrow> rng_inv (snd (f (fst (act rng)) (snd (act rng))))"
  if "\<And>x r. rng_inv r \<Longrightarrow> rng_inv (snd (f x r))" for f
  using that act_inv by blast

end

lemma length_fold_list_update:
  "length (fold (\<lambda>i a. a[h i := g i a]) is a) = length a"
  by (induction "is" arbitrary: a) simp_all

lemma rng_init_inv [inv_intros]:
  "length (mt rng) = MT19937_N \<Longrightarrow> rng_inv (rng_init rng seed)"
  by (simp add: rng_init_window rng_inv_def)

lemma length_twist_fold: "length (fold rng_twist_step is a) = length a"
  unfolding rng_twist_step_def by (rule length_fold_list_update)

lemma rng_next_inv [inv_intros]: "rng_inv rng \<Longrightarrow> rng_inv (snd (rng_next rng))"
  by (auto simp: rng_next_def rng_inv_def rng_twist_def length_twist_fold Let_def)

lemma rng_next_bound: "unat (fst (rng_next rng)) < 2 ^ 32"
proof -
  have "unat (ucast w :: u64) < 2 ^ 32" for w :: u32
    using unat_bounds(3) [of w] by (simp add: unat_ucast_up)
  then show ?thesis by (simp add: rng_next_def Let_def)
qed

interpretation rng_next: rng_action rng_next "\<lambda>x. unat x < 2 ^ 32"
  by unfold_locales (use rng_next_bound in \<open>auto intro: inv_intros\<close>)

section \<open>rng_randint\<close>

definition int64_range :: "int \<Rightarrow> bool" where
  "int64_range i \<longleftrightarrow> - (2 ^ 63) \<le> i \<and> i < 2 ^ 63"

lemma sint_word_of_int_64: "int64_range i \<Longrightarrow> sint (word_of_int i :: u64) = i"
  by (simp add: int64_range_def signed_of_int signed_take_bit_int_eq_self)

lemma rng_randint_value:
  assumes "int64_range a" and "int64_range b" and "a \<le> b" and "b - a + 1 < 2 ^ 63"
  shows "fst (rng_randint rng a b) = a + uint (fst (rng_next rng)) mod (b - a + 1)"
proof -
  let ?x = "fst (rng_next rng)" and ?d = "b - a + 1"
  have "uint (word_of_int ?d :: u64) = ?d"
    using assms(3,4) by (subst unsigned_of_int) (simp add: take_bit_int_eq_self)
  then have "uint (?x mod word_of_int ?d) = uint ?x mod ?d"
    by (simp only: uint_mod)
  then have "word_of_int (uint (?x mod word_of_int ?d)) = (word_of_int (uint ?x mod ?d) :: u64)"
    by (rule arg_cong)
  then have "?x mod word_of_int ?d = (word_of_int (uint ?x mod ?d) :: u64)"
    by (simp only: word_of_int_uint)
  then have sum: "word_of_int a + ?x mod word_of_int ?d = (word_of_int (a + uint ?x mod ?d) :: u64)"
    by (simp only: of_int_add)
  have "0 \<le> uint ?x mod ?d" and "uint ?x mod ?d < ?d"
    using assms(3) by (simp, intro pos_mod_bound, simp)
  then have "int64_range (a + uint ?x mod ?d)"
    using assms(1,2) by (simp add: int64_range_def)
  then have "sint (word_of_int a + ?x mod word_of_int ?d :: u64) = a + uint ?x mod ?d"
    unfolding sum by (rule sint_word_of_int_64)
  moreover have "fst (rng_randint rng a b) = sint (word_of_int a + ?x mod word_of_int ?d :: u64)"
    by (simp only: rng_randint_def case_prod_unfold Let_def fst_conv)
  ultimately show ?thesis by (simp only:)
qed

lemma rng_randint_range:
  assumes "int64_range a" and "int64_range b" and "a \<le> b" and "b - a + 1 < 2 ^ 63"
  shows "a \<le> fst (rng_randint rng a b) \<and> fst (rng_randint rng a b) \<le> b"
proof -
  have "0 \<le> uint (fst (rng_next rng)) mod (b - a + 1)"
    and "uint (fst (rng_next rng)) mod (b - a + 1) < b - a + 1"
    using assms(3) by (simp, intro pos_mod_bound, simp)
  then show ?thesis using rng_randint_value [OF assms, of rng] by simp
qed

lemma rng_randint_inv [inv_intros]: "rng_inv rng \<Longrightarrow> rng_inv (snd (rng_randint rng a b))"
  by (auto simp: rng_randint_def case_prod_unfold Let_def intro: inv_intros)

section \<open>Tempering loses nothing\<close>

text \<open>
  A word that is its own image under a masked shift is zero, so a step
  \<open>y XOR shift y\<close> is injective.
\<close>

lemma masked_push_fixpoint_zero:
  fixes z c :: "'a::len word"
  assumes "0 < k" and "z = push_bit k z AND c"
  shows "z = 0"
proof (rule bit_eqI)
  fix n
  show "bit z n = bit 0 n"
  proof (induction n rule: less_induct)
    case (less n)
    have "bit z n = bit (push_bit k z AND c) n" using assms(2) by simp
    also have "\<dots> \<longrightarrow> k \<le> n \<and> bit z (n - k)" by (auto simp: bit_simps)
    finally show ?case using less.IH [of "n - k"] assms(1) by auto
  qed
qed

lemma drop_fixpoint_zero:
  fixes z :: "'a::len word"
  assumes "0 < k" and "z = drop_bit k z"
  shows "z = 0"
proof -
  have "z = drop_bit (m * k) z" for m
  proof (induction m)
    case (Suc m)
    then show ?case using assms(2) by (metis drop_bit_drop_bit mult_Suc add.commute)
  qed simp
  then have "z = drop_bit (LENGTH('a) * k) z" .
  moreover have "drop_bit (LENGTH('a) * k) z = 0"
    using assms(1) by (intro bit_eqI) (auto simp: bit_simps dest: bit_imp_le_length)
  ultimately show ?thesis by simp
qed

lemma xor_shift_inj:
  fixes f :: "'a::len word \<Rightarrow> 'a word"
  assumes lin: "\<And>x y. f (x XOR y) = f x XOR f y"
    and fix0: "\<And>z. z = f z \<Longrightarrow> z = 0"
    and eq: "x XOR f x = y XOR f y"
  shows "x = y"
proof -
  have "x XOR y = f x XOR f y"
    using eq by (metis xor.assoc xor.commute xor.left_neutral xor_self_eq)
  also have "\<dots> = f (x XOR y)" by (rule lin [symmetric])
  finally have "x XOR y = f (x XOR y)" .
  then have "x XOR y = 0" by (rule fix0)
  then show ?thesis by (metis xor.assoc xor.left_neutral xor.right_neutral xor_self_eq)
qed

lemma drop_bit_xor_word: "drop_bit k (x XOR y) = drop_bit k x XOR drop_bit k (y :: 'a::len word)"
  by (rule bit_eqI) (auto simp: bit_simps)

lemma push_bit_xor_word: "push_bit k (x XOR y) AND c =
    (push_bit k x AND c) XOR (push_bit k (y :: 'a::len word) AND c)"
  by (rule bit_eqI) (auto simp: bit_simps)

lemma rng_temper_inj: "rng_temper x = rng_temper y \<Longrightarrow> x = y"
proof -
  assume eq: "rng_temper x = rng_temper y"
  have s1: "a XOR drop_bit k a = b XOR drop_bit k b \<Longrightarrow> a = b" if "0 < k" for a b :: u32 and k
    by (rule xor_shift_inj [of "drop_bit k"])
      (auto simp: drop_bit_xor_word intro: drop_fixpoint_zero that)
  have s2: "a XOR (push_bit k a AND c) = b XOR (push_bit k b AND c) \<Longrightarrow> a = b"
    if "0 < k" for a b c :: u32 and k
    by (rule xor_shift_inj [of "\<lambda>z. push_bit k z AND c"])
      (auto simp only: push_bit_xor_word intro: masked_push_fixpoint_zero [OF that])
  show ?thesis
    by (rule s1 [of 11], simp, rule s2 [of 7 _ "0x9D2C5680"], simp,
        rule s2 [of 15 _ "0xEFC60000"], simp, rule s1 [of 18], simp)
      (use eq in \<open>simp only: rng_temper_def Let_def\<close>)
qed

section \<open>Properties\<close>

lemma draws_rng_next_tracks:
  "rng_tracks s n rng \<Longrightarrow>
     fst (draws k rng_next rng) = map (\<lambda>j. ucast (rng_temper (mt_seq s (MT19937_N + j)))) [n..<n + k]"
proof (induction k arbitrary: n rng)
  case 0
  then show ?case by simp
next
  case (Suc k)
  have "fst (draws k rng_next (snd (rng_next rng))) =
      map (\<lambda>j. ucast (rng_temper (mt_seq s (MT19937_N + j)))) [Suc n..<Suc n + k]"
    by (rule Suc.IH) (rule rng_next_tracks(2) [OF Suc.prems])
  moreover have "[n..<n + Suc k] = n # [Suc n..<Suc n + k]"
    by (simp add: upt_conv_Cons del: upt_Suc)
  ultimately show ?case
    using rng_next_tracks(1) [OF Suc.prems] by (simp add: case_prod_unfold Let_def del: upt_Suc)
qed



text \<open>
  Tempering is injective: two different state words never give the same output, so the
  output keeps all 32 bits of the state word.
\<close>

lemma rng_temper_injective: "inj rng_temper"
  by (rule injI) (rule rng_temper_inj)

text \<open>
  C25. \<open>rng_randint\<close> stays between its bounds, both included, for negative bounds too, although
  the remainder and the sum are computed on unsigned 64-bit words; and its value is the
  lower bound plus the drawn value modulo the size of the interval.
\<close>

theorem rng_randint_correct:
  assumes "int64_range a" and "int64_range b" and "a \<le> b" and "b - a + 1 < 2 ^ 63"
  shows "a \<le> fst (rng_randint rng a b) \<and> fst (rng_randint rng a b) \<le> b \<and>
         fst (rng_randint rng a b) = a + uint (fst (rng_next rng)) mod (b - a + 1)"
  using rng_randint_range [OF assms, of rng] rng_randint_value [OF assms, of rng] by blast

theorem rng_randint_correct_witness:
  "- 8 \<le> fst (rng_randint \<lparr>mt = [5], rng_index = 0\<rparr> (- 8) 8) \<and>
   fst (rng_randint \<lparr>mt = [5], rng_index = 0\<rparr> (- 8) 8) \<le> 8 \<and>
   fst (rng_randint \<lparr>mt = [5], rng_index = 0\<rparr> (- 8) 8) =
     - 8 + uint (fst (rng_next \<lparr>mt = [5], rng_index = 0\<rparr>)) mod (8 - - 8 + 1)"
  by (rule rng_randint_correct) (simp_all add: int64_range_def)

end
