(* ===== verification/Regs.thy ===== *)
theory Regs
  imports Prelude
begin

text \<open>
  lib/riscv64/regs.h, lib/aarch64/regs.h, lib/regs.h and the name tables of
  lib/riscv64/regs.c and lib/aarch64/regs.c: the register snapshot \<^verbatim>\<open>struct regs\<close>, its layout
  in memory, the indices the wire format and the logs use for registers, and the loops over
  the registers that differ. The C code reads the struct members as arrays
  (\<^verbatim>\<open>((reg*)&regs->gp)[i]\<close>), so a bank of registers is a list here. What a build does not
  have (no FLOATS, no VECTOR) is not part of its memory image \<open>regs_image\<close>. On aarch64 with
  VECTOR the members fp and vec share storage: \<open>fp_u\<close> then reads the low eight bytes of the
  vector register. \<open>regs_mapping\<close> is the server's table (pyutils/util.py); the last section
  shows that it and the client's indices agree.
\<close>

section \<open>Names\<close>

abbreviation (input) VEC_REG_SIZE :: nat where "VEC_REG_SIZE \<equiv> 16"

text \<open>The unions of \<^verbatim>\<open>struct gp\<close> and \<^verbatim>\<open>struct fp\<close> on riscv64: the names of each cell.\<close>

definition riscv_gp_members :: "string list list" where
  "riscv_gp_members =
     [[''ra'', ''x1''], [''sp'', ''x2''], [''gp'', ''x3''], [''tp'', ''x4''],
      [''t0'', ''x5''], [''t1'', ''x6''], [''t2'', ''x7''], [''s0'', ''fp'', ''x8''],
      [''s1'', ''x9''], [''a0'', ''x10''], [''a1'', ''x11''], [''a2'', ''x12''],
      [''a3'', ''x13''], [''a4'', ''x14''], [''a5'', ''x15''], [''a6'', ''x16''],
      [''a7'', ''x17''], [''s2'', ''x18''], [''s3'', ''x19''], [''s4'', ''x20''],
      [''s5'', ''x21''], [''s6'', ''x22''], [''s7'', ''x23''], [''s8'', ''x24''],
      [''s9'', ''x25''], [''s10'', ''x26''], [''s11'', ''x27''], [''t3'', ''x28''],
      [''t4'', ''x29''], [''t5'', ''x30''], [''t6'', ''x31'']]"

definition riscv_fp_members :: "string list list" where
  "riscv_fp_members =
     [[''f0'', ''ft0''], [''f1'', ''ft1''], [''f2'', ''ft2''], [''f3'', ''ft3''],
      [''f4'', ''ft4''], [''f5'', ''ft5''], [''f6'', ''ft6''], [''f7'', ''ft7''],
      [''f8'', ''fs0''], [''f9'', ''fs1''], [''f10'', ''fa0''], [''f11'', ''fa1''],
      [''f12'', ''fa2''], [''f13'', ''fa3''], [''f14'', ''fa4''], [''f15'', ''fa5''],
      [''f16'', ''fa6''], [''f17'', ''fa7''], [''f18'', ''fs2''], [''f19'', ''fs3''],
      [''f20'', ''fs4''], [''f21'', ''fs5''], [''f22'', ''fs6''], [''f23'', ''fs7''],
      [''f24'', ''fs8''], [''f25'', ''fs9''], [''f26'', ''fs10''], [''f27'', ''fs11''],
      [''f28'', ''ft8''], [''f29'', ''ft9''], [''f30'', ''ft10''], [''f31'', ''ft11'']]"

definition aarch64_gp_members :: "string list list" where
  "aarch64_gp_members =
     [[''x0''], [''x1''], [''x2''], [''x3''], [''x4''], [''x5''], [''x6''], [''x7''],
      [''x8''], [''x9''], [''x10''], [''x11''], [''x12''], [''x13''], [''x14''], [''x15''],
      [''x16''], [''x17''], [''x18''], [''x19''], [''x20''], [''x21''], [''x22''],
      [''x23''], [''x24''], [''x25''], [''x26''], [''x27''], [''x28''], [''x29''],
      [''x30'', ''lr''], [''sp'']]"

definition riscv_REGS_AFTER_S0 :: "string list" where
  "riscv_REGS_AFTER_S0 =
     [''s1'', ''a0'', ''a1'', ''a2'', ''a3'', ''a4'', ''a5'', ''a6'', ''a7'', ''s2'',
      ''s3'', ''s4'', ''s5'', ''s6'', ''s7'', ''s8'', ''s9'', ''s10'', ''s11'', ''t3'',
      ''t4'', ''t5'', ''t6'']"

definition riscv_REGS_FP :: "string list" where
  "riscv_REGS_FP =
     [''ft0'', ''ft1'', ''ft2'', ''ft3'', ''ft4'', ''ft5'', ''ft6'', ''ft7'', ''fs0'',
      ''fs1'', ''fa0'', ''fa1'', ''fa2'', ''fa3'', ''fa4'', ''fa5'', ''fa6'', ''fa7'',
      ''fs2'', ''fs3'', ''fs4'', ''fs5'', ''fs6'', ''fs7'', ''fs8'', ''fs9'', ''fs10'',
      ''fs11'', ''ft8'', ''ft9'', ''ft10'', ''ft11'']"

definition aarch64_REGS_GP :: "string list" where
  "aarch64_REGS_GP =
     [''x0'', ''x1'', ''x2'', ''x3'', ''x4'', ''x5'', ''x6'', ''x7'']
     @ [''x8'', ''x9'', ''x10'', ''x11'', ''x12'', ''x13'', ''x14'', ''x15'']
     @ [''x16'', ''x17'', ''x18'', ''x19'', ''x20'', ''x21'', ''x22'', ''x23'']
     @ [''x24'', ''x25'', ''x26'', ''x27'', ''x28'', ''x29'', ''x30'']"

definition aarch64_REGS_FP :: "string list" where
  "aarch64_REGS_FP =
     [''d0'', ''d1'', ''d2'', ''d3'', ''d4'', ''d5'', ''d6'', ''d7'']
     @ [''d8'', ''d9'', ''d10'', ''d11'', ''d12'', ''d13'', ''d14'', ''d15'']
     @ [''d16'', ''d17'', ''d18'', ''d19'', ''d20'', ''d21'', ''d22'', ''d23'']
     @ [''d24'', ''d25'', ''d26'', ''d27'', ''d28'', ''d29'', ''d30'', ''d31'']"

definition REGS_VECTOR :: "string list" where
  "REGS_VECTOR =
     [''v0'', ''v1'', ''v2'', ''v3'', ''v4'', ''v5'', ''v6'', ''v7'']
     @ [''v8'', ''v9'', ''v10'', ''v11'', ''v12'', ''v13'', ''v14'', ''v15'']
     @ [''v16'', ''v17'', ''v18'', ''v19'', ''v20'', ''v21'', ''v22'', ''v23'']
     @ [''v24'', ''v25'', ''v26'', ''v27'', ''v28'', ''v29'', ''v30'', ''v31'']"

text \<open>The name tables \<^verbatim>\<open>abi_names\<close>; an index past the table is \<^verbatim>\<open>exit(3)\<close>.\<close>

definition riscv_abi_names :: "string list" where
  "riscv_abi_names =
     [''ra''] @ [''sp''] @ [''gp'', ''tp'', ''t0'', ''t1'', ''t2''] @ [''s0'']
     @ riscv_REGS_AFTER_S0 @ [''fcsr''] @ riscv_REGS_FP @ REGS_VECTOR"

definition aarch64_abi_names :: "build \<Rightarrow> string list" where
  "aarch64_abi_names b =
     aarch64_REGS_GP @ [''sp'', ''pstate'']
     @ (if flag_FLOATS b \<or> flag_VECTOR b then [''fpsr''] else [])
     @ (if flag_FLOATS b then aarch64_REGS_FP else [])
     @ (if flag_VECTOR b then REGS_VECTOR else [])"

definition get_abi_name :: "build \<Rightarrow> nat \<Rightarrow> string res" where
  "get_abi_name b i =
     (let abi_names = (case arch b of RISCV64 \<Rightarrow> riscv_abi_names | AARCH64 \<Rightarrow> aarch64_abi_names b)
      in if i < length abi_names then Inr (abi_names ! i) else Inl (Exit 3 ''get_abi_name''))"

definition get_abi_name_float :: "build \<Rightarrow> nat \<Rightarrow> string res" where
  "get_abi_name_float b i =
     (case arch b of
        RISCV64 \<Rightarrow> get_abi_name b i
      | AARCH64 \<Rightarrow>
          (let abi_names = aarch64_REGS_GP @ [''sp'', ''pstate''] @ [''fpsr''] @ aarch64_REGS_FP
           in if i < length abi_names then Inr (abi_names ! i)
              else Inl (Exit 3 ''get_abi_name_float'')))"

section \<open>The snapshot and its layout\<close>

record regs =
  gp :: "u64 list"
  pstate :: u64
  fpsr :: u64
  fcsr :: u64
  fp :: "u64 list"
  vec :: "u8 list list"

text \<open>The members of \<^verbatim>\<open>struct regs\<close> with their sizes in bytes, in declaration order.\<close>

definition regs_members :: "build \<Rightarrow> (string \<times> nat) list" where
  "regs_members b = (case arch b of
     RISCV64 \<Rightarrow>
       [(''gp'', 8 * 31)]
       @ (if flag_FLOATS b then [(''fcsr'', 8), (''fp'', 8 * 32)] else [])
       @ (if flag_VECTOR b then [(''vec'', VEC_REG_SIZE * 32)] else [])
   | AARCH64 \<Rightarrow>
       [(''gp'', 8 * 32), (''pstate'', 8)]
       @ (if flag_FLOATS b \<or> flag_VECTOR b
          then [(''fpsr'', 8), (''fp'', (if flag_VECTOR b then VEC_REG_SIZE else 8) * 32)]
          else []))"

text \<open>\<^verbatim>\<open>offsetof(struct regs, member)\<close>; on aarch64 vec is a name of the storage of fp.\<close>

fun offset_in :: "(string \<times> nat) list \<Rightarrow> string \<Rightarrow> nat option" where
  "offset_in [] m = None"
| "offset_in ((name, sz) # ms) m =
     (if name = m then Some 0 else map_option ((+) sz) (offset_in ms m))"

definition offsetof_regs :: "build \<Rightarrow> string \<Rightarrow> nat option" where
  "offsetof_regs b m =
     offset_in (regs_members b) (if arch b = AARCH64 \<and> flag_VECTOR b \<and> m = ''vec'' then ''fp'' else m)"

definition getabiindex :: "build \<Rightarrow> string \<Rightarrow> nat" where
  "getabiindex b m = (case offsetof_regs b m of Some off \<Rightarrow> off div 8 | None \<Rightarrow> 0)"

text \<open>The cell of a general purpose register, by any of its names (\<^verbatim>\<open>regs.gp.x29\<close>).\<close>

fun member_index :: "string list list \<Rightarrow> string \<Rightarrow> nat option" where
  "member_index [] m = None"
| "member_index (names # ns) m =
     (if m \<in> set names then Some 0 else map_option Suc (member_index ns m))"

definition gp_members :: "build \<Rightarrow> string list list" where
  "gp_members b = (case arch b of RISCV64 \<Rightarrow> riscv_gp_members | AARCH64 \<Rightarrow> aarch64_gp_members)"

definition gp_index :: "build \<Rightarrow> string \<Rightarrow> nat" where
  "gp_index b m = (case member_index (gp_members b) m of Some i \<Rightarrow> i | None \<Rightarrow> 0)"

definition gp_count :: "build \<Rightarrow> nat" where
  "gp_count b = length (gp_members b)"

text \<open>Constraints the headers enforce with \<^verbatim>\<open>#error\<close>.\<close>

definition valid_build :: "build \<Rightarrow> bool" where
  "valid_build b \<longleftrightarrow> (case arch b of
     RISCV64 \<Rightarrow> flag_VECTOR b \<longrightarrow> flag_FLOATS b
   | AARCH64 \<Rightarrow> \<not> (flag_FLOATS b \<and> flag_VECTOR b))"

definition wf_regs :: "build \<Rightarrow> regs \<Rightarrow> bool" where
  "wf_regs b r \<longleftrightarrow>
     length (gp r) = gp_count b \<and>
     (flag_FLOATS b \<longrightarrow> length (fp r) = 32) \<and>
     (flag_VECTOR b \<longrightarrow> length (vec r) = 32 \<and> (\<forall>v \<in> set (vec r). length v = VEC_REG_SIZE))"

definition le_words :: "u64 list \<Rightarrow> u8 list" where
  "le_words ws = concat (map (\<lambda>w. le_store 8 (unat w)) ws)"

definition regs_image :: "build \<Rightarrow> regs \<Rightarrow> u8 list" where
  "regs_image b r = (case arch b of
     RISCV64 \<Rightarrow>
       le_words (gp r)
       @ (if flag_FLOATS b then le_store 8 (unat (fcsr r)) @ le_words (fp r) else [])
       @ (if flag_VECTOR b then concat (vec r) else [])
   | AARCH64 \<Rightarrow>
       le_words (gp r) @ le_store 8 (unat (pstate r))
       @ (if flag_FLOATS b \<or> flag_VECTOR b then le_store 8 (unat (fpsr r)) else [])
       @ (if flag_FLOATS b then le_words (fp r) else [])
       @ (if flag_VECTOR b then concat (vec r) else []))"

text \<open>\<^verbatim>\<open>memcmp(&r1, &r2, sizeof(struct regs)) == 0\<close>\<close>

definition regs_memeq :: "build \<Rightarrow> regs \<Rightarrow> regs \<Rightarrow> bool" where
  "regs_memeq b r1 r2 \<longleftrightarrow> regs_image b r1 = regs_image b r2"

section \<open>Loops over registers that differ\<close>

text \<open>The member \<^verbatim>\<open>u\<close> of the i-th \<^verbatim>\<open>union fpv\<close>.\<close>

definition fp_u :: "build \<Rightarrow> regs \<Rightarrow> nat \<Rightarrow> u64" where
  "fp_u b r i =
     (if arch b = AARCH64 \<and> flag_VECTOR b then of_nat (le_load (take 8 (vec r ! i))) else fp r ! i)"

definition loop_over_gp_diff :: "build \<Rightarrow> regs \<Rightarrow> regs \<Rightarrow> (nat \<times> u64 \<times> u64) list" where
  "loop_over_gp_diff b before after =
     map (\<lambda>i. (i + getabiindex b ''gp'', gp before ! i, gp after ! i))
       (filter (\<lambda>i. gp before ! i \<noteq> gp after ! i) [0..<gp_count b])"

definition loop_over_fp_diff :: "build \<Rightarrow> regs \<Rightarrow> regs \<Rightarrow> (nat \<times> u64 \<times> u64) list" where
  "loop_over_fp_diff b before after =
     map (\<lambda>i. (i + getabiindex b ''fp'', fp_u b before i, fp_u b after i))
       (filter (\<lambda>i. fp_u b before i \<noteq> fp_u b after i) [0..<32])"

definition loop_over_vector_regs_diff :: "build \<Rightarrow> regs \<Rightarrow> regs \<Rightarrow> (nat \<times> u8 list \<times> u8 list) list" where
  "loop_over_vector_regs_diff b before after =
     map (\<lambda>i. (i + getabiindex b ''vec'', vec before ! i, vec after ! i))
       (filter (\<lambda>i. vec before ! i \<noteq> vec after ! i) [0..<32])"

definition loop_over_gp :: "build \<Rightarrow> regs \<Rightarrow> (nat \<times> u64) list" where
  "loop_over_gp b r = map (\<lambda>i. (i + getabiindex b ''gp'', gp r ! i)) [0..<gp_count b]"

definition loop_over_fp :: "build \<Rightarrow> regs \<Rightarrow> (nat \<times> u64) list" where
  "loop_over_fp b r = map (\<lambda>i. (i + getabiindex b ''fp'', fp_u b r i)) [0..<32]"

definition loop_over_vector_regs :: "build \<Rightarrow> regs \<Rightarrow> (nat \<times> u8 list) list" where
  "loop_over_vector_regs b r = map (\<lambda>i. (i + getabiindex b ''vec'', vec r ! i)) [0..<32]"

section \<open>The server's table\<close>

definition regs_mapping :: "build \<Rightarrow> string list" where
  "regs_mapping b = (case arch b of
     RISCV64 \<Rightarrow>
       [''ra'', ''sp'', ''gp'', ''tp'', ''t0'', ''t1'', ''t2'', ''s0''] @ riscv_REGS_AFTER_S0
       @ (if flag_FLOATS b then [''fcsr''] @ riscv_REGS_FP else [])
       @ (if flag_VECTOR b then REGS_VECTOR else [])
   | AARCH64 \<Rightarrow>
       aarch64_REGS_GP @ [''sp''] @ [''pstate'']
       @ (if flag_VECTOR b then [''fpsr''] @ REGS_VECTOR
          else if flag_FLOATS b then [''fpsr''] @ aarch64_REGS_FP else []))"

section \<open>Indices and names\<close>

lemmas reg_name_defs =
  riscv_gp_members_def riscv_fp_members_def aarch64_gp_members_def riscv_REGS_AFTER_S0_def
  riscv_REGS_FP_def aarch64_REGS_GP_def aarch64_REGS_FP_def REGS_VECTOR_def

lemma length_reg_names [simp]:
  "length riscv_gp_members = 31" "length riscv_fp_members = 32" "length aarch64_gp_members = 32"
  "length riscv_REGS_AFTER_S0 = 23" "length riscv_REGS_FP = 32" "length aarch64_REGS_GP = 31"
  "length aarch64_REGS_FP = 32" "length REGS_VECTOR = 32"
  by (simp_all add: reg_name_defs)

lemma gp_count_simps [simp]:
  "arch b = RISCV64 \<Longrightarrow> gp_count b = 31"
  "arch b = AARCH64 \<Longrightarrow> gp_count b = 32"
  by (simp_all add: gp_count_def gp_members_def)

lemma gp_count_le: "gp_count b \<le> 32"
  by (cases "arch b") simp_all

lemma getabiindex_gp [simp]: "getabiindex b ''gp'' = 0"
  by (cases "arch b") (simp_all add: getabiindex_def offsetof_regs_def regs_members_def)

lemma getabiindex_riscv [simp]:
  assumes "arch b = RISCV64" and "flag_FLOATS b"
  shows "getabiindex b ''fcsr'' = 31" "getabiindex b ''fp'' = 32"
    "flag_VECTOR b \<Longrightarrow> getabiindex b ''vec'' = 64"
  using assms by (simp_all add: getabiindex_def offsetof_regs_def regs_members_def)

lemma getabiindex_aarch64 [simp]:
  assumes "arch b = AARCH64"
  shows "getabiindex b ''pstate'' = 32"
    "flag_FLOATS b \<or> flag_VECTOR b \<Longrightarrow> getabiindex b ''fpsr'' = 33"
    "flag_FLOATS b \<or> flag_VECTOR b \<Longrightarrow> getabiindex b ''fp'' = 34"
    "flag_VECTOR b \<Longrightarrow> getabiindex b ''vec'' = 34"
  using assms by (auto simp: getabiindex_def offsetof_regs_def regs_members_def)

lemma length_regs_mapping:
  "length (regs_mapping b) = (case arch b of
     RISCV64 \<Rightarrow> 31 + (if flag_FLOATS b then 33 else 0) + (if flag_VECTOR b then 32 else 0)
   | AARCH64 \<Rightarrow> 33 + (if flag_FLOATS b \<or> flag_VECTOR b then 33 else 0))"
  by (simp add: regs_mapping_def split: arch.split)

text \<open>On a valid build the server's table is a prefix of the client's.\<close>

lemma regs_mapping_prefix:
  assumes "valid_build b"
  shows "\<exists>rest. (case arch b of RISCV64 \<Rightarrow> riscv_abi_names | AARCH64 \<Rightarrow> aarch64_abi_names b)
                = regs_mapping b @ rest"
  using assms
  by (cases "arch b"; cases "flag_FLOATS b"; cases "flag_VECTOR b")
    (auto simp: riscv_abi_names_def aarch64_abi_names_def regs_mapping_def valid_build_def)

lemma get_abi_name_mapping:
  assumes "valid_build b" and "i < length (regs_mapping b)"
  shows "get_abi_name b i = Inr (regs_mapping b ! i)"
proof -
  obtain rest where "(case arch b of RISCV64 \<Rightarrow> riscv_abi_names | AARCH64 \<Rightarrow> aarch64_abi_names b)
                       = regs_mapping b @ rest"
    using regs_mapping_prefix [OF assms(1)] by blast
  with assms(2) show ?thesis by (simp add: get_abi_name_def nth_append)
qed

lemma distinct_regs_mapping:
  "distinct (regs_mapping b)"
  by (cases "arch b"; cases "flag_FLOATS b"; cases "flag_VECTOR b")
    (simp_all add: regs_mapping_def reg_name_defs)

definition is_vec_name :: "string \<Rightarrow> bool" where
  "is_vec_name n \<longleftrightarrow> take 1 n = ''v''"

text \<open>The server takes an entry for a vector register exactly where the client writes one.\<close>

lemma is_vec_name_mapping:
  assumes "valid_build b" and "i < length (regs_mapping b)"
  shows "is_vec_name (regs_mapping b ! i) \<longleftrightarrow> flag_VECTOR b \<and> getabiindex b ''vec'' \<le> i"
proof -
  have novec: "\<forall>n \<in> set (riscv_REGS_AFTER_S0 @ riscv_REGS_FP @ aarch64_REGS_GP @ aarch64_REGS_FP).
      \<not> is_vec_name n" and vec: "\<forall>n \<in> set REGS_VECTOR. is_vec_name n"
    by (simp_all add: reg_name_defs is_vec_name_def)
  have other: "\<not> is_vec_name ''ra''" "\<not> is_vec_name ''sp''" "\<not> is_vec_name ''gp''"
    "\<not> is_vec_name ''tp''" "\<not> is_vec_name ''t0''" "\<not> is_vec_name ''t1''" "\<not> is_vec_name ''t2''"
    "\<not> is_vec_name ''s0''" "\<not> is_vec_name ''fcsr''" "\<not> is_vec_name ''pstate''" "\<not> is_vec_name ''fpsr''"
    by (simp_all add: is_vec_name_def)
  define base where "base = (if flag_VECTOR b then take (getabiindex b ''vec'') (regs_mapping b)
                             else regs_mapping b)"
  have split: "regs_mapping b = base @ (if flag_VECTOR b then REGS_VECTOR else [])"
    using assms(1) unfolding base_def
    by (cases "arch b"; cases "flag_FLOATS b"; cases "flag_VECTOR b")
      (simp_all add: regs_mapping_def valid_build_def)
  have nov: "\<forall>n \<in> set base. \<not> is_vec_name n"
    using assms(1) novec other unfolding base_def
    by (cases "arch b"; cases "flag_FLOATS b"; cases "flag_VECTOR b")
      (auto simp: regs_mapping_def valid_build_def)
  have len: "flag_VECTOR b \<Longrightarrow> length base = getabiindex b ''vec''"
    using assms(1) unfolding base_def
    by (cases "arch b"; cases "flag_FLOATS b") (simp_all add: length_regs_mapping valid_build_def)
  show ?thesis
  proof (cases "flag_VECTOR b")
    case False
    with split nov assms(2) show ?thesis by simp
  next
    case True
    with split nov vec len assms(2) show ?thesis
      by (cases "i < length base") (auto simp: nth_append)
  qed
qed

section \<open>Memory image\<close>

lemma le_store_8_inj [simp]: "le_store 8 (unat (a :: u64)) = le_store 8 (unat c) \<longleftrightarrow> a = c"
proof
  assume "le_store 8 (unat a) = le_store 8 (unat c)"
  then have "le_load (le_store 8 (unat a)) = le_load (le_store 8 (unat c))" by (simp only:)
  then have "unat a = unat c" by (subst (asm) (1 2) le_load_unat_store) simp_all
  then show "a = c" by (simp only: word_unat_eq_iff)
qed simp

lemma le_words_inj:
  "length xs = length ys \<Longrightarrow> le_words xs = le_words ys \<longleftrightarrow> xs = ys"
  by (induction xs ys rule: list_induct2) (simp_all add: le_words_def)

lemma length_le_words [simp]: "length (le_words ws) = 8 * length ws"
  by (induction ws) (simp_all add: le_words_def)

lemma concat_same_length_inj:
  "length xs = length ys \<Longrightarrow> \<forall>v \<in> set xs. length v = n \<Longrightarrow> \<forall>v \<in> set ys. length v = n \<Longrightarrow>
     concat xs = concat ys \<longleftrightarrow> xs = ys"
  by (induction xs ys rule: list_induct2) auto

section \<open>A difference list determines the second snapshot\<close>

lemma fold_update_nth:
  "distinct is \<Longrightarrow> \<forall>i \<in> set is. i < length zs \<Longrightarrow> j < length zs \<Longrightarrow>
     fold (\<lambda>i zs. zs[i := f i]) is zs ! j = (if j \<in> set is then f j else zs ! j)"
  by (induction "is" arbitrary: zs) auto

lemma length_fold_update [simp]: "length (fold (\<lambda>i zs. zs[i := f i]) is zs) = length zs"
  by (induction "is" arbitrary: zs) simp_all

lemma diff_list_apply:
  assumes "length xs = n" and "length ys = n"
  shows "fold (\<lambda>i zs. zs[i := ys ! i]) (filter (\<lambda>i. xs ! i \<noteq> ys ! i) [0..<n]) xs = ys"
  using assms by (intro nth_equalityI) (auto simp: fold_update_nth)

definition apply_diffs :: "nat \<Rightarrow> (nat \<times> 'a \<times> 'a) list \<Rightarrow> 'a list \<Rightarrow> 'a list" where
  "apply_diffs base ds xs = fold (\<lambda>(i, _, y) zs. zs[i - base := y]) ds xs"

lemma apply_diffs_filter:
  assumes "length xs = n" and "length ys = n"
  shows "apply_diffs base (map (\<lambda>i. (i + base, xs ! i, ys ! i))
           (filter (\<lambda>i. xs ! i \<noteq> ys ! i) [0..<n])) xs = ys"
  using diff_list_apply [OF assms] by (simp add: apply_diffs_def fold_map o_def)

section \<open>Comparing snapshots\<close>

lemma regs_memeq_banks:
  assumes "wf_regs b r1" and "wf_regs b r2"
  shows "regs_memeq b r1 r2 \<longleftrightarrow>
     gp r1 = gp r2 \<and>
     (arch b = AARCH64 \<longrightarrow> pstate r1 = pstate r2) \<and>
     (arch b = AARCH64 \<and> (flag_FLOATS b \<or> flag_VECTOR b) \<longrightarrow> fpsr r1 = fpsr r2) \<and>
     (arch b = RISCV64 \<and> flag_FLOATS b \<longrightarrow> fcsr r1 = fcsr r2) \<and>
     (flag_FLOATS b \<longrightarrow> fp r1 = fp r2) \<and>
     (flag_VECTOR b \<longrightarrow> vec r1 = vec r2)"
proof -
  have gp: "length (le_words (gp r1)) = length (le_words (gp r2))"
      "le_words (gp r1) = le_words (gp r2) \<longleftrightarrow> gp r1 = gp r2"
    and fp: "flag_FLOATS b \<Longrightarrow> length (le_words (fp r1)) = length (le_words (fp r2))"
      "flag_FLOATS b \<Longrightarrow> le_words (fp r1) = le_words (fp r2) \<longleftrightarrow> fp r1 = fp r2"
    using assms by (auto simp: wf_regs_def le_words_inj)
  have vec: "flag_VECTOR b \<Longrightarrow> concat (vec r1) = concat (vec r2) \<longleftrightarrow> vec r1 = vec r2"
    using assms concat_same_length_inj [of "vec r1" "vec r2" VEC_REG_SIZE]
    by (auto simp: wf_regs_def)
  show ?thesis
    using gp fp vec
    by (cases "arch b"; cases "flag_FLOATS b"; cases "flag_VECTOR b")
      (simp_all add: regs_memeq_def regs_image_def append_eq_append_conv)
qed

section \<open>Properties\<close>


definition riscv_vector_build :: build where
  "riscv_vector_build = \<lparr>arch = RISCV64, flag_VECTOR = True, flag_FLOATS = True, flag_CHECK_MEM = True,
     flag_AUTO_MAP_MEM = True, flag_AUTO_MAP_MEM_RW_PROT = False, flag_META = True, MAX_SEQ_LEN = 5\<rparr>"



definition zero_regs :: "build \<Rightarrow> regs" where
  "zero_regs b = \<lparr>gp = replicate (gp_count b) 0, pstate = 0, fpsr = 0, fcsr = 0,
     fp = replicate 32 0, vec = replicate 32 (replicate VEC_REG_SIZE 0)\<rparr>"

lemma wf_zero_regs [simp]: "wf_regs b (zero_regs b)"
  by (simp add: wf_regs_def zero_regs_def)


text \<open>
  The difference loops lose nothing: writing the entries of the general purpose and
  vector loops into the first snapshot gives the banks of the second one back.
\<close>

lemma diff_loops_complete:
  assumes "wf_regs b before" and "wf_regs b after"
  shows "apply_diffs (getabiindex b ''gp'') (loop_over_gp_diff b before after) (gp before) = gp after \<and>
         (flag_VECTOR b \<longrightarrow>
            apply_diffs (getabiindex b ''vec'') (loop_over_vector_regs_diff b before after) (vec before)
              = vec after)"
  using assms unfolding loop_over_gp_diff_def loop_over_vector_regs_diff_def wf_regs_def
  by (intro conjI impI apply_diffs_filter) auto

end
