(* ===== verification/Fuzzing_Values.thy ===== *)
theory Fuzzing_Values
  imports Rng Regs
begin

text \<open>
  lib/fuzzing_value_map.c: the tables of interesting register values and the routines that draw
  from them, with the pointer check of diffuzz-client.c. The floating point entries are built from
  sign, exponent and fraction as IEEE 754 lays them out; \<^verbatim>\<open>{ .flt = x }\<close> sets the low four
  bytes of a union whose remaining bytes are zero. \<open>server_value_map_gp\<close> and
  \<open>server_value_map_fp\<close> are the tables of pyutils/riscv/fuzzing_value_map.py and
  pyutils/arm/fuzzing_value_map.py.
\<close>

section \<open>Tables\<close>

definition page_size :: "build \<Rightarrow> u64" where
  "page_size b = (case arch b of RISCV64 \<Rightarrow> 4096 | AARCH64 \<Rightarrow> 16384)"

definition NOP_32 :: "build \<Rightarrow> u32" where
  "NOP_32 b = (case arch b of RISCV64 \<Rightarrow> 0x00000013 | AARCH64 \<Rightarrow> 0xd503201f)"

abbreviation (input) VALID_ADDR :: u64 where "VALID_ADDR \<equiv> 0x800000"

definition APPLY_SANDWICH_OFFSETS :: "build \<Rightarrow> u64 \<Rightarrow> u64 list" where
  "APPLY_SANDWICH_OFFSETS b base =
     map (\<lambda>k. base + 1 * page_size b - k) [1, 3, 4, 7, 8, 16]"

definition APPLY_START_END_OFFSETS :: "build \<Rightarrow> u64 \<Rightarrow> u64 list" where
  "APPLY_START_END_OFFSETS b base =
     map (\<lambda>k. base + 0 * page_size b - k) [1, 3, 4, 7, 8, 16] @
     map (\<lambda>k. base + 2 * page_size b - k) [1, 3, 4, 7, 8, 16]"

definition fuzzing_value_map_gp :: "build \<Rightarrow> u64 list" where
  "fuzzing_value_map_gp b =
     [0, 2 ^ 8 - 1, 2 ^ 16 - 1, 2 ^ 32 - 1, - 1, 1, 2, 42, 1337,
      2 ^ 7 - 1, 2 ^ 15 - 1, 2 ^ 31 - 1, 2 ^ 63 - 1,
      - (2 ^ 7), - (2 ^ 15), - (2 ^ 31), - (2 ^ 63),
      2 ^ 8 - 1, 2 ^ 16 - 1, 2 ^ 32 - 1, - 1] @
     [ucast (NOP_32 b), ucast (NOP_32 b), ucast (NOP_32 b), ucast (NOP_32 b)] @
     APPLY_SANDWICH_OFFSETS b VALID_ADDR @ APPLY_START_END_OFFSETS b VALID_ADDR"

text \<open>The bits of a \<^verbatim>\<open>double\<close> and of a \<^verbatim>\<open>float\<close>.\<close>

definition dbl_bits :: "bool \<Rightarrow> u64 \<Rightarrow> u64 \<Rightarrow> u64" where
  "dbl_bits neg expo frac = (if neg then 2 ^ 63 else 0) + push_bit 52 expo + frac"

definition flt_bits :: "bool \<Rightarrow> u64 \<Rightarrow> u64 \<Rightarrow> u64" where
  "flt_bits neg expo frac = (if neg then 2 ^ 31 else 0) + push_bit 23 expo + frac"

text \<open>
  1337 is 1.3056640625 times 1024, 42 is 1.3125 times 32; infinity and NaN have the largest
  exponent, NaN the quiet bit; the smallest normal number has exponent 1, half of it the highest
  fraction bit alone.
\<close>

definition fuzzing_value_map_fp :: "u64 list" where
  "fuzzing_value_map_fp =
     [dbl_bits False 0 0, dbl_bits True 0 0, flt_bits True 0 0,
      dbl_bits False 1023 0, flt_bits False 127 0,
      dbl_bits False 1024 0, flt_bits False 128 0,
      dbl_bits False 1028 (5 * 2 ^ 48), flt_bits False 132 (5 * 2 ^ 19),
      dbl_bits False 1033 (0x4E4 * 2 ^ 40), flt_bits False 137 (0x4E4 * 2 ^ 11)] @
     [flt_bits False 255 0, flt_bits True 255 0, dbl_bits False 2047 0, dbl_bits True 2047 0,
      flt_bits False 255 (2 ^ 22), flt_bits True 255 (2 ^ 22),
      dbl_bits False 2047 (2 ^ 51), dbl_bits True 2047 (2 ^ 51)] @
     [flt_bits False 254 (2 ^ 23 - 1), flt_bits True 254 (2 ^ 23 - 1),
      dbl_bits False 2046 (2 ^ 52 - 1), dbl_bits True 2046 (2 ^ 52 - 1)] @
     [flt_bits False 1 0, flt_bits True 1 0, dbl_bits False 1 0, dbl_bits True 1 0] @
     [flt_bits False 0 (2 ^ 22), flt_bits True 0 (2 ^ 22),
      dbl_bits False 0 (2 ^ 51), dbl_bits True 0 (2 ^ 51),
      flt_bits False 0 1, flt_bits True 0 1, dbl_bits False 0 1, dbl_bits True 0 1]"

section \<open>Drawing values\<close>

definition fuzzing_value_map_gp_val_or_rand :: "build \<Rightarrow> shared_rng \<Rightarrow> u64 \<times> shared_rng" where
  "fuzzing_value_map_gp_val_or_rand b rng =
     (let n = length (fuzzing_value_map_gp b);
          (x, rng1) = rng_next rng;
          i = unat x mod (n + 1)
      in if i = n then rng_next rng1 else (fuzzing_value_map_gp b ! i, rng1))"

definition fuzzing_value_map_fp_val_or_rand :: "shared_rng \<Rightarrow> u64 \<times> shared_rng" where
  "fuzzing_value_map_fp_val_or_rand rng =
     (let n = length fuzzing_value_map_fp;
          (x, rng1) = rng_next rng;
          i = unat x mod (n + 1)
      in if i = n then rng_next rng1 else (fuzzing_value_map_fp ! i, rng1))"

definition fuzzing_value_any_val :: "build \<Rightarrow> shared_rng \<Rightarrow> u64 \<times> shared_rng" where
  "fuzzing_value_any_val b rng =
     (let (x, rng1) = rng_next rng
      in if x mod 2 = 0 then fuzzing_value_map_fp_val_or_rand rng1
         else fuzzing_value_map_gp_val_or_rand b rng1)"

section \<open>Pointers the values may become\<close>

text \<open>
  \<open>check_ptrs_safe\<close> of diffuzz-client.c, without its warnings; \<open>mapped\<close> is the answer of
  \<open>check_page_mapped\<close> for a page address. The product \<^verbatim>\<open>j*page_size\<close> is an \<^verbatim>\<open>int\<close> that is
  converted to 64 bits, and the sum wraps.
\<close>

definition check_ptrs_safe :: "build \<Rightarrow> (u64 \<Rightarrow> bool) \<Rightarrow> u64 list \<Rightarrow> bool" where
  "check_ptrs_safe b mapped ptrs =
     list_ex (\<lambda>target.
       let page_start = target AND NOT (page_size b - 1)
       in list_ex (\<lambda>j. mapped (page_start + word_of_int j * page_size b)) [- 1000..1000]) ptrs"

definition check_fuzzing_values_safe :: "build \<Rightarrow> (u64 \<Rightarrow> bool) \<Rightarrow> unit res" where
  "check_fuzzing_values_safe b mapped =
     (if check_ptrs_safe b mapped (fuzzing_value_map_gp b) \<or>
         (flag_FLOATS b \<and> check_ptrs_safe b mapped fuzzing_value_map_fp)
      then Inl (Exit EXIT_FAILURE ''unsafe fuzzing value'') else Inr ())"

section \<open>The server's tables\<close>

definition server_value_map_gp :: "build \<Rightarrow> u64 list" where
  "server_value_map_gp b =
     [0x0, 0xff, 0xffff, 0xffffffff, 0xffffffffffffffff, 0x1, 0x2, 0x2a, 0x539, 0x7f, 0x7fff,
      0x7fffffff, 0x7fffffffffffffff, 0xffffffffffffff80, 0xffffffffffff8000, 0xffffffff80000000,
      0x8000000000000000, 0xff, 0xffff, 0xffffffff, 0xffffffffffffffff] @
     (case arch b of
        RISCV64 \<Rightarrow>
          [0x13, 0x13, 0x13, 0x13, 0x800fff, 0x800ffd, 0x800ffc, 0x800ff9, 0x800ff8, 0x800ff0,
           0x7fffff, 0x7ffffd, 0x7ffffc, 0x7ffff9, 0x7ffff8, 0x7ffff0,
           0x801fff, 0x801ffd, 0x801ffc, 0x801ff9, 0x801ff8, 0x801ff0]
      | AARCH64 \<Rightarrow>
          [0xd503201f, 0xd503201f, 0xd503201f, 0xd503201f,
           0x803fff, 0x803ffd, 0x803ffc, 0x803ff9, 0x803ff8, 0x803ff0,
           0x7fffff, 0x7ffffd, 0x7ffffc, 0x7ffff9, 0x7ffff8, 0x7ffff0,
           0x807fff, 0x807ffd, 0x807ffc, 0x807ff9, 0x807ff8, 0x807ff0])"

definition server_value_map_fp :: "u64 list" where
  "server_value_map_fp =
     [0x0, 0x8000000000000000, 0x80000000, 0x3ff0000000000000, 0x3f800000, 0x4000000000000000,
      0x40000000, 0x4045000000000000, 0x42280000, 0x4094e40000000000, 0x44a72000, 0x7f800000,
      0xff800000, 0x7ff0000000000000, 0xfff0000000000000, 0x7fc00000, 0xffc00000,
      0x7ff8000000000000, 0xfff8000000000000, 0x7f7fffff, 0xff7fffff, 0x7fefffffffffffff,
      0xffefffffffffffff, 0x800000, 0x80800000, 0x10000000000000, 0x8010000000000000, 0x400000,
      0x80400000, 0x8000000000000, 0x8008000000000000, 0x1, 0x80000001, 0x1, 0x8000000000000001]"

lemma fuzzing_tables_agree:
  "fuzzing_value_map_gp b = server_value_map_gp b" "fuzzing_value_map_fp = server_value_map_fp"
proof -
  show "fuzzing_value_map_gp b = server_value_map_gp b"
    by (cases "arch b")
      (simp_all add: fuzzing_value_map_gp_def server_value_map_gp_def NOP_32_def page_size_def
        APPLY_SANDWICH_OFFSETS_def APPLY_START_END_OFFSETS_def)
  show "fuzzing_value_map_fp = server_value_map_fp"
    by code_simp
qed

section \<open>Draws are from the tables or random\<close>

lemma table_draw:
  assumes "rng_inv rng" and "table \<noteq> []"
  shows "let (x, rng1) = rng_next rng; i = unat x mod (length table + 1);
             r = (if i = length table then rng_next rng1 else (table ! i, rng1))
         in rng_inv (snd r) \<and> (fst r \<in> set table \<or> unat (fst r) < 2 ^ 32)"
proof -
  have inv: "rng_inv (snd (rng_next rng))" by (rule rng_next.act_inv [OF assms(1)])
  have "unat (fst (rng_next rng)) mod (length table + 1) < length table + 1" by simp
  with inv rng_next.act_good [OF inv] show ?thesis
    by (auto simp: Let_def case_prod_unfold rng_next.act_inv simp del: mod_less_divisor)
qed

lemma table_nonempty [simp]: "fuzzing_value_map_gp b \<noteq> []" "fuzzing_value_map_fp \<noteq> []"
  by (simp_all add: fuzzing_value_map_gp_def fuzzing_value_map_fp_def)

interpretation gp_draw: rng_action "fuzzing_value_map_gp_val_or_rand b"
    "\<lambda>x. x \<in> set (fuzzing_value_map_gp b) \<or> unat x < 2 ^ 32" for b
  by unfold_locales
    (use table_draw [of _ "fuzzing_value_map_gp b"] in
      \<open>simp_all add: fuzzing_value_map_gp_val_or_rand_def Let_def case_prod_unfold\<close>)

interpretation fp_draw: rng_action fuzzing_value_map_fp_val_or_rand
    "\<lambda>x. x \<in> set fuzzing_value_map_fp \<or> unat x < 2 ^ 32"
  by unfold_locales
    (use table_draw [of _ fuzzing_value_map_fp] in
      \<open>simp_all add: fuzzing_value_map_fp_val_or_rand_def Let_def case_prod_unfold\<close>)

interpretation any_draw: rng_action "fuzzing_value_any_val b"
    "\<lambda>x. x \<in> set (fuzzing_value_map_gp b) \<union> set fuzzing_value_map_fp \<or> unat x < 2 ^ 32" for b
proof unfold_locales
  fix rng
  assume inv: "rng_inv rng"
  note inv1 = rng_next.act_inv [OF inv]
  show "rng_inv (snd (fuzzing_value_any_val b rng))"
    using fp_draw.act_inv [OF inv1] gp_draw.act_inv [OF inv1, of b]
    by (simp add: fuzzing_value_any_val_def Let_def case_prod_unfold)
  show "fst (fuzzing_value_any_val b rng) \<in> set (fuzzing_value_map_gp b) \<union> set fuzzing_value_map_fp \<or>
      unat (fst (fuzzing_value_any_val b rng)) < 2 ^ 32"
    using fp_draw.act_good [OF inv1] gp_draw.act_good [OF inv1, of b]
    by (auto simp: fuzzing_value_any_val_def Let_def case_prod_unfold)
qed

section \<open>Pages around a pointer\<close>

definition page_of :: "build \<Rightarrow> u64 \<Rightarrow> u64" where
  "page_of b a = a AND NOT (page_size b - 1)"

abbreviation page_bits :: "build \<Rightarrow> nat" where
  "page_bits b \<equiv> (case arch b of RISCV64 \<Rightarrow> 12 | AARCH64 \<Rightarrow> 14)"

lemma page_size_power: "page_size b = 2 ^ page_bits b"
  by (simp add: page_size_def split: arch.split)

lemma page_of_int:
  "page_of b a = word_of_int (2 ^ page_bits b * (uint a div 2 ^ page_bits b))"
proof -
  let ?k = "page_bits b"
  have "page_of b a = a AND NOT (mask ?k)"
    by (simp add: page_of_def page_size_power mask_eq_exp_minus_1)
  also have "\<dots> = push_bit ?k (drop_bit ?k a)"
    by (rule bit_word_eqI) (auto simp: bit_simps)
  also have "\<dots> = word_of_int (uint (drop_bit ?k a)) * 2 ^ ?k"
    by (simp add: push_bit_eq_mult)
  also have "uint (drop_bit ?k a) = uint a div 2 ^ ?k"
    using unsigned_less [of a, where ?'a = int]
    by (subst unsigned_drop_bit_eq) (simp add: drop_bit_eq_div take_bit_int_eq_self)
  also have "word_of_int (uint a div 2 ^ ?k) * 2 ^ ?k =
      (word_of_int (2 ^ ?k * (uint a div 2 ^ ?k)) :: u64)"
    by (simp add: mult.commute)
  finally show ?thesis .
qed

text \<open>An address less than a thousand pages from a pointer is on a page the check looked at.\<close>

lemma near_div:
  fixes p m v d :: int
  assumes "0 < p" and "0 < m" and "- (1000 * p) < d" and "d < 1000 * p"
  shows "\<exists>j \<in> {- 1000..1000}. (v + d) mod (p * m) div p = (v div p + j) mod m"
proof
  let ?j = "(v + d) div p - v div p"
  have "(v + d) mod (p * m) = p * ((v + d) div p mod m) + (v + d) mod p"
    using assms(2) by (simp add: zmod_zmult2_eq)
  with assms(1) show "(v + d) mod (p * m) div p = (v div p + ?j) mod m" by simp
  have "(v + d) div p \<le> (v + 1000 * p) div p" "(v + - 1000 * p) div p \<le> (v + d) div p"
    using assms by (intro zdiv_mono1; simp)+
  moreover have "(v + 1000 * p) div p = v div p + 1000" "(v + - 1000 * p) div p = v div p + - 1000"
    using assms(1) div_mult_self1 [of p v "- 1000"] div_mult_self1 [of p v 1000] by simp_all
  ultimately show "?j \<in> {- 1000..1000}" by simp
qed

lemma check_ptrs_safe_iff:
  "check_ptrs_safe b mapped ptrs \<longleftrightarrow>
     (\<exists>v \<in> set ptrs. \<exists>j \<in> {- 1000..1000}. mapped (page_of b v + word_of_int j * page_size b))"
  by (simp only: check_ptrs_safe_def list_ex_iff Let_def page_of_def set_upto)

lemma word_of_int_mod_64: "word_of_int (x mod 2 ^ 64) = (word_of_int x :: u64)"
  by (simp add: word_of_int_eq_iff take_bit_eq_mod)

lemma page_near:
  assumes "- (1000 * 2 ^ page_bits b) < d" and "d < 1000 * 2 ^ page_bits b"
  shows "\<exists>j \<in> {- 1000..1000}.
           page_of b (v + word_of_int d) = page_of b v + word_of_int j * page_size b"
proof -
  let ?p = "2 ^ page_bits b :: int" and ?m = "2 ^ (64 - page_bits b) :: int"
  have full: "?p * ?m = 2 ^ 64" by (simp add: power_add [symmetric] split: arch.split)
  from near_div [of ?p ?m d "uint v"] assms obtain j where j: "j \<in> {- 1000..1000}"
    "(uint v + d) mod (?p * ?m) div ?p = (uint v div ?p + j) mod ?m" by auto
  have "uint (v + word_of_int d) = (uint v + d) mod 2 ^ 64"
    by (simp add: uint_word_ariths(1) uint_word_of_int mod_simps)
  then have "page_of b (v + word_of_int d) = word_of_int (?p * ((uint v div ?p + j) mod ?m))"
    using j(2) by (simp only: page_of_int full)
  also have "?p * ((uint v div ?p + j) mod ?m) = (?p * (uint v div ?p + j)) mod 2 ^ 64"
    by (simp only: mult_mod_right full)
  also have "word_of_int (\<dots>) = (word_of_int (?p * (uint v div ?p + j)) :: u64)"
    by (rule word_of_int_mod_64)
  also have "\<dots> = page_of b v + word_of_int j * page_size b"
    by (simp add: page_of_int page_size_power distrib_left mult.commute)
  finally show ?thesis using j(1) by blast
qed

section \<open>Properties\<close>

text \<open>
  C28. The tables the client draws from are, entry by entry, the tables the server was generated
  with, on both architectures, so that an index chosen by the server names the same value.
\<close>

theorem fuzzing_tables_match_server:
  "fuzzing_value_map_gp b = server_value_map_gp b \<and> fuzzing_value_map_fp = server_value_map_fp"
  using fuzzing_tables_agree by blast

text \<open>
  C20. When the pointer check passes, no address less than a thousand pages away from a general
  purpose fuzzing value (or, with floats, from a floating point one) lies on a page that is mapped
  in the client, wrapping around the ends of the address space included.
\<close>

theorem fuzzing_values_safe:
  assumes "check_fuzzing_values_safe b mapped = Inr ()"
    and "v \<in> set (fuzzing_value_map_gp b) \<or> (flag_FLOATS b \<and> v \<in> set fuzzing_value_map_fp)"
    and "\<bar>d\<bar> < 1000 * 2 ^ page_bits b"
  shows "\<not> mapped (page_of b (v + word_of_int d))"
proof -
  obtain j where j: "j \<in> {- 1000..1000}"
    "page_of b (v + word_of_int d) = page_of b v + word_of_int j * page_size b"
    using page_near [of b d v] assms(3) by (meson abs_less_iff minus_less_iff)
  have "\<not> check_ptrs_safe b mapped (fuzzing_value_map_gp b)"
    "flag_FLOATS b \<longrightarrow> \<not> check_ptrs_safe b mapped fuzzing_value_map_fp"
    using assms(1) by (auto simp: check_fuzzing_values_safe_def split: if_splits)
  then have "\<not> mapped (page_of b v + word_of_int j * page_size b)"
    using assms(2) j(1)
    unfolding check_ptrs_safe_iff by blast
  with j(2) show ?thesis by simp
qed

lemma near_page_sint:
  assumes "j \<in> {- 1000..1000}"
  shows "\<bar>sint (word_of_int j * page_size b)\<bar> \<le> 1000 * 2 ^ page_bits b"
proof -
  have "int64_range (j * 2 ^ page_bits b)"
    using assms by (auto simp: int64_range_def split: arch.split)
  moreover have "word_of_int j * page_size b = word_of_int (j * 2 ^ page_bits b)"
    by (simp add: page_size_power)
  ultimately have "sint (word_of_int j * page_size b) = j * 2 ^ page_bits b"
    by (simp only: sint_word_of_int_64)
  moreover have "\<bar>j\<bar> \<le> 1000" using assms by auto
  ultimately show ?thesis by (simp add: abs_mult)
qed

lemma far_page_safe:
  assumes "\<forall>v \<in> set ptrs. \<bar>sint (p - page_of b v)\<bar> > 1000 * 2 ^ page_bits b"
  shows "\<not> check_ptrs_safe b (\<lambda>q. q = p) ptrs"
proof
  assume "check_ptrs_safe b (\<lambda>q. q = p) ptrs"
  then obtain v j where vj: "v \<in> set ptrs" "j \<in> {- 1000..1000}"
    "page_of b v + word_of_int j * page_size b = p" unfolding check_ptrs_safe_iff by blast
  then have "p - page_of b v = word_of_int j * page_size b" by auto
  with assms vj(1) near_page_sint [OF vj(2), of b] show False by fastforce
qed

theorem fuzzing_values_safe_witness:
  "check_fuzzing_values_safe riscv_vector_build (\<lambda>p. p = 0x400000000000) = Inr () \<and>
   page_of riscv_vector_build (0x800ff0 + word_of_int (- 4096)) \<noteq> 0x400000000000"
proof -
  have "\<forall>v \<in> set (fuzzing_value_map_gp riscv_vector_build).
      \<bar>sint (0x400000000000 - page_of riscv_vector_build v)\<bar> > 1000 * 2 ^ page_bits riscv_vector_build"
    "\<forall>v \<in> set fuzzing_value_map_fp.
      \<bar>sint (0x400000000000 - page_of riscv_vector_build v)\<bar> > 1000 * 2 ^ page_bits riscv_vector_build"
    by code_simp+
  then have "check_fuzzing_values_safe riscv_vector_build (\<lambda>p. p = 0x400000000000) = Inr ()"
    by (simp add: check_fuzzing_values_safe_def far_page_safe)
  moreover have "0x800ff0 \<in> set (fuzzing_value_map_gp riscv_vector_build)"
    by (simp add: fuzzing_tables_agree server_value_map_gp_def riscv_vector_build_def)
  ultimately show ?thesis
    using fuzzing_values_safe [of riscv_vector_build "\<lambda>p. p = 0x400000000000" "0x800ff0" "- 4096"]
    by (simp add: riscv_vector_build_def)
qed

end
