(* ===== verification/Generator.thy ===== *)
theory Generator
  imports Fuzzing_Values
begin

text \<open>
  lib/immediates.h and lib/{riscv64,aarch64}/randomdifffuzzgenerator.h: random immediates, the
  instantiation of instruction templates, the initial registers, and \<open>generate_input\<close>, which makes
  the input of a sequence number. The instruction table (filtered_instructions.h) is generated
  during the build; it is the parameter \<open>instructions\<close>. Shifts are written for field widths below
  32, where C defines them.
\<close>

section \<open>Immediates\<close>

definition small_or_any :: "int \<Rightarrow> int \<Rightarrow> shared_rng \<Rightarrow> u32 \<times> shared_rng" where
  "small_or_any lo hi rng =
     (let (p, rng1) = rng_randint rng 1 10
      in if p \<le> 9 then let (x, rng2) = rng_randint rng1 lo hi in (word_of_int x, rng2)
         else let (x, rng2) = rng_next rng1 in (ucast x, rng2))"

definition random_unsigned_immediate :: "shared_rng \<Rightarrow> nat \<Rightarrow> u32 \<times> shared_rng" where
  "random_unsigned_immediate rng bits =
     (let (x, rng1) = rng_next rng; c = unat x mod 3
      in if c = 0 then (0, rng1)
         else if c = 1 then (2 ^ bits - 1, rng1)
         else small_or_any 0 16 rng1)"

definition random_signed_immediate :: "shared_rng \<Rightarrow> nat \<Rightarrow> u32 \<times> shared_rng" where
  "random_signed_immediate rng bits =
     (let (x, rng1) = rng_next rng; c = unat x mod 5
      in if c = 0 then (0, rng1)
         else if c = 1 then (- 1, rng1)
         else if c = 2 then (- (2 ^ (bits - 1)), rng1)
         else if c = 3 then (2 ^ (bits - 1) - 1, rng1)
         else small_or_any (- 8) 8 rng1)"

section \<open>Templates\<close>

record InstrField =
  range_high :: nat
  range_low :: nat
  fld_name :: string
  fld_mask :: u32

record Instruction =
  mnemonic :: string
  templ_mask :: u32
  templ_value :: u32
  templ_fields :: "InstrField list"

record InstantiatedInstruction =
  inst_mnemonic :: string
  encoded :: u32
  field_values :: "u32 option list"

record random_difffuzz_generator =
  gen_rng :: shared_rng
  gen_seed :: u64
  num_regs :: u32

definition random_difffuzz_generator_init ::
  "random_difffuzz_generator \<Rightarrow> u64 \<Rightarrow> random_difffuzz_generator" where
  "random_difffuzz_generator_init generator seed = generator\<lparr>gen_seed := seed\<rparr>"

definition field_bits :: "InstrField \<Rightarrow> nat" where
  "field_bits fld = range_high fld - range_low fld + 1"

definition inverted_mask :: "InstrField \<Rightarrow> u32" where
  "inverted_mask fld = push_bit (range_low fld) (NOT (fld_mask fld) AND (2 ^ field_bits fld - 1))"

definition unsigned_immediate_fields :: "string list" where
  "unsigned_immediate_fields = [''uimm4'', ''uimm6'']"

definition signed_immediate_fields :: "string list" where
  "signed_immediate_fields =
     [''imm2'', ''imm3'', ''imm4'', ''imm5'', ''imm6'', ''imm7'', ''imm8'', ''imm9'', ''imm12'',
      ''imm13'', ''imm14'', ''imm16'', ''imm19'', ''imm26'']"

definition register_fields :: "string list" where
  "register_fields =
     [''Rd'', ''Rn'', ''Rm'', ''Vd'', ''Vn'', ''Vm'', ''Vdn'', ''Zn'', ''Zm'', ''Za'', ''Zda'', ''Zdn'',
      ''Pd'', ''Pn'', ''Pm'', ''Pg'', ''PNg'', ''PNd'', ''Pv'', ''PNn'', ''Pdm'', ''Pdn'', ''Pt'']"

definition random_bits :: "nat \<Rightarrow> shared_rng \<Rightarrow> u32 \<times> shared_rng" where
  "random_bits bits rng = (let (x, rng1) = rng_next rng in (ucast (x mod 2 ^ bits), rng1))"

text \<open>The two switches on the field's name; on riscv64 they are commented out.\<close>

definition choose_register :: "u32 \<Rightarrow> shared_rng \<Rightarrow> u32 \<times> shared_rng" where
  "choose_register n rng =
     (let (p, rng1) = rng_randint rng 0 (uint n); (x, rng2) = rng_next rng1
      in if p = 0 then (ucast x, rng2) else (ucast (x mod ucast n), rng2))"

definition choose_field ::
  "build \<Rightarrow> u32 \<Rightarrow> InstrField \<Rightarrow> shared_rng \<Rightarrow> (u32 \<times> shared_rng) res" where
  "choose_field b n fld rng = (case arch b of
     RISCV64 \<Rightarrow> Inr (random_bits (field_bits fld) rng)
   | AARCH64 \<Rightarrow>
       if fld_name fld \<in> set unsigned_immediate_fields
       then Inr (random_unsigned_immediate rng (field_bits fld))
       else if fld_name fld \<in> set signed_immediate_fields
       then Inr (random_signed_immediate rng (field_bits fld))
       else if fld_name fld \<in> set register_fields
       then res_bind (c_assert (3 \<le> field_bits fld \<and> field_bits fld \<le> 5) ''bits >= 3 && bits <= 5'')
              (\<lambda>_. Inr (choose_register n rng))
       else Inr (random_bits (field_bits fld) rng))"

definition insert_field :: "InstrField \<Rightarrow> u32 \<Rightarrow> u32 \<Rightarrow> u32" where
  "insert_field fld chosen enc =
     enc OR (push_bit (range_low fld) (chosen AND (2 ^ field_bits fld - 1)) AND inverted_mask fld)"

fun init_fields ::
  "build \<Rightarrow> u32 \<Rightarrow> InstrField list \<Rightarrow> u32 \<Rightarrow> shared_rng \<Rightarrow> (u32 \<times> u32 option list \<times> shared_rng) res" where
  "init_fields b n [] enc rng = Inr (enc, [], rng)"
| "init_fields b n (fld # flds) enc rng =
     (if inverted_mask fld = 0
      then res_bind (init_fields b n flds enc rng) (\<lambda>(enc', vs, rng'). Inr (enc', None # vs, rng'))
      else res_bind (choose_field b n fld rng) (\<lambda>(chosen, rng1).
           res_bind (init_fields b n flds (insert_field fld chosen enc) rng1) (\<lambda>(enc', vs, rng').
             Inr (enc', Some chosen # vs, rng'))))"

definition randomly_init_picked_instr ::
  "build \<Rightarrow> random_difffuzz_generator \<Rightarrow> Instruction \<Rightarrow>
     (InstantiatedInstruction \<times> random_difffuzz_generator) res" where
  "randomly_init_picked_instr b g templ =
     res_bind (init_fields b (num_regs g) (templ_fields templ) (templ_value templ) (gen_rng g))
       (\<lambda>(enc, vs, rng). Inr (\<lparr>inst_mnemonic = mnemonic templ, encoded = enc, field_values = vs\<rparr>,
                               g\<lparr>gen_rng := rng\<rparr>))"

definition randomly_init_instr ::
  "build \<Rightarrow> Instruction list \<Rightarrow> random_difffuzz_generator \<Rightarrow>
     (InstantiatedInstruction \<times> random_difffuzz_generator) res" where
  "randomly_init_instr b instructions g =
     (let (idx, rng) = rng_randint (gen_rng g) 0 (int (length instructions) - 1)
      in randomly_init_picked_instr b (g\<lparr>gen_rng := rng\<rparr>) (instructions ! nat idx))"

section \<open>Initial registers and inputs\<close>

text \<open>A vector register: the first eight bytes are any value, the rest general purpose ones.\<close>

definition draw_vec :: "build \<Rightarrow> shared_rng \<Rightarrow> u8 list \<times> shared_rng" where
  "draw_vec b rng =
     (let (x, rng1) = fuzzing_value_any_val b rng;
          (xs, rng2) = draws (VEC_REG_SIZE div 8 - 1) (fuzzing_value_map_gp_val_or_rand b) rng1
      in (le_words (x # xs), rng2))"

definition fill_regs_with_fuzzing_value_map :: "build \<Rightarrow> shared_rng \<Rightarrow> regs \<Rightarrow> regs \<times> shared_rng" where
  "fill_regs_with_fuzzing_value_map b rng r =
     (let (gps, rng1) = draws (gp_count b) (fuzzing_value_map_gp_val_or_rand b) rng;
          r1 = r\<lparr>gp := gps\<rparr>;
          r2 = (if arch b = AARCH64 then r1\<lparr>pstate := 0\<rparr> else r1);
          r3 = (if arch b = AARCH64 \<and> (flag_FLOATS b \<or> flag_VECTOR b) then r2\<lparr>fpsr := 0\<rparr> else r2);
          (r4, rng2) = (if flag_FLOATS b \<and> \<not> flag_VECTOR b
                        then let (fps, g) = draws 32 fuzzing_value_map_fp_val_or_rand rng1
                             in (r3\<lparr>fp := fps\<rparr>, g)
                        else (r3, rng1))
      in if flag_VECTOR b
         then let (vs, rng3) = draws 32 (draw_vec b) rng2 in (r4\<lparr>vec := vs\<rparr>, rng3)
         else (r4, rng2))"

fun generate_instrs ::
  "build \<Rightarrow> Instruction list \<Rightarrow> nat \<Rightarrow> random_difffuzz_generator \<Rightarrow>
     (u32 list \<times> random_difffuzz_generator) res" where
  "generate_instrs b instructions 0 g = Inr ([], g)"
| "generate_instrs b instructions (Suc n) g =
     res_bind (randomly_init_instr b instructions g) (\<lambda>(instr, g1).
     res_bind (generate_instrs b instructions n g1) (\<lambda>(instrs, g2).
       Inr (encoded instr # instrs, g2)))"

definition generate_input ::
  "build \<Rightarrow> Instruction list \<Rightarrow> random_difffuzz_generator \<Rightarrow> u64 \<Rightarrow> nat \<Rightarrow> regs \<Rightarrow>
     (u32 list \<times> regs \<times> random_difffuzz_generator) res" where
  "generate_input b instructions g seq_num seq_len r =
     (let rng = rng_init (gen_rng g) (seq_num XOR gen_seed g);
          (r', rng') = fill_regs_with_fuzzing_value_map b rng r
      in res_bind (generate_instrs b instructions seq_len (g\<lparr>gen_rng := rng'\<rparr>)) (\<lambda>(instr_seq, g').
           Inr (instr_seq, r', g')))"

section \<open>Fixed bits\<close>

definition free_bits :: "InstrField list \<Rightarrow> u32" where
  "free_bits flds = foldr (\<lambda>fld m. inverted_mask fld OR m) flds 0"

lemma free_bits_simps [simp]:
  "free_bits [] = 0" "free_bits (fld # flds) = inverted_mask fld OR free_bits flds"
  by (simp_all add: free_bits_def)

text \<open>Instantiation only adds bits, and only free ones.\<close>

lemma init_fields_bits:
  "init_fields b n flds enc rng = Inr (enc', vs, rng') \<Longrightarrow>
     (bit enc i \<longrightarrow> bit enc' i) \<and> (bit enc' i \<longrightarrow> bit enc i \<or> bit (free_bits flds) i)"
proof (induction flds arbitrary: enc rng enc' vs rng')
  case (Cons fld flds)
  show ?case
  proof (cases "inverted_mask fld = 0")
    case True
    with Cons show ?thesis by (force simp: res_bind_Inr_iff)
  next
    case False
    with Cons.prems obtain chosen rng1 vs' where
      "init_fields b n flds (insert_field fld chosen enc) rng1 = Inr (enc', vs', rng')"
      by (auto simp: res_bind_Inr_iff)
    from Cons.IH [OF this] show ?thesis
      by (auto simp: insert_field_def bit_or_iff bit_and_iff)
  qed
qed simp

lemma init_fields_matches:
  assumes "init_fields b n flds v rng = Inr (enc, vs, rng')"
    and "v AND NOT msk = 0" and "msk AND free_bits flds = 0"
  shows "enc AND msk = v"
proof (rule bit_word_eqI)
  fix i :: nat
  assume i: "i < LENGTH(32)"
  have "bit (v AND NOT msk) i = False" "bit (msk AND free_bits flds) i = False"
    using assms(2,3) by simp_all
  with init_fields_bits [OF assms(1), of i] i show "bit (enc AND msk) i = bit v i"
    by (auto simp: bit_and_iff bit_not_iff)
qed

text \<open>The assertion on register fields is the only way to fail.\<close>

definition wf_fields :: "build \<Rightarrow> InstrField list \<Rightarrow> bool" where
  "wf_fields b flds \<longleftrightarrow>
     (\<forall>fld \<in> set flds. arch b = AARCH64 \<and> fld_name fld \<in> set register_fields \<longrightarrow>
        3 \<le> field_bits fld \<and> field_bits fld \<le> 5)"

lemma choose_field_Inr:
  "wf_fields b (fld # flds) \<Longrightarrow> \<exists>x rng'. choose_field b n fld rng = Inr (x, rng')"
  by (cases "arch b") (auto simp: choose_field_def wf_fields_def split: prod.split)

lemma init_fields_Inr: "wf_fields b flds \<Longrightarrow> \<exists>r. init_fields b n flds enc rng = Inr r"
proof (induction flds arbitrary: enc rng)
  case (Cons fld flds)
  then have wf: "wf_fields b flds" by (simp add: wf_fields_def)
  obtain x rng1 where x: "choose_field b n fld rng = Inr (x, rng1)"
    using choose_field_Inr [OF Cons.prems] by blast
  obtain r1 r2 where "init_fields b n flds enc rng = Inr r1"
    "init_fields b n flds (insert_field fld x enc) rng1 = Inr r2"
    using Cons.IH [OF wf] by blast
  with x show ?case by (cases "inverted_mask fld = 0"; cases r1; cases r2) auto
qed simp

lemma init_fields_length:
  "init_fields b n flds enc rng = Inr (enc', vs, rng') \<Longrightarrow> length vs = length flds"
  by (induction flds arbitrary: enc rng vs) (auto simp: res_bind_Inr_iff split: if_splits)

definition wf_template :: "build \<Rightarrow> Instruction \<Rightarrow> bool" where
  "wf_template b t \<longleftrightarrow>
     wf_fields b (templ_fields t) \<and> templ_value t AND NOT (templ_mask t) = 0 \<and>
     templ_mask t AND free_bits (templ_fields t) = 0"

lemma picked_instr_matches:
  assumes "wf_template b t"
  shows "\<exists>instr g'. randomly_init_picked_instr b g t = Inr (instr, g') \<and>
           encoded instr AND templ_mask t = templ_value t"
proof -
  obtain enc vs rng where r: "init_fields b (num_regs g) (templ_fields t) (templ_value t) (gen_rng g) =
      Inr (enc, vs, rng)"
    using init_fields_Inr assms by (metis prod_cases3 wf_template_def)
  from init_fields_matches [OF r] r assms show ?thesis
    by (simp add: randomly_init_picked_instr_def wf_template_def)
qed

lemma init_instr_matches:
  assumes "instructions \<noteq> []" and "int (length instructions) < 2 ^ 62"
    and "list_all (wf_template b) instructions"
  shows "\<exists>instr g'. randomly_init_instr b instructions g = Inr (instr, g') \<and>
           (\<exists>t \<in> set instructions. encoded instr AND templ_mask t = templ_value t)"
proof -
  let ?i = "fst (rng_randint (gen_rng g) 0 (int (length instructions) - 1))"
  have "0 < length instructions" using assms(1) by simp
  then have "0 \<le> ?i \<and> ?i \<le> int (length instructions) - 1"
    using assms(2) by (intro rng_randint_range) (simp_all add: int64_range_def)
  then have "nat ?i < length instructions" by linarith
  then have "instructions ! nat ?i \<in> set instructions" by (rule nth_mem)
  with assms(3) picked_instr_matches show ?thesis
    by (simp add: randomly_init_instr_def Let_def case_prod_unfold list_all_iff) blast
qed

lemma generate_instrs_valid:
  assumes "instructions \<noteq> []" and "int (length instructions) < 2 ^ 62"
    and "list_all (wf_template b) instructions"
  shows "\<exists>instrs g'. generate_instrs b instructions n g = Inr (instrs, g') \<and> length instrs = n \<and>
           (\<forall>x \<in> set instrs. \<exists>t \<in> set instructions. x AND templ_mask t = templ_value t)"
proof (induction n arbitrary: g)
  case (Suc n)
  obtain instr g1 where "randomly_init_instr b instructions g = Inr (instr, g1)"
    "\<exists>t \<in> set instructions. encoded instr AND templ_mask t = templ_value t"
    using init_instr_matches [OF assms] by blast
  moreover obtain instrs g2 where "generate_instrs b instructions n g1 = Inr (instrs, g2)"
    "length instrs = n" "\<forall>x \<in> set instrs. \<exists>t \<in> set instructions. x AND templ_mask t = templ_value t"
    using Suc.IH by blast
  ultimately show ?case by simp
qed simp

section \<open>Filled registers\<close>

lemma rng_init_fresh:
  "length (mt r1) = MT19937_N \<Longrightarrow> length (mt r2) = MT19937_N \<Longrightarrow> rng_init r1 seed = rng_init r2 seed"
  by (simp add: rng_init_window)

interpretation vec_draw: rng_action "draw_vec b" "\<lambda>v. length v = VEC_REG_SIZE" for b
proof unfold_locales
  fix rng
  assume "rng_inv rng"
  note inv1 = any_draw.act_inv [OF this, of b]
  note d = gp_draw.draws_good [OF inv1, of "VEC_REG_SIZE div 8 - 1" b]
  show "rng_inv (snd (draw_vec b rng))" "length (fst (draw_vec b rng)) = VEC_REG_SIZE"
    using d by (simp_all add: draw_vec_def Let_def case_prod_unfold)
qed

lemma fill_regs_parts:
  "fst (fill_regs_with_fuzzing_value_map b rng r) =
     r\<lparr>gp := gp (fst (fill_regs_with_fuzzing_value_map b rng r')),
       pstate := (if arch b = AARCH64 then 0 else pstate r),
       fpsr := (if arch b = AARCH64 \<and> (flag_FLOATS b \<or> flag_VECTOR b) then 0 else fpsr r),
       fp := (if flag_FLOATS b \<and> \<not> flag_VECTOR b
              then fp (fst (fill_regs_with_fuzzing_value_map b rng r')) else fp r),
       vec := (if flag_VECTOR b then vec (fst (fill_regs_with_fuzzing_value_map b rng r')) else vec r)\<rparr>"
  "snd (fill_regs_with_fuzzing_value_map b rng r) = snd (fill_regs_with_fuzzing_value_map b rng r')"
  by (simp_all add: fill_regs_with_fuzzing_value_map_def Let_def case_prod_unfold)

lemma fill_regs_banks:
  fixes b rng
  defines "rng1 \<equiv> snd (draws (gp_count b) (fuzzing_value_map_gp_val_or_rand b) rng)"
  shows "gp (fst (fill_regs_with_fuzzing_value_map b rng r)) =
           fst (draws (gp_count b) (fuzzing_value_map_gp_val_or_rand b) rng)"
    and "flag_VECTOR b \<Longrightarrow> vec (fst (fill_regs_with_fuzzing_value_map b rng r)) =
           fst (draws 32 (draw_vec b) rng1)"
    and "flag_FLOATS b \<Longrightarrow> \<not> flag_VECTOR b \<Longrightarrow> fp (fst (fill_regs_with_fuzzing_value_map b rng r)) =
           fst (draws 32 fuzzing_value_map_fp_val_or_rand rng1)"
  by (simp_all add: fill_regs_with_fuzzing_value_map_def Let_def case_prod_unfold rng1_def)

lemma fill_regs_values:
  assumes "rng_inv rng"
  shows "length (gp (fst (fill_regs_with_fuzzing_value_map b rng r))) = gp_count b"
    and "v \<in> set (gp (fst (fill_regs_with_fuzzing_value_map b rng r))) \<Longrightarrow>
           v \<in> set (fuzzing_value_map_gp b) \<or> unat v < 2 ^ 32"
    and "flag_VECTOR b \<Longrightarrow> length (vec (fst (fill_regs_with_fuzzing_value_map b rng r))) = 32 \<and>
           (\<forall>v \<in> set (vec (fst (fill_regs_with_fuzzing_value_map b rng r))). length v = VEC_REG_SIZE)"
    and "flag_FLOATS b \<Longrightarrow> \<not> flag_VECTOR b \<Longrightarrow>
           length (fp (fst (fill_regs_with_fuzzing_value_map b rng r))) = 32 \<and>
           (\<forall>v \<in> set (fp (fst (fill_regs_with_fuzzing_value_map b rng r))).
              v \<in> set fuzzing_value_map_fp \<or> unat v < 2 ^ 32)"
proof -
  note g = gp_draw.draws_good [OF assms, of "gp_count b" b]
  note inv1 = g [THEN conjunct1]
  note f = fp_draw.draws_good [OF inv1, of 32] and v = vec_draw.draws_good [OF inv1, of 32 b]
  show "length (gp (fst (fill_regs_with_fuzzing_value_map b rng r))) = gp_count b"
    "v \<in> set (gp (fst (fill_regs_with_fuzzing_value_map b rng r))) \<Longrightarrow>
       v \<in> set (fuzzing_value_map_gp b) \<or> unat v < 2 ^ 32"
    unfolding fill_regs_banks(1) using g by blast+
  show "length (vec (fst (fill_regs_with_fuzzing_value_map b rng r))) = 32 \<and>
      (\<forall>v \<in> set (vec (fst (fill_regs_with_fuzzing_value_map b rng r))). length v = VEC_REG_SIZE)"
    if "flag_VECTOR b"
    unfolding fill_regs_banks(2) [OF that] using v by blast
  show "length (fp (fst (fill_regs_with_fuzzing_value_map b rng r))) = 32 \<and>
      (\<forall>v \<in> set (fp (fst (fill_regs_with_fuzzing_value_map b rng r))).
         v \<in> set fuzzing_value_map_fp \<or> unat v < 2 ^ 32)"
    if "flag_FLOATS b" "\<not> flag_VECTOR b"
    unfolding fill_regs_banks(3) [OF that] using f by blast
qed

section \<open>Properties\<close>

text \<open>
  C14. Every input is valid: when the templates are well formed, generating an input of \<open>n\<close>
  instructions succeeds, gives \<open>n\<close> instructions each of which is an instance of a template (the bits
  under the template's mask are the template's value, so it decodes as the template), and fills the
  general purpose registers with table entries or 32-bit random numbers.
\<close>

theorem generate_input_valid:
  assumes "instructions \<noteq> []" and "int (length instructions) < 2 ^ 62"
    and "list_all (wf_template b) instructions" and "length (mt (gen_rng g)) = MT19937_N"
  shows "\<exists>instrs s g'. generate_input b instructions g seq_num n r = Inr (instrs, s, g') \<and>
           length instrs = n \<and>
           (\<forall>x \<in> set instrs. \<exists>t \<in> set instructions. x AND templ_mask t = templ_value t) \<and>
           length (gp s) = gp_count b \<and>
           (\<forall>v \<in> set (gp s). v \<in> set (fuzzing_value_map_gp b) \<or> unat v < 2 ^ 32)"
proof -
  let ?rng = "rng_init (gen_rng g) (seq_num XOR gen_seed g)"
  let ?f = "fill_regs_with_fuzzing_value_map b ?rng r"
  have inv: "rng_inv ?rng" using assms(4) by (rule rng_init_inv)
  obtain instrs g' where gi: "generate_instrs b instructions n (g\<lparr>gen_rng := snd ?f\<rparr>) = Inr (instrs, g')"
    "length instrs = n" "\<forall>x \<in> set instrs. \<exists>t \<in> set instructions. x AND templ_mask t = templ_value t"
    using generate_instrs_valid [OF assms(1-3)] by meson
  then have "generate_input b instructions g seq_num n r = Inr (instrs, fst ?f, g')"
    by (simp add: generate_input_def Let_def case_prod_unfold)
  with gi(2,3) fill_regs_values(1,2) [OF inv] show ?thesis by blast
qed

definition sample_templates :: "Instruction list" where
  "sample_templates =
     [\<lparr>mnemonic = ''addi'', templ_mask = 0x707f, templ_value = 0x13,
       templ_fields = [\<lparr>range_high = 31, range_low = 20, fld_name = ''imm12'', fld_mask = 0\<rparr>,
                       \<lparr>range_high = 11, range_low = 7, fld_name = ''rd'', fld_mask = 0\<rparr>]\<rparr>]"

definition sample_generator :: "u32 list \<Rightarrow> random_difffuzz_generator" where
  "sample_generator a = \<lparr>gen_rng = \<lparr>mt = a, rng_index = 0\<rparr>, gen_seed = 7, num_regs = 0\<rparr>"

definition sample_old_regs :: regs where
  "sample_old_regs = (zero_regs riscv_vector_build)\<lparr>fp := replicate 32 0xdead\<rparr>"

lemma sample_templates_wf: "list_all (wf_template riscv_vector_build) sample_templates"
proof -
  have "list_all (\<lambda>t. templ_value t AND NOT (templ_mask t) = 0 \<and>
      templ_mask t AND free_bits (templ_fields t) = 0) sample_templates" by code_simp
  then show ?thesis
    by (simp add: list_all_iff wf_template_def wf_fields_def riscv_vector_build_def)
qed

lemma sample_input:
  "\<exists>instrs s g'. generate_input riscv_vector_build sample_templates (sample_generator a) k n r =
       Inr (instrs, s, g')"
proof -
  have nonempty: "sample_templates \<noteq> []" "int (length sample_templates) < 2 ^ 62"
    by (simp_all add: sample_templates_def)
  obtain instrs g' where "generate_instrs riscv_vector_build sample_templates n
      ((sample_generator a)\<lparr>gen_rng := snd (fill_regs_with_fuzzing_value_map riscv_vector_build
         (rng_init (gen_rng (sample_generator a)) (k XOR gen_seed (sample_generator a))) r)\<rparr>) =
      Inr (instrs, g')"
    using generate_instrs_valid [OF nonempty sample_templates_wf] by meson
  then show ?thesis by (simp add: generate_input_def Let_def case_prod_unfold)
qed

theorem generate_input_valid_witness:
  "\<exists>instrs s g'. generate_input riscv_vector_build sample_templates
       (sample_generator (replicate MT19937_N 3)) 5 4 (zero_regs riscv_vector_build) =
       Inr (instrs, s, g') \<and> length instrs = 4 \<and> length (gp s) = 31"
proof -
  have "sample_templates \<noteq> []" "int (length sample_templates) < 2 ^ 62"
    by (simp_all add: sample_templates_def)
  from generate_input_valid [OF this sample_templates_wf, of "sample_generator (replicate MT19937_N 3)" 5 4
      "zero_regs riscv_vector_build"]
  show ?thesis by (auto simp: sample_generator_def riscv_vector_build_def)
qed

text \<open>
  An input is determined by the seed and the sequence number: two clients whose generators have
  the same seed and the same number of registers generate the same instructions and the same drawn
  registers, whatever their generators and register buffers held before.
\<close>

lemma generate_input_reproducible:
  assumes "length (mt (gen_rng g1)) = MT19937_N" and "length (mt (gen_rng g2)) = MT19937_N"
    and "gen_seed g1 = gen_seed g2" and "num_regs g1 = num_regs g2"
    and "generate_input b instructions g1 seq_num n r1 = Inr (instrs, s1, g1')"
  shows "\<exists>s2. generate_input b instructions g2 seq_num n r2 = Inr (instrs, s2, g1') \<and>
           gp s2 = gp s1 \<and> (arch b = AARCH64 \<longrightarrow> pstate s2 = pstate s1) \<and>
           (arch b = AARCH64 \<and> (flag_FLOATS b \<or> flag_VECTOR b) \<longrightarrow> fpsr s2 = fpsr s1) \<and>
           (flag_FLOATS b \<and> \<not> flag_VECTOR b \<longrightarrow> fp s2 = fp s1) \<and> (flag_VECTOR b \<longrightarrow> vec s2 = vec s1)"
proof -
  let ?f = "\<lambda>r. fill_regs_with_fuzzing_value_map b (rng_init (gen_rng g1) (seq_num XOR gen_seed g1)) r"
  have rng: "rng_init (gen_rng g2) (seq_num XOR gen_seed g2) =
      rng_init (gen_rng g1) (seq_num XOR gen_seed g1)"
    using rng_init_fresh [OF assms(2,1)] assms(3) by simp
  have gen: "g2\<lparr>gen_rng := x\<rparr> = g1\<lparr>gen_rng := x\<rparr>" for x
    using assms(3,4) by (cases g1; cases g2) simp
  have s1: "s1 = fst (?f r1)" and
    g1': "generate_instrs b instructions n (g1\<lparr>gen_rng := snd (?f r1)\<rparr>) = Inr (instrs, g1')"
    using assms(5) by (auto simp: generate_input_def Let_def case_prod_unfold res_bind_Inr_iff)
  have "generate_input b instructions g2 seq_num n r2 = Inr (instrs, fst (?f r2), g1')"
    using g1' fill_regs_parts(2) [of b _ r2 r1]
    by (simp add: generate_input_def Let_def case_prod_unfold rng gen)
  moreover have "gp (fst (?f r2)) = gp s1"
    "flag_FLOATS b \<and> \<not> flag_VECTOR b \<longrightarrow> fp (fst (?f r2)) = fp s1"
    "flag_VECTOR b \<longrightarrow> vec (fst (?f r2)) = vec s1"
    by (simp_all add: s1 fill_regs_banks)
  moreover have "arch b = AARCH64 \<longrightarrow> pstate (fst (?f r2)) = pstate s1"
    "arch b = AARCH64 \<and> (flag_FLOATS b \<or> flag_VECTOR b) \<longrightarrow> fpsr (fst (?f r2)) = fpsr s1"
    by (simp_all add: s1 fill_regs_with_fuzzing_value_map_def Let_def case_prod_unfold)
  ultimately show ?thesis by blast
qed

text \<open>
  C30. On riscv64 with vector registers the floating point registers of an input are not drawn: they
  are what the register buffer of the client held before.
\<close>

theorem vector_build_fp_not_generated:
  assumes "flag_VECTOR b" and "generate_input b instructions g seq_num n r = Inr (instrs, s, g')"
  shows "fp s = fp r"
  using assms
  by (auto simp: generate_input_def fill_regs_with_fuzzing_value_map_def Let_def case_prod_unfold
      res_bind_Inr_iff)

theorem vector_build_fp_not_generated_witness:
  "\<exists>instrs s g'. generate_input riscv_vector_build sample_templates
       (sample_generator (replicate MT19937_N 3)) 5 4 sample_old_regs = Inr (instrs, s, g') \<and>
     fp s = replicate 32 0xdead"
proof -
  obtain instrs s g' where g: "generate_input riscv_vector_build sample_templates
      (sample_generator (replicate MT19937_N 3)) 5 4 sample_old_regs = Inr (instrs, s, g')"
    using sample_input by blast
  have "flag_VECTOR riscv_vector_build" by (simp add: riscv_vector_build_def)
  from vector_build_fp_not_generated [OF this g] g show ?thesis by (auto simp: sample_old_regs_def)
qed

end
