(* ===== verification/Connection.thy ===== *)
theory Connection
  imports Prelude
begin

text \<open>
  lib/connection.c: length-prefixed messages over a stream socket, plain and compressed. The kernel's
  side of the socket is explicit: what \<^verbatim>\<open>recv\<close> will deliver is a list of segments, which a call
  takes from as far as it asks (\<open>sock_recv\<close>), and what \<^verbatim>\<open>send\<close> will answer is a list of accepted
  byte counts. zlib is a parameter: \<open>deflate\<close> and \<open>inflate\<close> take the stream state, the input and the
  space left and return the status, the bytes written and the new state.
\<close>

section \<open>The socket\<close>

datatype segment = Data "u8 list" | Recv_error

record sock =
  incoming :: "segment list"
  accepts :: "nat option list"
  outgoing :: "u8 list"

text \<open>
  \<^verbatim>\<open>recv\<close> of up to \<open>n\<close> bytes: the bytes it returns (none when the peer has closed, which is
  when no segment is left), or \<open>None\<close> for -1.
\<close>

fun recv_from :: "nat \<Rightarrow> segment list \<Rightarrow> u8 list option \<times> segment list" where
  "recv_from n [] = (Some [], [])"
| "recv_from n (Recv_error # segs) = (None, segs)"
| "recv_from n (Data xs # segs) =
     (if xs = [] then recv_from n segs
      else (Some (take n xs), if length xs \<le> n then segs else Data (drop n xs) # segs))"

definition sock_recv :: "nat \<Rightarrow> sock \<Rightarrow> u8 list option \<times> sock" where
  "sock_recv n s = (let (r, segs) = recv_from n (incoming s) in (r, s\<lparr>incoming := segs\<rparr>))"

text \<open>\<^verbatim>\<open>send\<close>: \<open>False\<close> for -1; otherwise the kernel took the first bytes, all when no limit is left.\<close>

definition sock_send :: "u8 list \<Rightarrow> sock \<Rightarrow> bool \<times> sock" where
  "sock_send bs s = (case accepts s of
     [] \<Rightarrow> (True, s\<lparr>outgoing := outgoing s @ bs\<rparr>)
   | None # ks \<Rightarrow> (False, s\<lparr>accepts := ks\<rparr>)
   | Some k # ks \<Rightarrow> (True, s\<lparr>accepts := ks, outgoing := outgoing s @ take k bs\<rparr>))"

section \<open>Messages\<close>

function recv_all :: "sock \<Rightarrow> u8 list \<Rightarrow> nat \<Rightarrow> (u8 list \<times> sock) res" where
  "recv_all s buffer n =
     (if length buffer < n
      then (case sock_recv (n - length buffer) s of
              (None, s') \<Rightarrow> Inl (Exit EXIT_FAILURE ''Error in recv'')
            | (Some xs, s') \<Rightarrow>
                if xs = [] then Inl (Exit EXIT_FAILURE ''Connection closed by the peer'')
                else recv_all s' (buffer @ xs) n)
      else Inr (buffer, s))"
  by pat_completeness auto
termination
  by (relation "measure (\<lambda>(s, buffer, n). n - length buffer)")
    (auto intro!: diff_less_mono2)

declare recv_all.simps [simp del]

definition recv_msg :: "sock \<Rightarrow> nat \<Rightarrow> (u8 list \<times> sock) res" where
  "recv_msg s max_n =
     res_bind (recv_all s [] 4) (\<lambda>(hdr, s1).
       let n = le_load hdr
       in if n > max_n then Inl (Exit EXIT_FAILURE ''recv_msg: n > max'') else recv_all s1 [] n)"

definition recv_msg_n :: "sock \<Rightarrow> nat \<Rightarrow> (u8 list \<times> sock) res" where
  "recv_msg_n s n =
     res_bind (recv_msg s n) (\<lambda>(buffer, s1).
       if length buffer \<noteq> n then Inl (Exit EXIT_FAILURE ''Received not enough data'')
       else Inr (buffer, s1))"

definition send_msg :: "sock \<Rightarrow> u8 list \<Rightarrow> sock res" where
  "send_msg s buffer =
     (case sock_send (le_store 4 (length buffer)) s of
        (False, s1) \<Rightarrow> Inl (Exit EXIT_FAILURE ''send size'')
      | (True, s1) \<Rightarrow>
          (case sock_send buffer s1 of
             (False, s2) \<Rightarrow> Inl (Exit EXIT_FAILURE ''send payload'')
           | (True, s2) \<Rightarrow> Inr s2))"

text \<open>\<^verbatim>\<open>strlen\<close> stops at the terminating zero, so the message is the text without it.\<close>

definition send_string :: "sock \<Rightarrow> string \<Rightarrow> sock res" where
  "send_string s str = send_msg s (map of_char (takeWhile (\<lambda>c. c \<noteq> CHR 0x00) str))"

fun connect_attempts :: "nat \<Rightarrow> bool list \<Rightarrow> bool" where
  "connect_attempts 0 outcomes = False"
| "connect_attempts (Suc n) [] = False"
| "connect_attempts (Suc n) (ok # outcomes) = (if \<not> ok then connect_attempts n outcomes else True)"

definition connect_with_retry :: "bool list \<Rightarrow> unit res" where
  "connect_with_retry outcomes =
     (if connect_attempts 30 outcomes then Inr () else Inl (Exit EXIT_FAILURE ''connect''))"

section \<open>Compressed messages\<close>

datatype z_ret = Z_OK | Z_STREAM_END | Z_ERR

type_synonym 'z coder = "'z \<Rightarrow> u8 list \<Rightarrow> nat \<Rightarrow> z_ret \<times> u8 list \<times> 'z"

record 'z connection_context =
  socket :: sock
  comp_deflate_stream :: 'z
  comp_deflate_buffer_size :: "nat option"
  comp_inflate_stream :: 'z
  comp_inflate_buffer_size :: "nat option"

text \<open>
  A buffer is its size, \<open>None\<close> before \<open>init_comp\<close>; \<open>malloc\<close> and the two zlib initialisers may fail.
\<close>

definition init_comp ::
  "(nat \<Rightarrow> bool) \<Rightarrow> 'z option \<Rightarrow> 'z option \<Rightarrow> 'z connection_context \<Rightarrow> nat \<Rightarrow> nat \<Rightarrow>
     'z connection_context res" where
  "init_comp malloc deflateInit2 inflateInit2 c size_send size_recv =
     (if \<not> malloc size_send then Inl (Exit EXIT_FAILURE ''malloc'')
      else case deflateInit2 of
        None \<Rightarrow> Inl (Exit EXIT_FAILURE ''deflateInit2 failed'')
      | Some zd \<Rightarrow>
          (if \<not> malloc size_recv then Inl (Exit EXIT_FAILURE ''malloc'')
           else case inflateInit2 of
             None \<Rightarrow> Inl (Exit EXIT_FAILURE ''inflateInit2 failed'')
           | Some zi \<Rightarrow> Inr (c\<lparr>comp_deflate_buffer_size := Some size_send, comp_deflate_stream := zd,
                               comp_inflate_buffer_size := Some size_recv, comp_inflate_stream := zi\<rparr>)))"

definition recv_msg_compressed ::
  "'z coder \<Rightarrow> 'z connection_context \<Rightarrow> nat \<Rightarrow> (u8 list \<times> 'z connection_context) res" where
  "recv_msg_compressed inflate c max_out =
     (case comp_inflate_buffer_size c of
        None \<Rightarrow> Inl (Exit EXIT_FAILURE ''connection->comp_inflate_buffer != NULL'')
      | Some cap \<Rightarrow>
          res_bind (recv_msg (socket c) cap) (\<lambda>(compressed, s).
            case inflate (comp_inflate_stream c) compressed max_out of (ret, out, z) \<Rightarrow>
              if ret \<noteq> Z_OK \<and> ret \<noteq> Z_STREAM_END then Inl (Exit EXIT_FAILURE ''inflate failed'')
              else Inr (out, c\<lparr>socket := s, comp_inflate_stream := z\<rparr>)))"

definition send_msg_compressed ::
  "'z coder \<Rightarrow> 'z connection_context \<Rightarrow> u8 list \<Rightarrow> 'z connection_context res" where
  "send_msg_compressed deflate c buffer =
     (case comp_deflate_buffer_size c of
        None \<Rightarrow> Inl (Exit EXIT_FAILURE ''connection->comp_deflate_buffer != NULL'')
      | Some cap \<Rightarrow>
          (case deflate (comp_deflate_stream c) buffer cap of (ret, compressed, z) \<Rightarrow>
             if ret \<noteq> Z_OK then Inl (Exit EXIT_FAILURE ''deflate failed'')
             else res_bind (send_msg (socket c) compressed) (\<lambda>s.
                    Inr (c\<lparr>socket := s, comp_deflate_stream := z\<rparr>))))"

section \<open>Segmentation does not matter\<close>

text \<open>The bytes that arrive before the first error.\<close>

fun stream :: "segment list \<Rightarrow> u8 list" where
  "stream [] = []"
| "stream (Recv_error # segs) = []"
| "stream (Data xs # segs) = xs @ stream segs"

lemma recv_from_stream:
  "0 < n \<Longrightarrow> stream segs \<noteq> [] \<Longrightarrow>
     \<exists>xs segs'. recv_from n segs = (Some xs, segs') \<and> xs \<noteq> [] \<and> length xs \<le> n \<and>
       stream segs = xs @ stream segs'"
proof (induction n segs rule: recv_from.induct)
  case (3 n xs segs)
  then show ?case by (cases "xs = []") (auto split: if_splits)
qed auto

lemma recv_all_stream:
  "n \<le> length buffer + length (stream (incoming s)) \<Longrightarrow> length buffer \<le> n \<Longrightarrow>
     \<exists>segs. recv_all s buffer n =
         Inr (buffer @ take (n - length buffer) (stream (incoming s)), s\<lparr>incoming := segs\<rparr>) \<and>
       stream segs = drop (n - length buffer) (stream (incoming s))"
proof (induction s buffer n rule: recv_all.induct)
  case (1 s buffer n)
  show ?case
  proof (cases "length buffer < n")
    case True
    let ?k = "n - length buffer"
    have "0 < ?k" "stream (incoming s) \<noteq> []" using True "1.prems" by auto
    then obtain xs segs where xs: "recv_from ?k (incoming s) = (Some xs, segs)" "xs \<noteq> []"
      "length xs \<le> ?k" "stream (incoming s) = xs @ stream segs"
      using recv_from_stream by blast
    then have rcv: "sock_recv ?k s = (Some xs, s\<lparr>incoming := segs\<rparr>)" by (simp add: sock_recv_def)
    have "n \<le> length (buffer @ xs) + length (stream (incoming (s\<lparr>incoming := segs\<rparr>)))"
      "length (buffer @ xs) \<le> n" using "1.prems" xs True by auto
    from "1.IH" [OF True rcv [symmetric] refl xs(2) this] obtain segs' where
      "recv_all (s\<lparr>incoming := segs\<rparr>) (buffer @ xs) n =
         Inr ((buffer @ xs) @ take (n - length (buffer @ xs)) (stream segs), s\<lparr>incoming := segs'\<rparr>)"
      "stream segs' = drop (n - length (buffer @ xs)) (stream segs)" by auto
    with True rcv xs show ?thesis
      by (subst recv_all.simps) (auto simp: diff_diff_left add.commute)
  next
    case False
    with "1.prems" show ?thesis
      by (subst recv_all.simps) (auto intro!: exI [of _ "incoming s"])
  qed
qed

lemma recv_all_exact:
  assumes "stream (incoming s) = xs @ rest"
  shows "\<exists>segs. recv_all s [] (length xs) = Inr (xs, s\<lparr>incoming := segs\<rparr>) \<and> stream segs = rest"
  using recv_all_stream [of "length xs" "[]" s] assms by simp

definition frame :: "u8 list \<Rightarrow> u8 list" where
  "frame msg = le_store 4 (length msg) @ msg"

lemma recv_msg_frame:
  assumes "stream (incoming s) = frame msg @ rest" and "length msg \<le> m" and "length msg < 2 ^ 32"
  shows "\<exists>segs. recv_msg s m = Inr (msg, s\<lparr>incoming := segs\<rparr>) \<and> stream segs = rest"
proof -
  have "stream (incoming s) = le_store 4 (length msg) @ msg @ rest"
    using assms(1) by (simp add: frame_def)
  then obtain segs where hdr: "recv_all s [] 4 = Inr (le_store 4 (length msg), s\<lparr>incoming := segs\<rparr>)"
    "stream segs = msg @ rest"
    using recv_all_exact [of s "le_store 4 (length msg)"] by auto
  moreover have "le_load (le_store 4 (length msg)) = length msg"
    using assms(3) by (simp add: le_load_store)
  ultimately show ?thesis
    using recv_all_exact [of "s\<lparr>incoming := segs\<rparr>" msg rest] assms(2)
    by (auto simp: recv_msg_def Let_def)
qed

lemma send_msg_frame:
  "accepts s = [] \<Longrightarrow> send_msg s msg = Inr (s\<lparr>outgoing := outgoing s @ frame msg\<rparr>)"
  by (simp add: send_msg_def sock_send_def frame_def)

text \<open>A conversation: messages sent one after the other, and messages received one after the other.\<close>

fun send_all :: "u8 list list \<Rightarrow> sock \<Rightarrow> sock res" where
  "send_all [] s = Inr s"
| "send_all (m # ms) s = res_bind (send_msg s m) (send_all ms)"

fun recv_many :: "nat \<Rightarrow> nat \<Rightarrow> sock \<Rightarrow> (u8 list list \<times> sock) res" where
  "recv_many 0 m s = Inr ([], s)"
| "recv_many (Suc k) m s =
     res_bind (recv_msg s m) (\<lambda>(x, s1). res_bind (recv_many k m s1) (\<lambda>(xs, s2). Inr (x # xs, s2)))"

lemma send_all_frames:
  "accepts s = [] \<Longrightarrow> send_all ms s = Inr (s\<lparr>outgoing := outgoing s @ concat (map frame ms)\<rparr>)"
  by (induction ms arbitrary: s) (simp_all add: send_msg_frame)

lemma recv_many_frames:
  "stream (incoming s) = concat (map frame ms) @ rest \<Longrightarrow> \<forall>x \<in> set ms. length x \<le> m \<Longrightarrow> m < 2 ^ 32 \<Longrightarrow>
     \<exists>segs. recv_many (length ms) m s = Inr (ms, s\<lparr>incoming := segs\<rparr>) \<and> stream segs = rest"
proof (induction ms arbitrary: s)
  case Nil
  then show ?case by (intro exI [of _ "incoming s"]) simp
next
  case (Cons x ms)
  then obtain segs where "recv_msg s m = Inr (x, s\<lparr>incoming := segs\<rparr>)"
    "stream segs = concat (map frame ms) @ rest"
    using recv_msg_frame [of s x "concat (map frame ms) @ rest" m] by auto
  with Cons.IH [of "s\<lparr>incoming := segs\<rparr>"] Cons.prems show ?case by auto
qed

section \<open>Compressed conversations\<close>

fun send_all_compressed ::
  "'z coder \<Rightarrow> u8 list list \<Rightarrow> 'z connection_context \<Rightarrow> 'z connection_context res" where
  "send_all_compressed deflate [] c = Inr c"
| "send_all_compressed deflate (x # xs) c =
     res_bind (send_msg_compressed deflate c x) (send_all_compressed deflate xs)"

fun recv_many_compressed ::
  "'z coder \<Rightarrow> nat \<Rightarrow> nat \<Rightarrow> 'z connection_context \<Rightarrow> (u8 list list \<times> 'z connection_context) res" where
  "recv_many_compressed inflate 0 m c = Inr ([], c)"
| "recv_many_compressed inflate (Suc k) m c =
     res_bind (recv_msg_compressed inflate c m) (\<lambda>(x, c1).
     res_bind (recv_many_compressed inflate k m c1) (\<lambda>(xs, c2). Inr (x # xs, c2)))"

text \<open>
  What zlib documents of a flushed stream: when \<^verbatim>\<open>deflate\<close> with \<^verbatim>\<open>Z_SYNC_FLUSH\<close> has space left in
  its buffer, everything is in the output, and \<^verbatim>\<open>inflate\<close> in the matching state gives the input back
  when its buffer can hold it; the states match again afterwards.
\<close>

definition flush_law :: "'z coder \<Rightarrow> 'z coder \<Rightarrow> ('z \<Rightarrow> 'z \<Rightarrow> bool) \<Rightarrow> bool" where
  "flush_law deflate inflate match \<longleftrightarrow>
     (\<forall>zd zi x cap m c zd'. match zd zi \<longrightarrow> deflate zd x cap = (Z_OK, c, zd') \<longrightarrow> length c < cap \<longrightarrow>
        length x \<le> m \<longrightarrow>
        (\<exists>ret zi'. inflate zi c m = (ret, x, zi') \<and> ret \<noteq> Z_ERR \<and> match zd' zi'))"

definition fits :: "'z coder \<Rightarrow> nat \<Rightarrow> u8 list \<Rightarrow> bool" where
  "fits deflate cap x \<longleftrightarrow> (\<forall>z. \<exists>c z'. deflate z x cap = (Z_OK, c, z') \<and> length c < cap)"

fun deflate_all :: "'z coder \<Rightarrow> nat \<Rightarrow> 'z \<Rightarrow> u8 list list \<Rightarrow> u8 list list" where
  "deflate_all deflate cap z [] = []"
| "deflate_all deflate cap z (x # xs) =
     (case deflate z x cap of (ret, y, z') \<Rightarrow> y # deflate_all deflate cap z' xs)"

lemma fitsD: "fits deflate cap x \<Longrightarrow> \<exists>y z'. deflate z x cap = (Z_OK, y, z') \<and> length y < cap"
  unfolding fits_def by blast

lemma send_all_compressed_frames:
  assumes "\<forall>x \<in> set xs. fits deflate cap x" and "comp_deflate_buffer_size c = Some cap"
    and "accepts (socket c) = []"
  shows "\<exists>c'. send_all_compressed deflate xs c = Inr c' \<and>
           outgoing (socket c') = outgoing (socket c) @
             concat (map frame (deflate_all deflate cap (comp_deflate_stream c) xs))"
  using assms
proof (induction xs arbitrary: c)
  case (Cons x xs)
  obtain y z where y: "deflate (comp_deflate_stream c) x cap = (Z_OK, y, z)"
    using fitsD Cons.prems(1) by (metis list.set_intros(1))
  let ?c1 = "c\<lparr>socket := (socket c)\<lparr>outgoing := outgoing (socket c) @ frame y\<rparr>, comp_deflate_stream := z\<rparr>"
  have "send_msg_compressed deflate c x = Inr ?c1"
    using y Cons.prems(2,3) by (simp add: send_msg_compressed_def send_msg_frame)
  with Cons.IH [of ?c1] Cons.prems y show ?case by simp
qed simp

lemma recv_many_compressed_frames:
  assumes "flush_law deflate inflate match" and "\<forall>x \<in> set xs. fits deflate cap x \<and> length x \<le> m"
    and "cap < 2 ^ 32" and "comp_inflate_buffer_size d = Some cap'" and "cap \<le> cap'"
    and "match z (comp_inflate_stream d)"
    and "stream (incoming (socket d)) = concat (map frame (deflate_all deflate cap z xs)) @ rest"
  shows "\<exists>d'. recv_many_compressed inflate (length xs) m d = Inr (xs, d') \<and>
           stream (incoming (socket d')) = rest"
  using assms
proof (induction xs arbitrary: d z)
  case (Cons x xs)
  obtain y z' where y: "deflate z x cap = (Z_OK, y, z')" "length y < cap"
    using fitsD Cons.prems(2) by (metis list.set_intros(1))
  have "length x \<le> m" using Cons.prems(2) by simp
  then obtain ret zi where zi: "inflate (comp_inflate_stream d) y m = (ret, x, zi)" "ret \<noteq> Z_ERR"
    "match z' zi"
    using Cons.prems(1,6) y unfolding flush_law_def by meson
  have "stream (incoming (socket d)) =
      frame y @ concat (map frame (deflate_all deflate cap z' xs)) @ rest"
    using Cons.prems(7) y by simp
  then obtain segs where "recv_msg (socket d) cap' = Inr (y, (socket d)\<lparr>incoming := segs\<rparr>)"
    and segs: "stream segs = concat (map frame (deflate_all deflate cap z' xs)) @ rest"
    using recv_msg_frame [of "socket d" y _ cap'] Cons.prems(3,5) y(2) by auto
  then have "recv_msg_compressed inflate d m =
      Inr (x, d\<lparr>socket := (socket d)\<lparr>incoming := segs\<rparr>, comp_inflate_stream := zi\<rparr>)"
    (is "_ = Inr (x, ?d1)")
    using Cons.prems(4) zi by (cases ret) (simp_all add: recv_msg_compressed_def)
  moreover have "\<exists>d'. recv_many_compressed inflate (length xs) m ?d1 = Inr (xs, d') \<and>
      stream (incoming (socket d')) = rest"
    using Cons.prems zi(3) segs by (intro Cons.IH [of ?d1 z']) simp_all
  ultimately show ?case by auto
qed auto

section \<open>Properties\<close>

text \<open>
  C15. Messages arrive as they were sent: a sender whose socket takes every byte and a receiver that
  gets those bytes cut into any segments exchange the same messages in the same order, and nothing
  is left over or lost between them.
\<close>

theorem messages_round_trip:
  assumes "accepts s = []" and "outgoing s = []" and "\<forall>x \<in> set ms. length x \<le> m" and "m < 2 ^ 32"
    and "\<And>s'. send_all ms s = Inr s' \<Longrightarrow> stream (incoming r) = outgoing s'"
  shows "\<exists>segs. recv_many (length ms) m r = Inr (ms, r\<lparr>incoming := segs\<rparr>) \<and> stream segs = []"
proof -
  have "stream (incoming r) = concat (map frame ms) @ []"
    using assms(5) [OF send_all_frames [OF assms(1)]] assms(2) by simp
  from recv_many_frames [OF this assms(3,4)] show ?thesis .
qed

theorem messages_round_trip_witness:
  "\<exists>segs. recv_many 2 100
       \<lparr>incoming = [Data [2, 0], Data [0, 0, 1], Data [], Data [2, 0, 0, 0, 0]], accepts = [], outgoing = []\<rparr> =
     Inr ([[1, 2], []], \<lparr>incoming = segs, accepts = [], outgoing = []\<rparr>) \<and> stream segs = []"
proof -
  let ?r = "\<lparr>incoming = [Data [2, 0], Data [0, 0, 1], Data [], Data [2, 0, 0, 0, 0]],
             accepts = [], outgoing = []\<rparr>"
  let ?s = "\<lparr>incoming = [], accepts = [], outgoing = []\<rparr>"
  have frames: "frame [1, 2] = [2, 0, 0, 0, 1, 2]" "frame [] = [0, 0, 0, 0]" by code_simp+
  have "stream (incoming ?r) = outgoing s'" if "send_all [[1, 2], []] ?s = Inr s'" for s'
    using that by (simp add: send_all_frames frames send_msg_frame) auto
  then have "\<exists>segs. recv_many (length [[1, 2], [] :: u8 list]) 100 ?r =
      Inr ([[1, 2], []], ?r\<lparr>incoming := segs\<rparr>) \<and> stream segs = []"
    by (intro messages_round_trip [of ?s]) simp_all
  moreover have "length [[1, 2], [] :: u8 list] = 2" by simp
  ultimately show ?thesis by (simp only: sock.simps)
qed

text \<open>
  C29. Compressed messages arrive as they were sent: with a zlib that keeps its flush law, a deflate
  buffer that is never filled up and an inflate buffer at least as large, the receiver gets every
  batch the sender sent, in order, whatever the segments and however the stream states evolve.
\<close>

theorem compressed_round_trip:
  assumes "flush_law deflate inflate match"
    and "\<forall>x \<in> set xs. fits deflate cap x \<and> length x \<le> m" and "cap < 2 ^ 32"
    and "comp_deflate_buffer_size c = Some cap" and "accepts (socket c) = []" and "outgoing (socket c) = []"
    and "comp_inflate_buffer_size d = Some cap'" and "cap \<le> cap'"
    and "match (comp_deflate_stream c) (comp_inflate_stream d)"
    and "\<And>c'. send_all_compressed deflate xs c = Inr c' \<Longrightarrow>
           stream (incoming (socket d)) = outgoing (socket c')"
  shows "\<exists>d'. recv_many_compressed inflate (length xs) m d = Inr (xs, d') \<and>
           stream (incoming (socket d')) = []"
proof -
  obtain c' where "send_all_compressed deflate xs c = Inr c'"
    "outgoing (socket c') = concat (map frame (deflate_all deflate cap (comp_deflate_stream c) xs))"
    using send_all_compressed_frames [of xs deflate cap c] assms(2,4,5,6) by auto
  then have "stream (incoming (socket d)) =
      concat (map frame (deflate_all deflate cap (comp_deflate_stream c) xs)) @ []"
    using assms(10) by simp
  from recv_many_compressed_frames [OF assms(1,2,3,7,8,9) this] show ?thesis .
qed

text \<open>A coder that stores: a byte counter as its state, the input behind the counter's low byte.\<close>

definition store_deflate :: "nat coder" where
  "store_deflate z x cap =
     (if length x + 1 < cap then (Z_OK, of_nat z # x, z + length x) else (Z_ERR, [], z))"

definition store_inflate :: "nat coder" where
  "store_inflate z y m =
     (case y of [] \<Rightarrow> (Z_ERR, [], z)
      | k # x \<Rightarrow> if k = of_nat z then (Z_OK, take m x, z + length x) else (Z_ERR, [], z))"

theorem compressed_round_trip_witness:
  "\<exists>d'. recv_many_compressed store_inflate 2 100
      \<lparr>socket = \<lparr>incoming = [Data [3, 0, 0], Data [0, 0, 7, 8, 1, 0, 0, 0, 2]], accepts = [], outgoing = []\<rparr>,
       comp_deflate_stream = 0, comp_deflate_buffer_size = None,
       comp_inflate_stream = 0, comp_inflate_buffer_size = Some 60\<rparr> = Inr ([[7, 8], []], d') \<and>
     stream (incoming (socket d')) = []"
proof -
  let ?c = "\<lparr>socket = \<lparr>incoming = [], accepts = [], outgoing = []\<rparr>,
     comp_deflate_stream = 0, comp_deflate_buffer_size = Some 50,
     comp_inflate_stream = 0, comp_inflate_buffer_size = None\<rparr>"
  let ?d = "\<lparr>socket = \<lparr>incoming = [Data [3, 0, 0], Data [0, 0, 7, 8, 1, 0, 0, 0, 2]],
       accepts = [], outgoing = []\<rparr>,
     comp_deflate_stream = 0, comp_deflate_buffer_size = None,
     comp_inflate_stream = 0, comp_inflate_buffer_size = Some 60\<rparr>"
  have frames: "frame [0, 7, 8] = [3, 0, 0, 0, 0, 7, 8]" "frame [2] = [1, 0, 0, 0, 2]" by code_simp+
  have "flush_law store_deflate store_inflate (=)"
    by (auto simp: flush_law_def store_deflate_def store_inflate_def split: if_splits)
  moreover have "\<forall>x \<in> set [[7, 8], []]. fits store_deflate 50 x \<and> length x \<le> 100"
    by (simp add: fits_def store_deflate_def)
  moreover have "stream (incoming (socket ?d)) = outgoing (socket c')"
    if "send_all_compressed store_deflate [[7, 8], []] ?c = Inr c'" for c'
    using that by (simp add: send_msg_compressed_def store_deflate_def send_msg_frame frames) auto
  ultimately have "\<exists>d'. recv_many_compressed store_inflate (length [[7, 8], [] :: u8 list]) 100 ?d =
      Inr ([[7, 8], []], d') \<and> stream (incoming (socket d')) = []"
    by (intro compressed_round_trip [of store_deflate store_inflate "(=)" "[[7, 8], []]" 50 100 ?c ?d 60])
      simp_all
  moreover have "length [[7, 8], [] :: u8 list] = 2" by simp
  ultimately show ?thesis by (simp only:)
qed

text \<open>
  C31. A short write is not noticed: when the kernel takes only the first \<open>k\<close> bytes of a payload,
  \<open>send_msg\<close> returns as if the message had been sent, and the receiver is left waiting for the rest.
\<close>

theorem send_msg_short_write:
  assumes "accepts s = [Some 4, Some k]" and "k < length msg"
  shows "\<exists>s'. send_msg s msg = Inr s' \<and> outgoing s' = outgoing s @ take (4 + k) (frame msg) \<and>
           outgoing s' \<noteq> outgoing s @ frame msg"
  using assms by (auto simp: send_msg_def sock_send_def frame_def)

lemma sample_frame: "frame [1, 2] = [2, 0, 0, 0, 1, 2]"
  by code_simp

theorem send_msg_short_write_witness:
  "\<exists>s'. send_msg \<lparr>incoming = [], accepts = [Some 4, Some 1], outgoing = []\<rparr> [1, 2] = Inr s' \<and>
     outgoing s' = [2, 0, 0, 0, 1]"
  using send_msg_short_write [of "\<lparr>incoming = [], accepts = [Some 4, Some 1], outgoing = []\<rparr>" 1 "[1, 2]"]
  by (auto simp: sample_frame)

end
