(* ===== verification/Util.thy ===== *)
theory Util
  imports Prelude
begin

text \<open>
  lib/util.c: the chunked comparison \<open>memcmp_common_prefix\<close> and the hexadecimal printers. A
  printer returns the text it writes to its stream. \<open>hex_nibble\<close> and \<open>parse_hex_le_bytes\<close> of
  lib/runner.c are here too, since they read back what \<open>fprint_vec\<close> prints; \<open>fmt_x\<close> is
  the conversion \<^verbatim>\<open>%x\<close> (and \<^verbatim>\<open>%lx\<close>) of printf, \<open>fmt_0x\<close> its zero-padded form.
\<close>

section \<open>memcmp_common_prefix\<close>

text \<open>
  The first loop compares 512 bytes at a time with \<^verbatim>\<open>memcmp\<close>, the second one byte at a
  time. The index never exceeds \<open>n\<close>, so \<^verbatim>\<open>n - i\<close> does not wrap.
\<close>

function memcmp_chunks :: "u8 list \<Rightarrow> u8 list \<Rightarrow> nat \<Rightarrow> nat \<Rightarrow> nat" where
  "memcmp_chunks a b n i =
     (if n - i \<ge> 512
      then (if take 512 (drop i a) = take 512 (drop i b) then memcmp_chunks a b n (i + 512) else i)
      else i)"
  by pat_completeness auto
termination
  by (relation "measure (\<lambda>(a, b, n, i). n - i)") auto

function memcmp_bytes :: "u8 list \<Rightarrow> u8 list \<Rightarrow> nat \<Rightarrow> nat \<Rightarrow> nat" where
  "memcmp_bytes a b n i = (if i < n \<and> a ! i = b ! i then memcmp_bytes a b n (i + 1) else i)"
  by pat_completeness auto
termination
  by (relation "measure (\<lambda>(a, b, n, i). n - i)") auto

declare memcmp_chunks.simps [simp del] memcmp_bytes.simps [simp del]

definition memcmp_common_prefix :: "u8 list \<Rightarrow> u8 list \<Rightarrow> nat \<Rightarrow> nat" where
  "memcmp_common_prefix a b n = memcmp_bytes a b n (memcmp_chunks a b n 0)"

text \<open>\<open>agree a b n i\<close>: \<open>i\<close> is in range and the first \<open>i\<close> bytes are equal.\<close>

definition agree :: "u8 list \<Rightarrow> u8 list \<Rightarrow> nat \<Rightarrow> nat \<Rightarrow> bool" where
  "agree a b n i \<longleftrightarrow> i \<le> n \<and> (\<forall>j < i. a ! j = b ! j)"

lemma memcmp_chunks_agree:
  "length a \<ge> n \<Longrightarrow> length b \<ge> n \<Longrightarrow> agree a b n i \<Longrightarrow> agree a b n (memcmp_chunks a b n i)"
proof (induction a b n i rule: memcmp_chunks.induct)
  case (1 a b n i)
  show ?case
  proof (cases "n - i \<ge> 512 \<and> take 512 (drop i a) = take 512 (drop i b)")
    case True
    have "a ! j = b ! j" if "j < i + 512" for j
    proof (cases "j < i")
      case False
      from True have "take 512 (drop i a) ! (j - i) = take 512 (drop i b) ! (j - i)"
        by (simp only:)
      moreover have "take 512 (drop i a) ! (j - i) = a ! j" "take 512 (drop i b) ! (j - i) = b ! j"
        using False that "1.prems" by (simp_all add: agree_def)
      ultimately show ?thesis by (simp only:)
    qed (use 1 in \<open>simp add: agree_def\<close>)
    with True "1.prems" have "agree a b n (i + 512)" by (auto simp: agree_def)
    with True "1.IH" "1.prems"(1,2) show ?thesis by (subst memcmp_chunks.simps) simp
  next
    case False
    with "1.prems" show ?thesis by (subst memcmp_chunks.simps) auto
  qed
qed

lemma memcmp_bytes_stop:
  "agree a b n i \<Longrightarrow> agree a b n (memcmp_bytes a b n i) \<and>
     (memcmp_bytes a b n i < n \<longrightarrow> a ! memcmp_bytes a b n i \<noteq> b ! memcmp_bytes a b n i)"
proof (induction a b n i rule: memcmp_bytes.induct)
  case (1 a b n i)
  show ?case
  proof (cases "i < n \<and> a ! i = b ! i")
    case True
    with "1.prems" have "agree a b n (i + 1)" by (auto simp: agree_def less_Suc_eq)
    with True "1.IH" have
      "agree a b n (memcmp_bytes a b n (i + 1)) \<and>
       (memcmp_bytes a b n (i + 1) < n \<longrightarrow>
          a ! memcmp_bytes a b n (i + 1) \<noteq> b ! memcmp_bytes a b n (i + 1))"
      by blast
    moreover have "memcmp_bytes a b n i = memcmp_bytes a b n (i + 1)"
      using True by (subst memcmp_bytes.simps) simp
    ultimately show ?thesis by metis
  next
    case False
    then have "memcmp_bytes a b n i = i" by (subst memcmp_bytes.simps) auto
    with False "1.prems" show ?thesis by (auto simp: agree_def)
  qed
qed

lemma memcmp_common_prefix_stop:
  assumes "length a \<ge> n" and "length b \<ge> n"
  shows "agree a b n (memcmp_common_prefix a b n)"
    and "memcmp_common_prefix a b n < n \<Longrightarrow>
           a ! memcmp_common_prefix a b n \<noteq> b ! memcmp_common_prefix a b n"
proof -
  have "agree a b n (memcmp_chunks a b n 0)"
    by (rule memcmp_chunks_agree [OF assms]) (simp add: agree_def)
  from memcmp_bytes_stop [OF this]
  show "agree a b n (memcmp_common_prefix a b n)"
    and "memcmp_common_prefix a b n < n \<Longrightarrow>
           a ! memcmp_common_prefix a b n \<noteq> b ! memcmp_common_prefix a b n"
    by (simp_all add: memcmp_common_prefix_def)
qed

lemma memcmp_common_prefix_unique:
  assumes "length a \<ge> n" and "length b \<ge> n"
    and "agree a b n r" and "r < n \<Longrightarrow> a ! r \<noteq> b ! r"
  shows "memcmp_common_prefix a b n = r"
proof (rule ccontr)
  assume ne: "memcmp_common_prefix a b n \<noteq> r"
  note stop = memcmp_common_prefix_stop [OF assms(1,2)]
  show False
  proof (cases "memcmp_common_prefix a b n < r")
    case True
    with assms(3) stop(2) show False by (auto simp: agree_def)
  next
    case False
    with ne stop(1) assms(4) show False by (auto simp: agree_def)
  qed
qed

text \<open>
  C26. The chunked scan computes the length of the longest common prefix: it equals the plain
  byte-by-byte definition (the length of the longest run of equal pairs) for buffers of any
  length, whatever the 512-byte chunks do.
\<close>

theorem memcmp_common_prefix_correct:
  assumes "length a = n" and "length b = n"
  shows "memcmp_common_prefix a b n = length (takeWhile (\<lambda>(x, y). x = y) (zip a b))"
proof (rule memcmp_common_prefix_unique)
  let ?r = "length (takeWhile (\<lambda>(x, y). x = y) (zip a b))"
  have r: "?r \<le> n"
    using length_takeWhile_le [of "\<lambda>(x, y). x = y" "zip a b"] assms by simp
  show "agree a b n ?r"
    unfolding agree_def
  proof (intro conjI allI impI)
    fix j assume j: "j < ?r"
    then have "takeWhile (\<lambda>(x, y). x = y) (zip a b) ! j = zip a b ! j"
      by (rule takeWhile_nth)
    moreover have "(\<lambda>(x, y). x = y) (takeWhile (\<lambda>(x, y). x = y) (zip a b) ! j)"
      using j by (meson nth_mem set_takeWhileD)
    ultimately show "a ! j = b ! j" using j r assms by simp
  qed (rule r)
  show "a ! ?r \<noteq> b ! ?r" if "?r < n"
    using nth_length_takeWhile [of "\<lambda>(x, y). x = y" "zip a b"] that assms by simp
qed (use assms in simp_all)

theorem memcmp_common_prefix_correct_witness:
  "memcmp_common_prefix [1, 2, 3, 4] [1, 2, 9, 4] 4 =
     length (takeWhile (\<lambda>(x, y). x = y) (zip [1, 2, 3, 4] [1, 2, 9, 4 :: u8]))"
  by (rule memcmp_common_prefix_correct) simp_all

section \<open>Hexadecimal text\<close>

definition hex_digits :: string where
  "hex_digits = ''0123456789abcdef''"

definition hex_digit :: "nat \<Rightarrow> char" where
  "hex_digit d = hex_digits ! d"

text \<open>\<^verbatim>\<open>%02x\<close> of a byte.\<close>

definition fmt_02x :: "u8 \<Rightarrow> string" where
  "fmt_02x x = [hex_digit (unat x div 16), hex_digit (unat x mod 16)]"

definition fprint_hex_plain :: "u8 list \<Rightarrow> string" where
  "fprint_hex_plain bs = concat (map fmt_02x bs)"

definition fprint_hex :: "u8 list \<Rightarrow> string" where
  "fprint_hex bs = ''0x'' @ fprint_hex_plain bs"

text \<open>Highest byte first.\<close>

definition fprint_vec :: "u8 list \<Rightarrow> string" where
  "fprint_vec bs = ''0x'' @ concat (map fmt_02x (rev bs))"

text \<open>\<^verbatim>\<open>%x\<close> and \<^verbatim>\<open>%lx\<close>, and their zero-padded forms of a given width.\<close>

fun fmt_x :: "nat \<Rightarrow> string" where
  "fmt_x n = (if n < 16 then [hex_digit n] else fmt_x (n div 16) @ [hex_digit (n mod 16)])"

declare fmt_x.simps [simp del]

definition fmt_0x :: "nat \<Rightarrow> nat \<Rightarrow> string" where
  "fmt_0x width n = replicate (width - length (fmt_x n)) CHR ''0'' @ fmt_x n"

text \<open>\<open>hex_nibble\<close> of runner.c, \<open>-1\<close> as \<open>None\<close>.\<close>

definition hex_nibble :: "char \<Rightarrow> nat option" where
  "hex_nibble c =
     (let n = (of_char c :: nat)
      in if 48 \<le> n \<and> n \<le> 57 then Some (n - 48)
         else if 97 \<le> n \<and> n \<le> 102 then Some (10 + (n - 97))
         else if 65 \<le> n \<and> n \<le> 70 then Some (10 + (n - 65))
         else None)"

lemma hex_nibble_digit [simp]:
  assumes "d < 16"
  shows "hex_nibble (hex_digit d) = Some d"
proof -
  have "\<forall>i \<in> set [0..<16]. hex_nibble (hex_digit i) = Some i" by code_simp
  with assms show ?thesis by simp
qed

text \<open>
  \<open>parse_hex_le_bytes\<close>: two characters a time from the end of the text; a character that is no
  digit counts as zero; an odd character at the front is a low nibble alone.
\<close>

fun parse_hex_rev :: "string \<Rightarrow> nat \<Rightarrow> u8 list" where
  "parse_hex_rev cs 0 = []"
| "parse_hex_rev [] (Suc k) = replicate (Suc k) 0"
| "parse_hex_rev [c] (Suc k) =
     of_nat (case hex_nibble c of Some lo \<Rightarrow> lo | None \<Rightarrow> 0) # replicate k 0"
| "parse_hex_rev (c # h # cs) (Suc k) =
     of_nat (16 * (case hex_nibble h of Some hi \<Rightarrow> hi | None \<Rightarrow> 0)
             + (case hex_nibble c of Some lo \<Rightarrow> lo | None \<Rightarrow> 0)) # parse_hex_rev cs k"

definition parse_hex_le_bytes :: "string \<Rightarrow> nat \<Rightarrow> u8 list" where
  "parse_hex_le_bytes hex out_len = parse_hex_rev (rev hex) out_len"

lemma length_parse_hex_rev [simp]: "length (parse_hex_rev cs k) = k"
  by (induction cs k rule: parse_hex_rev.induct) simp_all

lemma unat_div_mod_16 [simp]: "unat (x :: u8) div 16 < 16" "unat x mod 16 < 16"
  using unat_bounds(1) [of x] by simp_all

lemma parse_hex_rev_fmt:
  "parse_hex_rev (concat (map (\<lambda>x. rev (fmt_02x x)) bs)) (length bs) = bs"
proof (induction bs)
  case Nil
  then show ?case by simp
next
  case (Cons x bs)
  have "16 * (unat x div 16) + unat x mod 16 = unat x" by simp
  with Cons show ?case by (simp add: fmt_02x_def)
qed

text \<open>
  A vector register survives printing and parsing: the text \<open>fprint_vec\<close> writes (highest
  byte first, as in a reproducer file), without its prefix, is read back by
  \<open>parse_hex_le_bytes\<close> as the same bytes.
\<close>

lemma vec_print_parse:
  "parse_hex_le_bytes (drop 2 (fprint_vec bs)) (length bs) = bs"
proof -
  have "rev (concat (map fmt_02x (rev bs))) = concat (map (\<lambda>x. rev (fmt_02x x)) bs)"
    by (simp add: rev_concat rev_map o_def)
  then show ?thesis
    by (simp add: parse_hex_le_bytes_def fprint_vec_def parse_hex_rev_fmt)
qed

end
