(* ===== verification/Results.thy ===== *)
theory Results
  imports Regs Util
begin

text \<open>
  lib/runner.h and the comparison helpers of lib/runner.c: memory mappings, recorded memory
  changes and results of a run, \<open>mem_change_equal\<close>, \<open>result_equal\<close> and \<open>find_mapping\<close>. The
  counter \<^verbatim>\<open>n_mem_changes\<close> and the array \<^verbatim>\<open>mem_changes\<close> are one list. A mapping's pointers
  \<^verbatim>\<open>val\<close> and \<^verbatim>\<open>rw_mapping\<close> are the bytes behind them; \<^verbatim>\<open>rw_mapping\<close> is the second view of the
  shared memory behind the page, so its bytes are what the executed code left there. The
  locale \<open>equality_test\<close> is what the fuzzer relies on when it compares results.
\<close>

section \<open>Data\<close>

abbreviation (input) SIGILL :: i32 where "SIGILL \<equiv> 4"
abbreviation (input) SIGTRAP :: i32 where "SIGTRAP \<equiv> 5"
abbreviation (input) SIGBUS :: i32 where "SIGBUS \<equiv> 7"
abbreviation (input) SIGFPE :: i32 where "SIGFPE \<equiv> 8"
abbreviation (input) SIGSEGV :: i32 where "SIGSEGV \<equiv> 11"
abbreviation (input) SIGALRM :: i32 where "SIGALRM \<equiv> 14"
abbreviation (input) SIGSYS :: i32 where "SIGSYS \<equiv> 31"

abbreviation (input) CHECK_MEM_CUT_AT :: nat where "CHECK_MEM_CUT_AT \<equiv> 16"

definition CHECK_MEM_MAX_TRIES :: "build \<Rightarrow> nat" where
  "CHECK_MEM_MAX_TRIES b = (case arch b of RISCV64 \<Rightarrow> 50 | AARCH64 \<Rightarrow> 5)"

definition CHECK_MEM_MAX_NUMBER_MEM_CHANGES :: "build \<Rightarrow> nat" where
  "CHECK_MEM_MAX_NUMBER_MEM_CHANGES b = (case arch b of RISCV64 \<Rightarrow> 100 | AARCH64 \<Rightarrow> 32)"

record mapping =
  map_start :: u64
  map_n :: nat
  map_prot :: i32
  map_val :: "u8 list"
  map_rw :: "u8 list"

record mem_change =
  mc_start :: u64
  mc_n :: u32
  mc_val :: "u8 list"
  mc_checksum :: u32

record result =
  signum :: i32
  si_addrr :: u64
  si_pc :: u64
  instr_idx :: u32
  si_code :: i32
  regs_result :: regs
  meta_cycle :: u64
  meta_instret :: u64
  mem_changes :: "mem_change list"

definition wf_mapping :: "mapping \<Rightarrow> bool" where
  "wf_mapping m \<longleftrightarrow> 0 < map_n m \<and> length (map_val m) = map_n m \<and> length (map_rw m) = map_n m"

definition wf_mem_change :: "mem_change \<Rightarrow> bool" where
  "wf_mem_change c \<longleftrightarrow> length (mc_val c) = CHECK_MEM_CUT_AT"

definition n_cap :: "u32 \<Rightarrow> nat" where
  "n_cap n = (if unat n < CHECK_MEM_CUT_AT then unat n else CHECK_MEM_CUT_AT)"

section \<open>Comparison\<close>

definition mem_change_equal :: "mem_change \<Rightarrow> mem_change \<Rightarrow> bool" where
  "mem_change_equal m1 m2 =
     (if mc_start m1 \<noteq> mc_start m2 then False
      else if mc_n m1 \<noteq> mc_n m2 then False
      else if mc_checksum m1 \<noteq> mc_checksum m2 then False
      else take (n_cap (mc_n m1)) (mc_val m1) = take (n_cap (mc_n m1)) (mc_val m2))"

definition mem_changes_equal :: "mem_change list \<Rightarrow> mem_change list \<Rightarrow> bool" where
  "mem_changes_equal c1 c2 = list_all (\<lambda>i. mem_change_equal (c1 ! i) (c2 ! i)) [0..<length c1]"

definition result_equal :: "build \<Rightarrow> result \<Rightarrow> result \<Rightarrow> bool" where
  "result_equal b r1 r2 =
     (if signum r1 \<noteq> signum r2 then False
      else if si_addrr r1 \<noteq> si_addrr r2 then False
      else if si_pc r1 \<noteq> si_pc r2 then False
      else if si_code r1 \<noteq> si_code r2 then False
      else if \<not> regs_memeq b (regs_result r1) (regs_result r2) then False
      else if flag_CHECK_MEM b
           then (if length (mem_changes r1) \<noteq> length (mem_changes r2) then False
                 else mem_changes_equal (mem_changes r1) (mem_changes r2))
           else True)"

text \<open>The first mapping that holds the address; the difference wraps below its start.\<close>

fun find_mapping :: "mapping list \<Rightarrow> u64 \<Rightarrow> nat option" where
  "find_mapping [] addr = None"
| "find_mapping (m # ms) addr =
     (if unat (addr - map_start m) < map_n m then Some 0
      else map_option Suc (find_mapping ms addr))"

text \<open>The range of a mapping as natural numbers.\<close>

definition in_mapping :: "mapping \<Rightarrow> u64 \<Rightarrow> bool" where
  "in_mapping m addr \<longleftrightarrow> unat (map_start m) \<le> unat addr \<and> unat addr < unat (map_start m) + map_n m"

lemma in_mapping_iff:
  assumes "unat (map_start m) + map_n m \<le> 2 ^ 64"
  shows "unat (addr - map_start m) < map_n m \<longleftrightarrow> in_mapping m addr"
proof (cases "map_start m \<le> addr")
  case True
  then show ?thesis
    by (auto simp: in_mapping_def unat_sub word_le_nat_alt)
next
  case False
  then have lt: "unat addr < unat (map_start m)" by (simp add: word_le_nat_alt)
  have "unat (addr - map_start m) = unat addr + 2 ^ 64 - unat (map_start m)"
    using lt unat_bounds(4) [of "map_start m"]
    by (simp add: unat_sub_if_size word_size)
  with lt assms show ?thesis by (auto simp: in_mapping_def)
qed

lemma all_less_Suc_split: "(\<forall>j < Suc i. P j) \<longleftrightarrow> P 0 \<and> (\<forall>j < i. P (Suc j))"
  using less_Suc_eq_0_disj by auto

section \<open>The contract of a comparison\<close>

locale equality_test =
  fixes eq :: "'a \<Rightarrow> 'a \<Rightarrow> bool"
  assumes eq_refl: "eq x x"
    and eq_sym: "eq x y \<Longrightarrow> eq y x"
    and eq_trans: "eq x y \<Longrightarrow> eq y z \<Longrightarrow> eq x z"
begin

lemma eq_commute: "eq x y \<longleftrightarrow> eq y x"
  using eq_sym by blast

lemma list_all2_eq_equivp: "equivp (list_all2 eq)"
proof (rule equivpI)
  show "reflp (list_all2 eq)" by (rule reflpI) (simp add: list.rel_refl eq_refl)
  show "symp (list_all2 eq)"
    by (rule sympI) (auto simp: list_all2_conv_all_nth intro: eq_sym)
  show "transp (list_all2 eq)"
    using list_all2_trans [of eq eq eq, OF eq_trans] by (auto intro: transpI)
qed

end

lemma mem_change_equal_iff:
  "mem_change_equal m1 m2 \<longleftrightarrow>
     mc_start m1 = mc_start m2 \<and> mc_n m1 = mc_n m2 \<and> mc_checksum m1 = mc_checksum m2 \<and>
     take (n_cap (mc_n m1)) (mc_val m1) = take (n_cap (mc_n m1)) (mc_val m2)"
  by (auto simp: mem_change_equal_def)

interpretation mem_change_equal: equality_test mem_change_equal
  by unfold_locales (auto simp: mem_change_equal_iff)

lemma result_equal_iff:
  "result_equal b r1 r2 \<longleftrightarrow>
     signum r1 = signum r2 \<and> si_addrr r1 = si_addrr r2 \<and> si_pc r1 = si_pc r2 \<and>
     si_code r1 = si_code r2 \<and> regs_memeq b (regs_result r1) (regs_result r2) \<and>
     (flag_CHECK_MEM b \<longrightarrow> list_all2 mem_change_equal (mem_changes r1) (mem_changes r2))"
  by (auto simp: result_equal_def mem_changes_equal_def list_all2_conv_all_nth list_all_iff)

interpretation result_equal: equality_test "result_equal b" for b
proof unfold_locales
  fix x y z
  note eqv = mem_change_equal.list_all2_eq_equivp
  show "result_equal b x x"
    using equivp_reflp [OF eqv] by (simp add: result_equal_iff regs_memeq_def)
  show "result_equal b x y \<Longrightarrow> result_equal b y x"
    using equivp_symp [OF eqv] by (simp add: result_equal_iff regs_memeq_def)
  show "result_equal b x y \<Longrightarrow> result_equal b y z \<Longrightarrow> result_equal b x z"
    using equivp_transp [OF eqv] by (auto simp: result_equal_iff regs_memeq_def)
qed

section \<open>Properties\<close>


text \<open>
  Two recorded changes are equal exactly when start, length, checksum and the captured
  bytes below the length and below the cut are equal. The rest of the value buffer, which holds
  bytes of earlier ranges, is never looked at.
\<close>

lemma mem_change_equal_captured:
  assumes "wf_mem_change m" and "wf_mem_change m'"
  shows "mem_change_equal m m' \<longleftrightarrow>
           mc_start m = mc_start m' \<and> mc_n m = mc_n m' \<and> mc_checksum m = mc_checksum m' \<and>
           (\<forall>j < min (unat (mc_n m)) CHECK_MEM_CUT_AT. mc_val m ! j = mc_val m' ! j)"
proof -
  have cap: "n_cap (mc_n m) = min (unat (mc_n m)) CHECK_MEM_CUT_AT"
    by (simp add: n_cap_def)
  have "take (n_cap (mc_n m)) (mc_val m) = take (n_cap (mc_n m)) (mc_val m') \<longleftrightarrow>
          (\<forall>j < n_cap (mc_n m). mc_val m ! j = mc_val m' ! j)"
    using assms by (auto simp: wf_mem_change_def list_eq_iff_nth_eq cap)
  then show ?thesis unfolding mem_change_equal_iff cap by blast
qed

text \<open>
  \<open>find_mapping\<close> returns the first mapping whose half-open range holds the address, and
  nothing when no mapping does; the unsigned subtraction is right below a mapping's start
  because no mapping reaches past the end of the address space.
\<close>

lemma find_mapping_first:
  assumes "\<And>m. m \<in> set ms \<Longrightarrow> unat (map_start m) + map_n m \<le> 2 ^ 64"
  shows "(find_mapping ms addr = Some i \<longleftrightarrow>
            i < length ms \<and> in_mapping (ms ! i) addr \<and> (\<forall>j < i. \<not> in_mapping (ms ! j) addr)) \<and>
         (find_mapping ms addr = None \<longleftrightarrow> (\<forall>m \<in> set ms. \<not> in_mapping m addr))"
proof -
  have test: "unat (addr - map_start m) < map_n m \<longleftrightarrow> in_mapping m addr" if "m \<in> set ms" for m
    by (rule in_mapping_iff [OF assms [OF that]])
  then show ?thesis
  proof (induction ms arbitrary: i)
    case (Cons m ms)
    then show ?case
      by (cases i) (auto simp: all_less_Suc_split)
  qed simp
qed

end
