(* ===== verification/Mem_Check.thy ===== *)
theory Mem_Check
  imports Results
begin

text \<open>
  The change detection at the end of \<open>run_with_instr_seq\<close> (lib/runner.c): the loops that compare
  the writable view of every mapping with its initial bytes and record each range of changed
  bytes with its start, length, first bytes and FNV-1a checksum, across adjacent mappings, up to
  \<^verbatim>\<open>CHECK_MEM_MAX_NUMBER_MEM_CHANGES\<close> ranges. The loop's local variables are the record
  \<open>scan\<close>; the abstract specification \<open>runs\<close> reads the mappings as one sequence of cells and
  collects the maximal runs of changed cells with consecutive addresses.
\<close>

section \<open>The loops\<close>

definition fnv_step :: "u32 \<Rightarrow> u8 \<Rightarrow> u32" where
  "fnv_step c x = (c XOR ucast x) * 16777619"

abbreviation (input) FNV_BASIS :: u32 where "FNV_BASIS \<equiv> 2166136261"

record scan =
  end_logging :: bool
  range_started :: bool
  range_start :: u64
  cur_val :: "u8 list"
  cur_range_len :: u32
  cur_checksum :: u32
  changes :: "mem_change list"

text \<open>The body of the loop that consumes differing bytes, and the loop.\<close>

definition scan_byte :: "u8 \<Rightarrow> scan \<Rightarrow> scan" where
  "scan_byte x s =
     s\<lparr>cur_val := (if unat (cur_range_len s) < CHECK_MEM_CUT_AT
                   then (cur_val s)[unat (cur_range_len s) := x] else cur_val s),
       cur_range_len := cur_range_len s + 1,
       cur_checksum := fnv_step (cur_checksum s) x\<rparr>"

function scan_consume :: "mapping \<Rightarrow> nat \<Rightarrow> scan \<Rightarrow> nat \<times> scan" where
  "scan_consume m i s =
     (if i < map_n m \<and> map_rw m ! i \<noteq> map_val m ! i
      then scan_consume m (i + 1) (scan_byte (map_rw m ! i) s)
      else (i, s))"
  by pat_completeness auto
termination
  by (relation "measure (\<lambda>(m, i, s). map_n m - i)") auto

declare scan_consume.simps [simp del]

text \<open>The range continues in the next mapping.\<close>

definition scan_continues :: "mapping \<Rightarrow> mapping option \<Rightarrow> bool" where
  "scan_continues m nx =
     (case nx of None \<Rightarrow> False
      | Some m' \<Rightarrow> map_start m' = map_start m + of_nat (map_n m) \<and> map_n m' > 0 \<and>
                   map_rw m' ! 0 \<noteq> map_val m' ! 0)"

definition scan_record :: "build \<Rightarrow> scan \<Rightarrow> scan res" where
  "scan_record b s =
     res_bind (c_assert (length (changes s) < CHECK_MEM_MAX_NUMBER_MEM_CHANGES b)
                 ''r.n_mem_changes < CHECK_MEM_MAX_NUMBER_MEM_CHANGES'')
       (\<lambda>_. Inr (s\<lparr>changes := changes s @ [\<lparr>mc_start = range_start s, mc_n = cur_range_len s,
                                   mc_val = cur_val s, mc_checksum = cur_checksum s\<rparr>],
                   range_started := False\<rparr>))"

definition scan_flush :: "build \<Rightarrow> scan \<Rightarrow> scan res" where
  "scan_flush b s =
     res_bind (scan_record b s)
       (\<lambda>s'. Inr (if length (changes s') \<ge> CHECK_MEM_MAX_NUMBER_MEM_CHANGES b
                  then s'\<lparr>end_logging := True\<rparr> else s'))"

definition scan_open :: "mapping \<Rightarrow> nat \<Rightarrow> scan \<Rightarrow> scan" where
  "scan_open m i s =
     s\<lparr>range_started := True, range_start := map_start m + of_nat i, cur_range_len := 0,
       cur_checksum := FNV_BASIS\<rparr>"

text \<open>
  One iteration of the loop over a mapping's bytes: the new state and, unless the iteration ends
  in a \<^verbatim>\<open>break\<close>, the next index.
\<close>

definition scan_iter ::
  "build \<Rightarrow> mapping \<Rightarrow> mapping option \<Rightarrow> nat \<Rightarrow> scan \<Rightarrow> (scan \<times> nat option) res" where
  "scan_iter b m nx i s =
     (let i1 = (if \<not> range_started s
                then i + memcmp_common_prefix (drop i (map_rw m)) (drop i (map_val m)) (map_n m - i)
                else i)
      in if \<not> range_started s \<and> i1 \<ge> map_n m then Inr (s, None)
         else
           let s1 = (if \<not> range_started s then scan_open m i1 s else s);
               (i2, s2) = scan_consume m i1 s1
           in if range_started s2 \<and> (i2 \<ge> map_n m \<or> map_rw m ! i2 = map_val m ! i2)
              then (if i2 \<ge> map_n m \<and> scan_continues m nx then Inr (s2, None)
                    else res_bind (scan_flush b s2)
                           (\<lambda>s3. Inr (s3, if end_logging s3 then None else Some i2)))
              else Inr (s2, Some i2))"

lemma scan_consume_progress:
  "scan_consume m i s = (i', s') \<Longrightarrow>
     i \<le> i' \<and> (i < map_n m \<and> map_rw m ! i \<noteq> map_val m ! i \<longrightarrow> i < i') \<and>
     range_started s' = range_started s \<and> changes s' = changes s \<and>
     end_logging s' = end_logging s \<and> (i' < map_n m \<longrightarrow> map_rw m ! i' = map_val m ! i')"
proof (induction m i s rule: scan_consume.induct)
  case (1 m i s)
  show ?case
  proof (cases "i < map_n m \<and> map_rw m ! i \<noteq> map_val m ! i")
    case True
    with "1.prems" have "scan_consume m (i + 1) (scan_byte (map_rw m ! i) s) = (i', s')"
      by (subst (asm) scan_consume.simps) simp
    from "1.IH" [OF True this] show ?thesis by (simp add: scan_byte_def)
  next
    case False
    with "1.prems" show ?thesis by (subst (asm) scan_consume.simps) auto
  qed
qed

lemma scan_flush_Inr:
  "scan_flush b s = Inr s' \<longleftrightarrow>
     length (changes s) < CHECK_MEM_MAX_NUMBER_MEM_CHANGES b \<and>
     s' = s\<lparr>changes := changes s @ [\<lparr>mc_start = range_start s, mc_n = cur_range_len s,
                                    mc_val = cur_val s, mc_checksum = cur_checksum s\<rparr>],
            range_started := False,
            end_logging := (end_logging s \<or>
              length (changes s) + 1 \<ge> CHECK_MEM_MAX_NUMBER_MEM_CHANGES b)\<rparr>"
  by (cases "length (changes s) < CHECK_MEM_MAX_NUMBER_MEM_CHANGES b")
    (auto simp: scan_flush_def scan_record_def)

text \<open>
  An iteration that goes on has recorded a range, and the assertion bounds the number of ranges,
  so the loop ends.
\<close>

lemma scan_iter_records:
  assumes "scan_iter b m nx i s = Inr (s', Some i')"
  shows "length (changes s) < length (changes s') \<and>
         length (changes s') \<le> CHECK_MEM_MAX_NUMBER_MEM_CHANGES b"
  using assms
  by (auto simp: scan_iter_def Let_def res_bind_Inr_iff scan_flush_Inr scan_open_def
      split: if_splits prod.splits dest!: scan_consume_progress)

lemma scan_iter_index: "scan_iter b m nx i s = Inr (s', Some i') \<Longrightarrow> i \<le> i'"
  by (auto simp: scan_iter_def Let_def res_bind_Inr_iff split: if_splits prod.splits
      dest!: scan_consume_progress)

function scan_mapping ::
  "build \<Rightarrow> mapping \<Rightarrow> mapping option \<Rightarrow> nat \<Rightarrow> scan \<Rightarrow> scan res" where
  "scan_mapping b m nx i s =
     (if i < map_n m
      then (case scan_iter b m nx i s of
              Inl e \<Rightarrow> Inl e
            | Inr (s', None) \<Rightarrow> Inr s'
            | Inr (s', Some i') \<Rightarrow> scan_mapping b m nx i' s')
      else Inr s)"
  by pat_completeness auto
termination
  by (relation "measure (\<lambda>(b, m, nx, i, s). CHECK_MEM_MAX_NUMBER_MEM_CHANGES b - length (changes s))")
    (auto dest!: scan_iter_records)

declare scan_mapping.simps [simp del]

text \<open>The loop over all mappings, the given ones first, and the last flush.\<close>

fun scan_mappings :: "build \<Rightarrow> mapping list \<Rightarrow> scan \<Rightarrow> scan res" where
  "scan_mappings b [] s = Inr s"
| "scan_mappings b (m # ms) s =
     (if end_logging s then Inr s
      else res_bind (scan_mapping b m (case ms of [] \<Rightarrow> None | m' # _ \<Rightarrow> Some m') 0 s)
             (scan_mappings b ms))"

definition check_mem :: "build \<Rightarrow> u8 list \<Rightarrow> mapping list \<Rightarrow> mem_change list res" where
  "check_mem b garbage ms =
     res_bind (scan_mappings b ms
                 \<lparr>end_logging = False, range_started = False, range_start = 0, cur_val = garbage,
                  cur_range_len = 0, cur_checksum = 0, changes = []\<rparr>)
       (\<lambda>s. res_bind (if range_started s \<and> \<not> end_logging s then scan_record b s else Inr s)
         (\<lambda>s'. Inr (changes s')))"

section \<open>Specification\<close>

text \<open>A cell is an address, the byte found there after the run and the byte before it.\<close>

type_synonym cell = "u64 \<times> u8 \<times> u8"

definition cells :: "mapping \<Rightarrow> cell list" where
  "cells m = map (\<lambda>i. (map_start m + of_nat i, map_rw m ! i, map_val m ! i)) [0..<map_n m]"

fun runs_from :: "(u64 \<times> u8 list) option \<Rightarrow> cell list \<Rightarrow> (u64 \<times> u8 list) list" where
  "runs_from None [] = []"
| "runs_from (Some r) [] = [r]"
| "runs_from None ((a, x, v) # cs) =
     (if x = v then runs_from None cs else runs_from (Some (a, [x])) cs)"
| "runs_from (Some (a0, xs)) ((a, x, v) # cs) =
     (if x = v then (a0, xs) # runs_from None cs
      else if a = a0 + of_nat (length xs) then runs_from (Some (a0, xs @ [x])) cs
      else (a0, xs) # runs_from (Some (a, [x])) cs)"

definition runs :: "mapping list \<Rightarrow> (u64 \<times> u8 list) list" where
  "runs ms = runs_from None (concat (map cells ms))"

definition fnv1a :: "u8 list \<Rightarrow> u32" where
  "fnv1a xs = foldl fnv_step FNV_BASIS xs"

text \<open>What a recorded change says about a run: all but the stale end of its buffer.\<close>

definition records_run :: "mem_change \<Rightarrow> u64 \<times> u8 list \<Rightarrow> bool" where
  "records_run c r \<longleftrightarrow>
     mc_start c = fst r \<and> unat (mc_n c) = length (snd r) \<and> mc_checksum c = fnv1a (snd r) \<and>
     length (mc_val c) = CHECK_MEM_CUT_AT \<and>
     take (min CHECK_MEM_CUT_AT (length (snd r))) (mc_val c) = take CHECK_MEM_CUT_AT (snd r)"

section \<open>The loops implement the specification\<close>

text \<open>
  The scan state with the runs it stands for: those already recorded and the one that is open.
\<close>

definition open_rel :: "scan \<Rightarrow> (u64 \<times> u8 list) option \<Rightarrow> bool" where
  "open_rel s opn =
     (case opn of
        None \<Rightarrow> \<not> range_started s
      | Some (a, xs) \<Rightarrow>
          range_started s \<and> range_start s = a \<and> unat (cur_range_len s) = length xs \<and>
          cur_checksum s = fnv1a xs \<and>
          take (min CHECK_MEM_CUT_AT (length xs)) (cur_val s) = take CHECK_MEM_CUT_AT xs)"

definition scan_rel :: "scan \<Rightarrow> (u64 \<times> u8 list) list \<Rightarrow> (u64 \<times> u8 list) option \<Rightarrow> bool" where
  "scan_rel s ds opn \<longleftrightarrow>
     list_all2 records_run (changes s) ds \<and> length (cur_val s) = CHECK_MEM_CUT_AT \<and> open_rel s opn"

definition open_len :: "(u64 \<times> u8 list) option \<Rightarrow> nat" where
  "open_len opn = (case opn of None \<Rightarrow> 0 | Some (a, xs) \<Rightarrow> length xs)"

lemma length_cells [simp]: "length (cells m) = map_n m"
  by (simp add: cells_def)

lemma drop_cells:
  "i < map_n m \<Longrightarrow>
     drop i (cells m) = (map_start m + of_nat i, map_rw m ! i, map_val m ! i) # drop (Suc i) (cells m)"
  by (subst Cons_nth_drop_Suc [symmetric]) (simp_all add: cells_def)

lemma cells_Cons:
  assumes "0 < map_n m"
  shows "cells m @ cs = (map_start m, map_rw m ! 0, map_val m ! 0) # drop 1 (cells m) @ cs"
  using drop_cells [OF assms] by simp

lemma scan_byte_rel:
  assumes rel: "scan_rel s ds (Some (a, xs))" and bound: "length xs + 1 < 2 ^ 32"
  shows "scan_rel (scan_byte x s) ds (Some (a, xs @ [x]))"
proof -
  from rel have len: "unat (cur_range_len s) = length xs"
    and val: "length (cur_val s) = CHECK_MEM_CUT_AT"
      "take (min CHECK_MEM_CUT_AT (length xs)) (cur_val s) = take CHECK_MEM_CUT_AT xs"
    by (simp_all add: scan_rel_def open_rel_def)
  have "unat (cur_range_len s + 1) = length xs + 1"
    using bound len by (simp add: unat_word_ariths)
  moreover have "take (Suc (length xs)) ((cur_val s)[length xs := x]) = xs @ [x]"
    if "length xs < CHECK_MEM_CUT_AT"
    using that val by (simp add: take_Suc_conv_app_nth)
  moreover have "cur_val s = take CHECK_MEM_CUT_AT xs" if "\<not> length xs < CHECK_MEM_CUT_AT"
    using that val by (simp add: min_def)
  ultimately show ?thesis
    using rel by (simp add: scan_rel_def open_rel_def scan_byte_def fnv1a_def len)
qed

text \<open>The bytes the inner loop takes belong to the open run, up to the first equal byte.\<close>

lemma scan_consume_rel:
  assumes "scan_consume m i s = (i', s')" and "scan_rel s ds (Some (a, xs))"
    and "i \<le> map_n m" and "map_start m + of_nat i = a + of_nat (length xs)"
    and "length xs + (map_n m - i) < 2 ^ 32"
  shows "\<exists>ys. scan_rel s' ds (Some (a, xs @ ys)) \<and> i' = i + length ys \<and> i' \<le> map_n m \<and>
           (\<forall>cs. runs_from (Some (a, xs)) (drop i (cells m) @ cs) =
                 runs_from (Some (a, xs @ ys)) (drop i' (cells m) @ cs))"
  using assms
proof (induction m i s arbitrary: xs rule: scan_consume.induct)
  case (1 m i s)
  show ?case
  proof (cases "i < map_n m \<and> map_rw m ! i \<noteq> map_val m ! i")
    case True
    let ?x = "map_rw m ! i"
    from True "1.prems"(1) have step: "scan_consume m (i + 1) (scan_byte ?x s) = (i', s')"
      by (subst (asm) scan_consume.simps) simp
    have addr: "map_start m + of_nat (i + 1) = a + of_nat (length (xs @ [?x]))"
      using "1.prems"(4) by (simp add: algebra_simps)
    have "scan_rel (scan_byte ?x s) ds (Some (a, xs @ [?x]))"
      by (rule scan_byte_rel [OF "1.prems"(2)]) (use True "1.prems"(5) in linarith)
    moreover have "length (xs @ [?x]) + (map_n m - (i + 1)) < 2 ^ 32"
    proof -
      have "map_n m - i = map_n m - (i + 1) + 1" using True by linarith
      with "1.prems"(5) show ?thesis by (simp only: length_append list.size)
    qed
    ultimately
    obtain ys where ys: "scan_rel s' ds (Some (a, (xs @ [?x]) @ ys))" "i' = i + 1 + length ys"
      "i' \<le> map_n m"
      "\<And>cs. runs_from (Some (a, xs @ [?x])) (drop (i + 1) (cells m) @ cs) =
            runs_from (Some (a, (xs @ [?x]) @ ys)) (drop i' (cells m) @ cs)"
      using "1.IH" [OF True step _ _ addr] True by auto
    have "runs_from (Some (a, xs)) (drop i (cells m) @ cs) =
          runs_from (Some (a, xs @ ?x # ys)) (drop i' (cells m) @ cs)" for cs
      using True "1.prems"(4) ys(4) [of cs] by (simp add: drop_cells)
    with ys show ?thesis by (intro exI [of _ "?x # ys"]) simp
  next
    case False
    with "1.prems" show ?thesis
      by (subst (asm) scan_consume.simps) (auto intro!: exI [of _ "[]"])
  qed
qed

lemma runs_from_skip:
  assumes "i \<le> k" and "k \<le> map_n m" and "\<And>j. i \<le> j \<Longrightarrow> j < k \<Longrightarrow> map_rw m ! j = map_val m ! j"
  shows "runs_from None (drop i (cells m) @ cs) = runs_from None (drop k (cells m) @ cs)"
  using assms
proof (induction k rule: dec_induct)
  case (step k)
  then show ?case by (simp add: drop_cells)
qed simp

lemma runs_from_close:
  assumes "\<And>x v cs'. cs = (a + of_nat (length xs), x, v) # cs' \<Longrightarrow> x = v"
  shows "runs_from (Some (a, xs)) cs = (a, xs) # runs_from None cs"
  using assms by (cases cs) auto

lemma runs_from_open:
  "x \<noteq> v \<Longrightarrow> runs_from (Some (a, [])) ((a, x, v) # cs) = runs_from None ((a, x, v) # cs)"
  by simp

text \<open>The cells of a list of mappings, and the mapping the code looks ahead to.\<close>

abbreviation next_mapping :: "mapping list \<Rightarrow> mapping option" where
  "next_mapping ms \<equiv> (case ms of [] \<Rightarrow> None | m' # _ \<Rightarrow> Some m')"

abbreviation all_cells :: "mapping list \<Rightarrow> cell list" where
  "all_cells ms \<equiv> concat (map cells ms)"

lemma scan_continues_iff:
  assumes "\<And>m'. m' \<in> set ms \<Longrightarrow> wf_mapping m'"
  shows "scan_continues m (next_mapping ms) \<longleftrightarrow>
           (\<exists>x v cs. all_cells ms = (map_start m + of_nat (map_n m), x, v) # cs \<and> x \<noteq> v)"
proof (cases ms)
  case (Cons m' ms')
  then have "0 < map_n m'" using assms by (simp add: wf_mapping_def)
  then have "all_cells ms =
      (map_start m', map_rw m' ! 0, map_val m' ! 0) # drop 1 (cells m') @ all_cells ms'"
    by (simp add: Cons cells_Cons)
  then have "(\<exists>x v cs. all_cells ms = (map_start m + of_nat (map_n m), x, v) # cs \<and> x \<noteq> v) \<longleftrightarrow>
      map_start m' = map_start m + of_nat (map_n m) \<and> map_rw m' ! 0 \<noteq> map_val m' ! 0"
    by auto
  with \<open>0 < map_n m'\<close> show ?thesis by (simp add: scan_continues_def Cons)
qed (simp add: scan_continues_def)

text \<open>
  Where the scan of a mapping may stand: \<open>pos\<close> before an iteration, \<open>done\<close> after the mapping.
\<close>

definition pos_ok :: "mapping \<Rightarrow> nat \<Rightarrow> (u64 \<times> u8 list) option \<Rightarrow> bool" where
  "pos_ok m i opn \<longleftrightarrow>
     (\<forall>a xs. opn = Some (a, xs) \<longrightarrow>
        i < map_n m \<and> map_start m + of_nat i = a + of_nat (length xs) \<and> map_rw m ! i \<noteq> map_val m ! i)"

definition head_ok :: "cell list \<Rightarrow> (u64 \<times> u8 list) option \<Rightarrow> bool" where
  "head_ok cs opn \<longleftrightarrow>
     (\<forall>a xs. opn = Some (a, xs) \<longrightarrow>
        (\<exists>x v cs'. cs = (a + of_nat (length xs), x, v) # cs' \<and> x \<noteq> v))"

lemma scan_flush_rel:
  assumes rel: "scan_rel s ds (Some r)" and room: "length ds < CHECK_MEM_MAX_NUMBER_MEM_CHANGES b"
  shows "\<exists>s'. scan_flush b s = Inr s' \<and> scan_rel s' (ds @ [r]) None \<and>
           (end_logging s' \<longleftrightarrow>
              end_logging s \<or> length (ds @ [r]) \<ge> CHECK_MEM_MAX_NUMBER_MEM_CHANGES b)"
proof -
  have len: "length (changes s) = length ds"
    using rel by (auto simp: scan_rel_def dest: list_all2_lengthD)
  obtain a xs where r: "r = (a, xs)" by (cases r)
  have "records_run \<lparr>mc_start = range_start s, mc_n = cur_range_len s,
                     mc_val = cur_val s, mc_checksum = cur_checksum s\<rparr> r"
    using rel by (simp add: records_run_def scan_rel_def open_rel_def r)
  with rel room len show ?thesis
    by (auto simp: scan_flush_Inr scan_rel_def open_rel_def list_all2_append)
qed

text \<open>
  What remains to be recorded after an iteration: either the log is full and holds the first
  runs, or the runs still to come are those of the cells behind the new index.
\<close>

definition scan_post ::
  "build \<Rightarrow> (u64 \<times> u8 list) list \<Rightarrow> cell list \<Rightarrow> scan \<Rightarrow> (u64 \<times> u8 list) list \<Rightarrow>
     (u64 \<times> u8 list) option \<Rightarrow> bool" where
  "scan_post b all cs s ds opn \<longleftrightarrow>
     scan_rel s ds opn \<and>
     (if end_logging s
      then length ds = CHECK_MEM_MAX_NUMBER_MEM_CHANGES b \<and> opn = None \<and> (\<exists>rest. all = ds @ rest)
      else length ds < CHECK_MEM_MAX_NUMBER_MEM_CHANGES b \<and> all = ds @ runs_from opn cs)"

definition mapping_done ::
  "build \<Rightarrow> (u64 \<times> u8 list) list \<Rightarrow> mapping list \<Rightarrow> scan \<Rightarrow> bool" where
  "mapping_done b all ms s \<longleftrightarrow>
     (\<exists>ds opn. scan_post b all (all_cells ms) s ds opn \<and> head_ok (all_cells ms) opn \<and>
               open_len opn + length (all_cells ms) < 2 ^ 32)"

lemma scan_close_rel:
  assumes rel: "scan_rel s ds (Some (a, xs))" and log: "\<not> end_logging s"
    and room: "length ds < CHECK_MEM_MAX_NUMBER_MEM_CHANGES b"
    and all: "all = ds @ runs_from (Some (a, xs)) cs"
    and stop: "\<And>x v cs'. cs = (a + of_nat (length xs), x, v) # cs' \<Longrightarrow> x = v"
  shows "\<exists>s'. scan_flush b s = Inr s' \<and> scan_post b all cs s' (ds @ [(a, xs)]) None"
proof -
  from all stop have "all = (ds @ [(a, xs)]) @ runs_from None cs"
    by (simp add: runs_from_close)
  moreover obtain s' where "scan_flush b s = Inr s'" "scan_rel s' (ds @ [(a, xs)]) None"
    "end_logging s' \<longleftrightarrow> length (ds @ [(a, xs)]) \<ge> CHECK_MEM_MAX_NUMBER_MEM_CHANGES b"
    using scan_flush_rel [OF rel room] log by auto
  ultimately show ?thesis using room by (auto simp: scan_post_def)
qed

text \<open>The iteration with the range open, at the position where the inner loop starts.\<close>

lemma scan_iter_open:
  assumes wf: "\<And>m'. m' \<in> set ms \<Longrightarrow> wf_mapping m'"
    and rel: "scan_rel s ds (Some (a, xs))" and pos: "i \<le> map_n m"
      "map_start m + of_nat i = a + of_nat (length xs)"
    and bound: "length xs + (map_n m - i) + length (all_cells ms) < 2 ^ 32"
    and log: "\<not> end_logging s" "length ds < CHECK_MEM_MAX_NUMBER_MEM_CHANGES b"
    and all: "all = ds @ runs_from (Some (a, xs)) (drop i (cells m) @ all_cells ms)"
    and con: "scan_consume m i s = (i2, s2)"
  shows "if i2 \<ge> map_n m \<and> scan_continues m (next_mapping ms)
         then mapping_done b all ms s2
         else i2 \<le> map_n m \<and>
              (\<exists>s3 ds'. scan_flush b s2 = Inr s3 \<and>
                        scan_post b all (drop i2 (cells m) @ all_cells ms) s3 ds' None)"
proof -
  obtain ys where ys: "scan_rel s2 ds (Some (a, xs @ ys))" "i2 = i + length ys" "i2 \<le> map_n m"
    "\<And>cs. runs_from (Some (a, xs)) (drop i (cells m) @ cs) =
          runs_from (Some (a, xs @ ys)) (drop i2 (cells m) @ cs)"
    using scan_consume_rel [OF con rel pos] bound by auto
  from scan_consume_progress [OF con] log have log2: "\<not> end_logging s2"
    and stop: "i2 < map_n m \<Longrightarrow> map_rw m ! i2 = map_val m ! i2" by simp_all
  have addr: "map_start m + of_nat i2 = a + of_nat (length (xs @ ys))"
    using pos(2) ys(2) by (simp add: algebra_simps)
  have all2: "all = ds @ runs_from (Some (a, xs @ ys)) (drop i2 (cells m) @ all_cells ms)"
    using all ys(4) by simp
  show ?thesis
  proof (cases "i2 \<ge> map_n m \<and> scan_continues m (next_mapping ms)")
    case True
    with ys have i2: "i2 = map_n m" by simp
    have "head_ok (all_cells ms) (Some (a, xs @ ys))"
      using True scan_continues_iff [OF wf] addr by (simp add: head_ok_def i2)
    moreover have "open_len (Some (a, xs @ ys)) + length (all_cells ms) < 2 ^ 32"
      using bound ys(2) i2 by (simp add: open_len_def)
    moreover have "scan_post b all (all_cells ms) s2 ds (Some (a, xs @ ys))"
      using ys(1) log2 log(2) all2 by (simp add: scan_post_def i2)
    ultimately show ?thesis using True by (auto simp: mapping_done_def)
  next
    case False
    have "x = v" if "drop i2 (cells m) @ all_cells ms = (a + of_nat (length (xs @ ys)), x, v) # cs'"
      for x v cs'
    proof (cases "i2 < map_n m")
      case True
      with that stop show ?thesis by (auto simp: drop_cells)
    next
      case at_end: False
      with ys(3) have "i2 = map_n m" by simp
      with that False addr scan_continues_iff [of ms m, OF wf] show ?thesis by auto
    qed
    then have "\<exists>s'. scan_flush b s2 = Inr s' \<and>
        scan_post b all (drop i2 (cells m) @ all_cells ms) s' (ds @ [(a, xs @ ys)]) None"
      by (rule scan_close_rel [OF ys(1) log2 log(2) all2])
    with ys(3) False show ?thesis by auto
  qed
qed

lemma scan_iter_started:
  assumes "range_started s" and "scan_consume m i s = (i2, s2)"
  shows "scan_iter b m nx i s =
           (if i2 \<ge> map_n m \<and> scan_continues m nx then Inr (s2, None)
            else res_bind (scan_flush b s2) (\<lambda>s3. Inr (s3, if end_logging s3 then None else Some i2)))"
  using assms scan_consume_progress [OF assms(2)]
  by (auto simp: scan_iter_def Let_def not_less)

lemma scan_iter_idle:
  assumes "\<not> range_started s"
    and "k = i + memcmp_common_prefix (drop i (map_rw m)) (drop i (map_val m)) (map_n m - i)"
  shows "scan_iter b m nx i s =
           (if k \<ge> map_n m then Inr (s, None) else scan_iter b m nx k (scan_open m k s))"
  using assms
  by (simp add: scan_iter_def Let_def scan_open_def)

lemma skip_prefix:
  assumes wf: "wf_mapping m" and i: "i < map_n m"
    and k: "k = i + memcmp_common_prefix (drop i (map_rw m)) (drop i (map_val m)) (map_n m - i)"
  shows "i \<le> k \<and> k \<le> map_n m \<and> (\<forall>j. i \<le> j \<and> j < k \<longrightarrow> map_rw m ! j = map_val m ! j) \<and>
         (k < map_n m \<longrightarrow> map_rw m ! k \<noteq> map_val m ! k)"
proof -
  let ?r = "memcmp_common_prefix (drop i (map_rw m)) (drop i (map_val m)) (map_n m - i)"
  have len: "length (map_rw m) = map_n m" "length (map_val m) = map_n m"
    using wf by (simp_all add: wf_mapping_def)
  note stop = memcmp_common_prefix_stop
    [of "map_n m - i" "drop i (map_rw m)" "drop i (map_val m)", simplified len length_drop, simplified]
  have "map_rw m ! j = map_val m ! j" if "i \<le> j" "j < k" for j
    using stop(1) that i len by (auto simp: agree_def k dest!: spec [of _ "j - i"])
  moreover have "?r \<le> map_n m - i" using stop(1) by (simp add: agree_def)
  ultimately show ?thesis using stop(2) i len by (auto simp: k)
qed

lemma scan_open_rel:
  "scan_rel s ds None \<Longrightarrow> scan_rel (scan_open m i s) ds (Some (map_start m + of_nat i, []))"
  by (simp add: scan_rel_def open_rel_def scan_open_def fnv1a_def)

text \<open>An iteration either finishes the mapping or moves on with no range open.\<close>

lemma scan_iter_rel:
  assumes wf: "wf_mapping m" "\<And>m'. m' \<in> set ms \<Longrightarrow> wf_mapping m'"
    and post: "scan_post b all (drop i (cells m) @ all_cells ms) s ds opn"
    and pos: "i < map_n m" "pos_ok m i opn"
    and bound: "open_len opn + (map_n m - i) + length (all_cells ms) < 2 ^ 32"
    and log: "\<not> end_logging s"
  shows "\<exists>s' oi. scan_iter b m (next_mapping ms) i s = Inr (s', oi) \<and>
           (case oi of
              None \<Rightarrow> mapping_done b all ms s'
            | Some i' \<Rightarrow> \<not> end_logging s' \<and> i' \<le> map_n m \<and>
                (\<exists>ds'. scan_post b all (drop i' (cells m) @ all_cells ms) s' ds' None))"
proof -
  have opened: ?thesis
    if sc: "scan_iter b m (next_mapping ms) i s = scan_iter b m (next_mapping ms) k t"
      and t: "scan_rel t ds (Some (a, xs))" "\<not> end_logging t" and k: "k \<le> map_n m"
      "map_start m + of_nat k = a + of_nat (length xs)"
      "length xs + (map_n m - k) + length (all_cells ms) < 2 ^ 32"
      and all: "all = ds @ runs_from (Some (a, xs)) (drop k (cells m) @ all_cells ms)"
    for k t a xs
  proof -
    obtain i2 s2 where con: "scan_consume m k t = (i2, s2)" by fastforce
    have room: "length ds < CHECK_MEM_MAX_NUMBER_MEM_CHANGES b"
      using post log by (simp add: scan_post_def)
    have started: "range_started t" using t(1) by (simp add: scan_rel_def open_rel_def)
    note step = scan_iter_open [OF wf(2) t(1) k t(2) room all con]
      and iter = scan_iter_started [OF started con, of b "next_mapping ms"]
    show ?thesis
    proof (cases "i2 \<ge> map_n m \<and> scan_continues m (next_mapping ms)")
      case True
      with step iter sc show ?thesis by simp
    next
      case False
      with step obtain s3 ds' where s3: "i2 \<le> map_n m" "scan_flush b s2 = Inr s3"
        "scan_post b all (drop i2 (cells m) @ all_cells ms) s3 ds' None" by auto
      have "mapping_done b all ms s3" if "end_logging s3"
        using s3(3) that bound
        by (auto simp: mapping_done_def scan_post_def head_ok_def open_len_def)
      with s3 False iter sc show ?thesis by auto
    qed
  qed
  show ?thesis
  proof (cases opn)
    case (Some r)
    then obtain a xs where "opn = Some (a, xs)" by (cases r) auto
    with post pos bound log show ?thesis
      by (intro opened [of i s a xs]) (simp_all add: scan_post_def pos_ok_def open_len_def)
  next
    case None
    define k where
      "k = i + memcmp_common_prefix (drop i (map_rw m)) (drop i (map_val m)) (map_n m - i)"
    note skip = skip_prefix [OF wf(1) pos(1) k_def]
    have idle: "\<not> range_started s" using post None by (simp add: scan_post_def scan_rel_def open_rel_def)
    have all: "all = ds @ runs_from None (drop k (cells m) @ all_cells ms)"
      using post log None runs_from_skip [of i k m] skip by (simp add: scan_post_def)
    show ?thesis
    proof (cases "k < map_n m")
      case True
      have "runs_from None (drop k (cells m) @ all_cells ms) =
            runs_from (Some (map_start m + of_nat k, [])) (drop k (cells m) @ all_cells ms)"
        using True skip by (simp add: drop_cells)
      with all have "all =
          ds @ runs_from (Some (map_start m + of_nat k, [])) (drop k (cells m) @ all_cells ms)" by simp
      moreover have "scan_rel (scan_open m k s) ds (Some (map_start m + of_nat k, []))"
        using post None by (intro scan_open_rel) (simp add: scan_post_def)
      moreover have "\<not> end_logging (scan_open m k s)" using log by (simp add: scan_open_def)
      moreover have "map_n m - k \<le> map_n m - i" using skip diff_le_mono2 by blast
      then have "length ([] :: u8 list) + (map_n m - k) + length (all_cells ms) < 2 ^ 32"
        using bound by (simp only: list.size)
      ultimately show ?thesis
        using True by (intro opened [of k "scan_open m k s" "map_start m + of_nat k" "[]"])
          (simp_all add: scan_iter_idle [OF idle k_def])
    next
      case False
      with all post bound log None skip have "mapping_done b all ms s"
        by (auto simp: mapping_done_def scan_post_def head_ok_def open_len_def
            intro!: exI [of _ ds] exI [of _ None])
      with False show ?thesis by (simp add: scan_iter_idle [OF idle k_def])
    qed
  qed
qed

lemma scan_mapping_rel:
  assumes wf: "wf_mapping m" "\<And>m'. m' \<in> set ms \<Longrightarrow> wf_mapping m'"
    and post: "scan_post b all (drop i (cells m) @ all_cells ms) s ds opn"
    and pos: "i \<le> map_n m" "pos_ok m i opn"
    and bound: "open_len opn + (map_n m - i) + length (all_cells ms) < 2 ^ 32"
    and log: "\<not> end_logging s"
  shows "\<exists>s'. scan_mapping b m (next_mapping ms) i s = Inr s' \<and> mapping_done b all ms s'"
  using wf(1) post pos bound log
proof (induction b m "next_mapping ms" i s arbitrary: ds opn rule: scan_mapping.induct)
  case (1 b m i s)
  show ?case
  proof (cases "i < map_n m")
    case True
    from scan_iter_rel [OF "1.prems"(1) wf(2) "1.prems"(2) True "1.prems"(4,5,6)]
    obtain s' oi where iter: "scan_iter b m (next_mapping ms) i s = Inr (s', oi)"
      and oi: "case oi of None \<Rightarrow> mapping_done b all ms s'
               | Some i' \<Rightarrow> \<not> end_logging s' \<and> i' \<le> map_n m \<and>
                   (\<exists>ds'. scan_post b all (drop i' (cells m) @ all_cells ms) s' ds' None)"
      by blast
    show ?thesis
    proof (cases oi)
      case None
      with iter oi True show ?thesis by (subst scan_mapping.simps) simp
    next
      case (Some i')
      with oi obtain ds' where
        next_post: "scan_post b all (drop i' (cells m) @ all_cells ms) s' ds' None"
        and i': "i' \<le> map_n m" "\<not> end_logging s'" by auto
      have bnd: "open_len None + (map_n m - i') + length (all_cells ms) < 2 ^ 32"
        using "1.prems"(5) scan_iter_index [OF iter [unfolded Some]] i'
        by (simp add: open_len_def)
      have "pos_ok m i' None" by (simp add: pos_ok_def)
      from "1.hyps" [OF True iter refl Some "1.prems"(1) next_post i'(1) this bnd i'(2)]
      show ?thesis using True iter Some by (subst scan_mapping.simps) simp
    qed
  next
    case False
    with "1.prems" have "opn = None" "i = map_n m" by (cases opn; auto simp: pos_ok_def)+
    with "1.prems" have "mapping_done b all ms s"
      by (auto simp: mapping_done_def head_ok_def open_len_def intro!: exI [of _ ds] exI [of _ None])
    with False show ?thesis by (subst scan_mapping.simps) simp
  qed
qed

lemma scan_mappings_rel:
  assumes "\<And>m'. m' \<in> set ms \<Longrightarrow> wf_mapping m'" and "mapping_done b all ms s"
  shows "\<exists>s'. scan_mappings b ms s = Inr s' \<and> mapping_done b all [] s'"
  using assms
proof (induction ms arbitrary: s)
  case (Cons m ms)
  show ?case
  proof (cases "end_logging s")
    case True
    with Cons.prems(2) show ?thesis
      by (auto simp: mapping_done_def scan_post_def head_ok_def open_len_def)
  next
    case False
    from Cons.prems(2) obtain ds opn where
      post: "scan_post b all (drop 0 (cells m) @ all_cells ms) s ds opn"
      and head: "head_ok (cells m @ all_cells ms) opn"
      and bnd: "open_len opn + (map_n m - 0) + length (all_cells ms) < 2 ^ 32"
      by (auto simp: mapping_done_def)
    have wf: "wf_mapping m" "\<And>m'. m' \<in> set ms \<Longrightarrow> wf_mapping m'" using Cons.prems(1) by simp_all
    have "0 < map_n m" using wf(1) by (simp add: wf_mapping_def)
    with head have "pos_ok m 0 opn"
      by (auto simp: head_ok_def pos_ok_def cells_Cons)
    from scan_mapping_rel [OF wf post _ this bnd False]
    obtain s' where "scan_mapping b m (next_mapping ms) 0 s = Inr s'" "mapping_done b all ms s'"
      by auto
    with Cons.IH [of s'] wf(2) False show ?thesis by simp
  qed
qed auto

definition run_cells :: "u64 \<times> u8 list \<Rightarrow> (u64 \<times> u8) list" where
  "run_cells r = map (\<lambda>j. (fst r + of_nat j, snd r ! j)) [0..<length (snd r)]"

lemma run_cells_snoc: "run_cells (a, xs @ [x]) = run_cells (a, xs) @ [(a + of_nat (length xs), x)]"
  by (simp add: run_cells_def nth_append)

lemma concat_runs_from:
  "concat (map run_cells (runs_from opn cs)) =
     (case opn of None \<Rightarrow> [] | Some r \<Rightarrow> run_cells r) @
     map (\<lambda>(a, x, v). (a, x)) (filter (\<lambda>(a, x, v). x \<noteq> v) cs)"
proof (induction opn cs rule: runs_from.induct)
  case (3 a x v cs)
  then show ?case using run_cells_snoc [of a "[]" x] by (auto simp: run_cells_def)
next
  case (4 a0 xs a x v cs)
  then show ?case using run_cells_snoc [of a "[]" x] by (auto simp: run_cells_snoc run_cells_def nth_append)
qed simp_all

lemma check_mem_total:
  assumes "\<And>m. m \<in> set ms \<Longrightarrow> wf_mapping m" and "sum_list (map map_n ms) < 2 ^ 32"
    and "length garbage = CHECK_MEM_CUT_AT"
  shows "\<exists>cs. check_mem b garbage ms = Inr cs \<and>
           list_all2 records_run cs (take (CHECK_MEM_MAX_NUMBER_MEM_CHANGES b) (runs ms))"
proof -
  let ?s = "\<lparr>end_logging = False, range_started = False, range_start = 0, cur_val = garbage,
             cur_range_len = 0, cur_checksum = 0, changes = []\<rparr>"
  have "length (all_cells ms) = sum_list (map map_n ms)" by (simp add: length_concat comp_def)
  moreover have "scan_post b (runs ms) (all_cells ms) ?s [] None"
    using assms(3)
    by (simp add: scan_post_def scan_rel_def open_rel_def runs_def CHECK_MEM_MAX_NUMBER_MEM_CHANGES_def
        split: arch.split)
  ultimately have "mapping_done b (runs ms) ms ?s"
    using assms(2) by (auto simp: mapping_done_def head_ok_def open_len_def
        intro!: exI [of _ "[]"] exI [of _ None])
  with scan_mappings_rel [OF assms(1)] obtain s' where
    s': "scan_mappings b ms ?s = Inr s'" "mapping_done b (runs ms) [] s'" by blast
  then obtain ds opn where post: "scan_post b (runs ms) [] s' ds opn" and "head_ok [] opn"
    by (auto simp: mapping_done_def)
  then have opn: "opn = None" by (cases opn) (auto simp: head_ok_def)
  with post have "take (CHECK_MEM_MAX_NUMBER_MEM_CHANGES b) (runs ms) = ds"
    by (auto simp: scan_post_def split: if_splits)
  with post opn s'(1) show ?thesis
    by (auto simp: check_mem_def scan_post_def scan_rel_def open_rel_def)
qed

section \<open>Properties\<close>

text \<open>
  C2. The change detection is right: for mappings of at least one byte each and less than 4 GiB
  together it ends without a failed assertion, and the recorded changes are, in order, the first
  \<^verbatim>\<open>CHECK_MEM_MAX_NUMBER_MEM_CHANGES\<close> maximal runs of changed bytes, a run crossing into the
  next mapping when that one starts where this one ends, each with its start, length, leading
  bytes and the FNV-1a checksum of all its bytes. The flush after the loops never runs.
\<close>

theorem check_mem_records_runs:
  assumes "\<And>m. m \<in> set ms \<Longrightarrow> wf_mapping m" and "sum_list (map map_n ms) < 2 ^ 32"
    and "length garbage = CHECK_MEM_CUT_AT"
  shows "\<exists>cs. check_mem b garbage ms = Inr cs \<and>
           list_all2 records_run cs (take (CHECK_MEM_MAX_NUMBER_MEM_CHANGES b) (runs ms))"
  by (rule check_mem_total [OF assms])

theorem check_mem_records_runs_witness:
  "\<exists>cs. check_mem riscv_vector_build (replicate 16 0)
           [\<lparr>map_start = 0x1000, map_n = 2, map_prot = 3, map_val = [0, 0], map_rw = [0, 5]\<rparr>,
            \<lparr>map_start = 0x1002, map_n = 3, map_prot = 3, map_val = [0, 0, 0], map_rw = [6, 0, 7]\<rparr>]
         = Inr cs \<and> list_all2 records_run cs [(0x1001, [5, 6]), (0x1004, [7])]"
proof -
  let ?ms = "[\<lparr>map_start = 0x1000, map_n = 2, map_prot = 3, map_val = [0, 0], map_rw = [0, 5]\<rparr>,
    \<lparr>map_start = 0x1002, map_n = 3, map_prot = 3, map_val = [0, 0, 0], map_rw = [6, 0, 7]\<rparr>]"
  have "runs ?ms = [(0x1001, [5, 6]), (0x1004, [7])]" by code_simp
  moreover have "CHECK_MEM_MAX_NUMBER_MEM_CHANGES riscv_vector_build = 100"
    by (simp add: CHECK_MEM_MAX_NUMBER_MEM_CHANGES_def riscv_vector_build_def)
  moreover have "wf_mapping m" if "m \<in> set ?ms" for m
    using that by (auto simp: wf_mapping_def)
  from check_mem_records_runs [of ?ms "replicate 16 0" riscv_vector_build, OF this]
  have "\<exists>cs. check_mem riscv_vector_build (replicate 16 0) ?ms = Inr cs \<and>
      list_all2 records_run cs
        (take (CHECK_MEM_MAX_NUMBER_MEM_CHANGES riscv_vector_build) (runs ?ms))" by simp
  ultimately show ?thesis by simp
qed

text \<open>
  The specified runs cover exactly the changed bytes: laid out again as addresses and bytes
  they give the changed cells of the mappings, in order, none missing and none twice.
\<close>

lemma runs_cover_changes:
  "concat (map run_cells (runs ms)) =
     map (\<lambda>(a, x, v). (a, x)) (filter (\<lambda>(a, x, v). x \<noteq> v) (concat (map cells ms)))"
  by (simp add: runs_def concat_runs_from)

end
