(* ===== verification/Wire.thy ===== *)
theory Wire
  imports Results "HOL-Library.AList"
begin

text \<open>
  The result messages. The client's side is \<open>pack_inner_result\<close>, \<open>pack_result\<close> and
  \<open>pack_results\<close> of diffuzz-client.c; a function returns the bytes it writes. The server's side is
  \<open>parse_one_result\<close>, \<open>parse_one_result_full_seq\<close> and \<open>parse_results\<close> of pyutils/result.py and the
  loop of pyutils/server.py that splits a batch; a parser takes the data and the read position
  and returns the value and the new position, or the Python exception. The locale \<open>codec\<close> is the
  contract between a writer and its reader.
\<close>

section \<open>The client: packing\<close>

abbreviation (input) RESULT_TAG_SINGLE :: u8 where "RESULT_TAG_SINGLE \<equiv> 0"
abbreviation (input) RESULT_TAG_MULTI :: u8 where "RESULT_TAG_MULTI \<equiv> 1"
abbreviation (input) UINT16_MAX :: nat where "UINT16_MAX \<equiv> 65535"

text \<open>The register entries: the index byte and the bytes of the new value.\<close>

definition reg_entry :: "nat \<times> u64 \<times> u64 \<Rightarrow> u8 \<times> u8 list" where
  "reg_entry d = (case d of (abi_i, before, after) \<Rightarrow> (of_nat abi_i, le_store 8 (unat after)))"

definition status_entry :: "build \<Rightarrow> string \<Rightarrow> u64 \<Rightarrow> u64 \<Rightarrow> (u8 \<times> u8 list) list" where
  "status_entry b name before after =
     (if before \<noteq> after then [(of_nat (getabiindex b name), le_store 8 (unat after))] else [])"

definition diff_entries :: "build \<Rightarrow> regs \<Rightarrow> regs \<Rightarrow> (u8 \<times> u8 list) list" where
  "diff_entries b before after =
     map reg_entry (loop_over_gp_diff b before after)
     @ (if arch b = AARCH64 then status_entry b ''pstate'' (pstate before) (pstate after) else [])
     @ (if arch b = RISCV64 \<and> flag_FLOATS b
        then status_entry b ''fcsr'' (fcsr before) (fcsr after) else [])
     @ (if arch b = AARCH64 \<and> (flag_FLOATS b \<or> flag_VECTOR b)
        then status_entry b ''fpsr'' (fpsr before) (fpsr after) else [])
     @ (if flag_FLOATS b then map reg_entry (loop_over_fp_diff b before after) else [])
     @ (if flag_VECTOR b
        then map (\<lambda>(abi_i, _, after). (of_nat abi_i, after)) (loop_over_vector_regs_diff b before after)
        else [])"

definition pack_entry :: "u8 \<times> u8 list \<Rightarrow> u8 list" where
  "pack_entry e = fst e # snd e"

definition pack_mem_change :: "mem_change \<Rightarrow> u8 list" where
  "pack_mem_change c =
     le_store 8 (unat (mc_start c)) @ le_store 4 (unat (mc_n c)) @
     take (n_cap (mc_n c)) (mc_val c) @ le_store 4 (unat (mc_checksum c))"

definition pack_meta :: "build \<Rightarrow> result \<Rightarrow> u8 list" where
  "pack_meta b r =
     (if flag_META b
      then le_store 2 (unat (meta_cycle r)) @
           (if arch b = RISCV64 then le_store 2 (unat (meta_instret r)) else [])
      else [])"

definition pack_signal :: "result \<Rightarrow> u8 list" where
  "pack_signal r =
     (if signum r \<noteq> 0
      then le_store 8 (unat (si_addrr r)) @ le_store 8 (unat (si_pc r)) @ le_store 4 (unat (si_code r))
      else [])"

definition pack_mem :: "build \<Rightarrow> result \<Rightarrow> u8 list" where
  "pack_mem b r =
     (if flag_CHECK_MEM b
      then of_nat (length (mem_changes r)) # concat (map pack_mem_change (mem_changes r))
      else [])"

definition pack_inner_result :: "build \<Rightarrow> result \<Rightarrow> regs \<Rightarrow> u8 list" where
  "pack_inner_result b r regs_before =
     (let entries = diff_entries b regs_before (regs_result r)
      in ucast (signum r) # pack_meta b r @
         of_nat (length entries) # concat (map pack_entry entries) @
         pack_signal r @ pack_mem b r)"

definition pack_framed :: "u8 list \<Rightarrow> u8 list res" where
  "pack_framed body =
     res_bind (c_assert (length body \<le> UINT16_MAX) ''out_i-sizeof(*result_bytes) <= UINT16_MAX'')
       (\<lambda>_. Inr (le_store 2 (length body) @ body))"

definition pack_result :: "build \<Rightarrow> result \<Rightarrow> regs \<Rightarrow> u8 list res" where
  "pack_result b r regs_before =
     pack_framed (RESULT_TAG_SINGLE # pack_inner_result b r regs_before)"

definition pack_results :: "build \<Rightarrow> result list \<Rightarrow> regs \<Rightarrow> u8 list res" where
  "pack_results b rs regs_before =
     pack_framed (RESULT_TAG_MULTI # of_nat (length rs) #
                  concat (map (\<lambda>r. pack_inner_result b r regs_before) rs))"

section \<open>The server: parsing\<close>

datatype py_error = Struct_error | Index_error | Assertion_error | Os_exit nat

type_synonym 'a reader = "u8 list \<Rightarrow> nat \<Rightarrow> py_error + 'a \<times> nat"

text \<open>\<^verbatim>\<open>struct.unpack(fmt, data[r:r+n])[0]; r += n\<close>, little-endian and unsigned.\<close>

definition unpack :: "nat \<Rightarrow> nat reader" where
  "unpack n data r =
     (if r + n \<le> length data then Inr (le_load (take n (drop r data)), r + n) else Inl Struct_error)"

text \<open>\<^verbatim>\<open>int.from_bytes(data[r:r+n], "little"); r += n\<close>: a slice past the end is shorter.\<close>

definition from_bytes :: "nat \<Rightarrow> nat reader" where
  "from_bytes n data r = Inr (le_load (take n (drop r data)), r + n)"

text \<open>\<^verbatim>\<open>for _ in range(n)\<close> around a reader, collecting the values.\<close>

fun read_many :: "nat \<Rightarrow> 'a reader \<Rightarrow> 'a list reader" where
  "read_many 0 dec data r = Inr ([], r)"
| "read_many (Suc n) dec data r =
     res_bind (dec data r) (\<lambda>(x, r1).
     res_bind (read_many n dec data r1) (\<lambda>(xs, r2). Inr (x # xs, r2)))"

record py_result =
  py_signum :: nat
  py_cycle_diff :: "nat option"
  py_instret_diff :: "nat option"
  py_regs :: "(string \<times> nat) list"
  py_si_addr :: nat
  py_si_pc :: nat
  py_si_code :: nat
  py_mem_diffs :: "(nat \<times> nat \<times> nat \<times> nat) list option"

definition parse_reg :: "build \<Rightarrow> (string \<times> nat) reader" where
  "parse_reg b data r =
     res_bind (unpack 1 data r) (\<lambda>(reg_index, r1).
       if reg_index < length (regs_mapping b)
       then let reg = regs_mapping b ! reg_index
            in res_bind (if is_vec_name reg then from_bytes VEC_REG_SIZE data r1 else unpack 8 data r1)
                 (\<lambda>(reg_value, r2). Inr ((reg, reg_value), r2))
       else Inl Index_error)"

definition parse_mem_diff :: "(nat \<times> nat \<times> nat \<times> nat) reader" where
  "parse_mem_diff data r =
     res_bind (unpack 8 data r) (\<lambda>(start, r1).
     res_bind (unpack 4 data r1) (\<lambda>(n, r2).
     let cap = (if n < CHECK_MEM_CUT_AT then n else CHECK_MEM_CUT_AT)
     in res_bind (from_bytes cap data r2) (\<lambda>(val, r3).
     res_bind (unpack 4 data r3) (\<lambda>(checksum, r4). Inr ((start, n, val, checksum), r4)))))"

text \<open>A dict keeps the position of a key that is set again.\<close>

definition dict_of :: "('k \<times> 'v) list \<Rightarrow> ('k \<times> 'v) list" where
  "dict_of kvs = fold (\<lambda>(k, v) d. AList.update k v d) kvs []"

definition parse_meta :: "build \<Rightarrow> (nat option \<times> nat option) reader" where
  "parse_meta b data r =
     (if flag_META b
      then res_bind (unpack 2 data r) (\<lambda>(cycle_diff, r1).
             if arch b = RISCV64
             then res_bind (unpack 2 data r1) (\<lambda>(instret_diff, r2).
                    Inr ((Some cycle_diff, Some instret_diff), r2))
             else Inr ((Some cycle_diff, None), r1))
      else Inr ((None, None), r))"

definition parse_signal :: "nat \<Rightarrow> (nat \<times> nat \<times> nat) reader" where
  "parse_signal sig data r =
     (if sig \<noteq> 0
      then res_bind (unpack 8 data r) (\<lambda>(si_addr, r1).
           res_bind (unpack 8 data r1) (\<lambda>(si_pc, r2).
           res_bind (unpack 4 data r2) (\<lambda>(si_code, r3). Inr ((si_addr, si_pc, si_code), r3))))
      else Inr ((0, 0, 0), r))"

definition parse_mem :: "build \<Rightarrow> (nat \<times> nat \<times> nat \<times> nat) list option reader" where
  "parse_mem b data r =
     (if flag_CHECK_MEM b
      then res_bind (unpack 1 data r) (\<lambda>(mem_diffs_n, r1).
           res_bind (read_many mem_diffs_n parse_mem_diff data r1) (\<lambda>(mem_diffs, r2).
             Inr (Some mem_diffs, r2)))
      else Inr (None, r))"

definition parse_body :: "build \<Rightarrow> py_result reader" where
  "parse_body b data r =
     res_bind (unpack 1 data r) (\<lambda>(sig, r1).
     res_bind (parse_meta b data r1) (\<lambda>((cycle_diff, instret_diff), r2).
     res_bind (unpack 1 data r2) (\<lambda>(regs_diff, r3).
     res_bind (read_many regs_diff (parse_reg b) data r3) (\<lambda>(regs, r4).
     res_bind (parse_signal sig data r4) (\<lambda>((si_addr, si_pc, si_code), r5).
     res_bind (parse_mem b data r5) (\<lambda>(mem_diffs, r6).
       Inr (\<lparr>py_signum = sig, py_cycle_diff = cycle_diff, py_instret_diff = instret_diff,
             py_regs = dict_of regs, py_si_addr = si_addr, py_si_pc = si_pc, py_si_code = si_code,
             py_mem_diffs = mem_diffs\<rparr>, r6)))))))"

text \<open>
  \<open>parse_one_result\<close> parses \<^verbatim>\<open>data[r:]\<close>: \<open>None\<close> where nothing is left, and the process ends on
  a struct.error.
\<close>

definition parse_one_result :: "build \<Rightarrow> py_result option reader" where
  "parse_one_result b data r =
     (if drop r data = [] then Inr (None, r)
      else case parse_body b data r of
             Inl Struct_error \<Rightarrow> Inl (Os_exit 1)
           | Inl e \<Rightarrow> Inl e
           | Inr (x, r') \<Rightarrow> Inr (Some x, r'))"

datatype py_message = Single "py_result option" | Multi "py_result option list"

definition parse_one_result_full_seq :: "build \<Rightarrow> py_message reader" where
  "parse_one_result_full_seq b data r =
     res_bind (unpack 1 data r) (\<lambda>(seq_len, r1).
     res_bind (read_many seq_len (parse_one_result b) data r1) (\<lambda>(results, r2).
       Inr (Multi results, r2)))"

text \<open>One iteration of the loop of \<open>parse_results\<close>.\<close>

definition parse_message :: "build \<Rightarrow> py_message reader" where
  "parse_message b data aread =
     res_bind (unpack 1 data aread) (\<lambda>(tag, a1).
     res_bind (if tag = 1 then parse_one_result_full_seq b data a1
               else res_bind (parse_one_result b data a1) (\<lambda>(x, a2). Inr (Single x, a2)))
       (\<lambda>(result, a2).
          if result = Single None then Inl (Os_exit 1)
          else if a2 \<le> length data then Inr (result, a2) else Inl Assertion_error))"

section \<open>The contract of a reader\<close>

text \<open>A reader never moves backwards.\<close>

locale forward_reader =
  fixes dec :: "'a reader"
  assumes dec_mono: "dec data r = Inr (x, r') \<Longrightarrow> r \<le> r'"
begin

lemma read_many_mono: "read_many n dec data r = Inr (xs, r') \<Longrightarrow> r \<le> r'"
proof (induction n arbitrary: r xs)
  case (Suc n)
  then show ?case by (auto simp: res_bind_Inr_iff dest!: dec_mono intro: le_trans)
qed simp

end

lemma unpack_mono: "unpack n data r = Inr (x, r') \<Longrightarrow> r \<le> r'"
  and from_bytes_mono: "from_bytes n data r = Inr (x, r') \<Longrightarrow> r \<le> r'"
  by (auto simp: unpack_def from_bytes_def split: if_splits)

lemmas reader_monos = unpack_mono from_bytes_mono

interpretation parse_reg: forward_reader "parse_reg b" for b
  by unfold_locales
    (auto simp: parse_reg_def res_bind_Inr_iff Let_def split: if_splits dest!: reader_monos)

interpretation parse_mem_diff: forward_reader parse_mem_diff
  by unfold_locales
    (auto simp: parse_mem_diff_def res_bind_Inr_iff Let_def split: if_splits dest!: reader_monos)

interpretation parse_body: forward_reader "parse_body b" for b
  by unfold_locales
    (auto simp: parse_body_def parse_meta_def parse_signal_def parse_mem_def res_bind_Inr_iff
      split: if_splits dest!: reader_monos parse_reg.read_many_mono parse_mem_diff.read_many_mono)

interpretation parse_one_result: forward_reader "parse_one_result b" for b
  by unfold_locales
    (auto simp: parse_one_result_def split: if_splits sum.splits py_error.splits
      dest!: parse_body.dec_mono)

interpretation parse_one_result_full_seq: forward_reader "parse_one_result_full_seq b" for b
  by unfold_locales
    (auto simp: parse_one_result_full_seq_def res_bind_Inr_iff
      dest!: reader_monos parse_one_result.read_many_mono)

lemma parse_message_progress: "parse_message b data r = Inr (x, r') \<Longrightarrow> r < r' \<and> r' \<le> length data"
  by (auto simp: parse_message_def res_bind_Inr_iff unpack_def split: if_splits
      dest!: parse_one_result.dec_mono parse_one_result_full_seq.dec_mono)

text \<open>The loop of \<open>parse_results\<close>; every round reads at least the tag, so it ends.\<close>

function parse_results_from :: "build \<Rightarrow> u8 list \<Rightarrow> nat \<Rightarrow> py_error + py_message list" where
  "parse_results_from b data aread =
     (case parse_message b data aread of
        Inl e \<Rightarrow> Inl e
      | Inr (result, a2) \<Rightarrow>
          if a2 = length data then Inr [result]
          else res_bind (parse_results_from b data a2) (\<lambda>results. Inr (result # results)))"
  by pat_completeness auto
termination
  by (relation "measure (\<lambda>(b, data, aread). length data - aread)")
    (auto dest!: parse_message_progress)

declare parse_results_from.simps [simp del]

definition parse_results :: "build \<Rightarrow> u8 list \<Rightarrow> py_error + py_message list" where
  "parse_results b data = parse_results_from b data 0"

text \<open>The loop of the server that takes the next \<open>n\<close> results out of a batch.\<close>

fun extract_results :: "nat \<Rightarrow> u8 list reader" where
  "extract_results 0 data data_index = Inr ([], data_index)"
| "extract_results (Suc n) data data_index =
     res_bind (unpack 2 data data_index) (\<lambda>(result_bytes, i1).
     res_bind (extract_results n data (i1 + result_bytes)) (\<lambda>(d, i2).
       Inr (take result_bytes (drop i1 data) @ d, i2)))"

lemma drop_after:
  assumes "drop r data = xs @ rest"
  shows "drop (r + length xs) data = rest"
proof -
  have "drop (r + length xs) data = drop (length xs) (drop r data)" by (simp add: add.commute)
  then show ?thesis by (simp only: assms) simp
qed

lemma drop_append_length:
  assumes "drop r data = xs @ rest" and "xs \<noteq> []"
  shows "r + length xs \<le> length data"
proof -
  from assms(1) have "length data - r = length xs + length rest"
    by (metis length_append length_drop)
  moreover have "0 < length xs" using assms(2) by simp
  ultimately show ?thesis by linarith
qed

lemma unpack_at:
  assumes at: "drop r data = xs @ rest" and len: "length xs = n" and "0 < n"
  shows "unpack n data r = Inr (le_load xs, r + n)"
proof -
  have "r + n \<le> length data" using drop_append_length [OF at] len assms(3) by fastforce
  moreover have "take n (drop r data) = xs" unfolding at using len by simp
  ultimately show ?thesis by (simp add: unpack_def)
qed

lemma from_bytes_at:
  assumes "drop r data = xs @ rest" and "length xs = n"
  shows "from_bytes n data r = Inr (le_load xs, r + n)"
  using assms by (simp add: from_bytes_def)

section \<open>The contract of writer and reader\<close>

text \<open>
  Reading at the position of an encoded value gives its view and moves behind it, whatever
  follows.
\<close>

locale codec =
  fixes enc :: "'a \<Rightarrow> u8 list" and dec :: "'b reader" and view :: "'a \<Rightarrow> 'b" and ok :: "'a \<Rightarrow> bool"
  assumes dec_enc: "ok x \<Longrightarrow> drop r data = enc x @ rest \<Longrightarrow> dec data r = Inr (view x, r + length (enc x))"
begin

lemma read_many_enc:
  "list_all ok xs \<Longrightarrow> drop r data = concat (map enc xs) @ rest \<Longrightarrow>
     read_many (length xs) dec data r = Inr (map view xs, r + length (concat (map enc xs)))"
proof (induction xs arbitrary: r)
  case (Cons x xs)
  from Cons.prems have here: "drop r data = enc x @ concat (map enc xs) @ rest" by simp
  with Cons drop_after [OF here] show ?case by (simp add: dec_enc [OF _ here])
qed simp

end

text \<open>A field of fixed size, and a register entry, on their own.\<close>

interpretation field: codec "le_store n" "unpack n" "\<lambda>x. x" "\<lambda>x. 0 < n \<and> x < 256 ^ n" for n
  by unfold_locales (simp add: unpack_at le_load_store)

lemma unat_256: "unat (w :: u16) < 256 ^ 2" "unat (x :: u32) < 256 ^ 4" "unat (y :: u64) < 256 ^ 8"
  using unat_bounds(2) [of w] unat_bounds(3) [of x] unat_bounds(4) [of y] by simp_all

definition entry_ok :: "build \<Rightarrow> u8 \<times> u8 list \<Rightarrow> bool" where
  "entry_ok b e \<longleftrightarrow>
     unat (fst e) < length (regs_mapping b) \<and>
     length (snd e) = (if is_vec_name (regs_mapping b ! unat (fst e)) then VEC_REG_SIZE else 8)"

definition entry_view :: "build \<Rightarrow> u8 \<times> u8 list \<Rightarrow> string \<times> nat" where
  "entry_view b e = (regs_mapping b ! unat (fst e), le_load (snd e))"

interpretation entry: codec pack_entry "parse_reg b" "entry_view b" "entry_ok b" for b
proof unfold_locales
  fix e r data rest
  assume ok: "entry_ok b e" and at: "drop r data = pack_entry e @ rest"
  then have at0: "drop r data = [fst e] @ snd e @ rest" by (simp add: pack_entry_def)
  have "unpack 1 data r = Inr (unat (fst e), r + 1)"
    using unpack_at [OF at0, of 1] by simp
  moreover note at1 = drop_after [OF at0, simplified]
  have "(if is_vec_name (regs_mapping b ! unat (fst e)) then from_bytes VEC_REG_SIZE data (r + 1)
         else unpack 8 data (r + 1)) = Inr (le_load (snd e), r + 1 + length (snd e))"
    using ok unpack_at [of "r + 1" data "snd e" rest 8] from_bytes_at [of "r + 1" data "snd e" rest 16]
      at1 by (simp add: entry_ok_def)
  ultimately show "parse_reg b data r = Inr (entry_view b e, r + length (pack_entry e))"
    using ok
    by (cases "is_vec_name (regs_mapping b ! unat (fst e))")
      (simp_all add: parse_reg_def entry_view_def pack_entry_def entry_ok_def Let_def)
qed

definition mem_view :: "mem_change \<Rightarrow> nat \<times> nat \<times> nat \<times> nat" where
  "mem_view c =
     (unat (mc_start c), unat (mc_n c), le_load (take (n_cap (mc_n c)) (mc_val c)),
      unat (mc_checksum c))"

interpretation mem: codec pack_mem_change parse_mem_diff mem_view wf_mem_change
proof unfold_locales
  fix c r data rest
  assume wf: "wf_mem_change c" and at: "drop r data = pack_mem_change c @ rest"
  let ?v = "take (n_cap (mc_n c)) (mc_val c)"
  have len: "length ?v = n_cap (mc_n c)" using wf by (simp add: wf_mem_change_def n_cap_def)
  from at have at0: "drop r data =
      le_store 8 (unat (mc_start c)) @ le_store 4 (unat (mc_n c)) @ ?v @
      le_store 4 (unat (mc_checksum c)) @ rest"
    by (simp add: pack_mem_change_def)
  note at1 = drop_after [OF at0, simplified length_le_store]
  note at2 = drop_after [OF at1, simplified length_le_store]
  note at3 = drop_after [OF at2, unfolded len]
  have "unpack 8 data r = Inr (unat (mc_start c), r + 8)"
    "unpack 4 data (r + 8) = Inr (unat (mc_n c), r + 8 + 4)"
    "unpack 4 data (r + 8 + 4 + n_cap (mc_n c)) =
       Inr (unat (mc_checksum c), r + 8 + 4 + n_cap (mc_n c) + 4)"
    using field.dec_enc [OF _ at0] field.dec_enc [OF _ at1] field.dec_enc [OF _ at3] unat_256
    by simp_all
  moreover have "from_bytes (n_cap (mc_n c)) data (r + 8 + 4) =
      Inr (le_load ?v, r + 8 + 4 + n_cap (mc_n c))"
    by (rule from_bytes_at [OF at2 len])
  ultimately show "parse_mem_diff data r = Inr (mem_view c, r + length (pack_mem_change c))"
    by (simp add: parse_mem_diff_def Let_def mem_view_def pack_mem_change_def len
        del: length_take flip: n_cap_def)
qed

section \<open>What the register entries say\<close>

text \<open>The cells of a snapshot, numbered as the server numbers registers.\<close>

abbreviation (input) st8 :: "u64 \<Rightarrow> u8 list" where "st8 w \<equiv> le_store 8 (unat w)"

definition regs_cells :: "build \<Rightarrow> regs \<Rightarrow> u8 list list" where
  "regs_cells b r =
     map st8 (gp r)
     @ (case arch b of
          RISCV64 \<Rightarrow> (if flag_FLOATS b then [st8 (fcsr r)] else [])
        | AARCH64 \<Rightarrow> [st8 (pstate r)] @ (if flag_FLOATS b \<or> flag_VECTOR b then [st8 (fpsr r)] else []))
     @ (if flag_FLOATS b then map st8 (fp r) else [])
     @ (if flag_VECTOR b then vec r else [])"

definition changed_regs :: "build \<Rightarrow> regs \<Rightarrow> regs \<Rightarrow> (string \<times> nat) list" where
  "changed_regs b before after =
     map (\<lambda>i. (regs_mapping b ! i, le_load (regs_cells b after ! i)))
       (filter (\<lambda>i. regs_cells b before ! i \<noteq> regs_cells b after ! i) [0..<length (regs_mapping b)])"

definition changed_from :: "nat \<Rightarrow> 'a list \<Rightarrow> 'a list \<Rightarrow> (nat \<times> 'a) list" where
  "changed_from base xs ys =
     map (\<lambda>i. (i + base, ys ! i)) (filter (\<lambda>i. xs ! i \<noteq> ys ! i) [0..<length xs])"

lemma changed_from_Nil [simp]: "changed_from base [] ys = []"
  by (simp add: changed_from_def)

lemma changed_from_append:
  assumes "length xs = length xs'"
  shows "changed_from base (xs @ ys) (xs' @ ys') =
           changed_from base xs xs' @ changed_from (base + length xs) ys ys'"
proof -
  have "[0..<length (xs @ ys)] = [0..<length xs] @ map (\<lambda>i. i + length xs) [0..<length ys]"
    using upt_add_eq_append [of 0 "length xs" "length ys"] by (simp add: map_add_upt add.commute)
  moreover have "filter (\<lambda>i. (xs @ ys) ! i \<noteq> (xs' @ ys') ! i) [0..<length xs] =
      filter (\<lambda>i. xs ! i \<noteq> xs' ! i) [0..<length xs]"
    using assms by (intro filter_cong) (auto simp: nth_append)
  ultimately show ?thesis
    using assms
    by (auto simp: changed_from_def filter_map o_def nth_append ac_simps)
qed

lemma changed_from_Cons [simp]:
  "changed_from base (x # xs) (y # ys) =
     (if x \<noteq> y then [(base, y)] else []) @ changed_from (Suc base) xs ys"
  using changed_from_append [of "[x]" "[y]" base xs ys] by (simp add: changed_from_def)

lemma changed_from_map:
  assumes "length xs = length ys" and "inj f"
  shows "changed_from base (map f xs) (map f ys) = map (\<lambda>(i, y). (i, f y)) (changed_from base xs ys)"
proof -
  have "filter (\<lambda>i. map f xs ! i \<noteq> map f ys ! i) [0..<length xs] =
        filter (\<lambda>i. xs ! i \<noteq> ys ! i) [0..<length xs]"
    using assms by (intro filter_cong) (auto simp: inj_eq)
  with assms show ?thesis by (auto simp: changed_from_def)
qed

lemma inj_st8: "inj (\<lambda>w :: u64. st8 w)"
  by (rule injI) simp

lemma length_regs_cells:
  "valid_build b \<Longrightarrow> wf_regs b r \<Longrightarrow> length (regs_cells b r) = length (regs_mapping b)"
  by (cases "arch b"; cases "flag_FLOATS b"; cases "flag_VECTOR b")
    (simp_all add: regs_cells_def length_regs_mapping wf_regs_def valid_build_def)

lemma concat_regs_cells: "valid_build b \<Longrightarrow> concat (regs_cells b r) = regs_image b r"
  by (cases "arch b"; cases "flag_FLOATS b"; cases "flag_VECTOR b")
    (simp_all add: regs_cells_def regs_image_def le_words_def valid_build_def comp_def)

lemma loop_gp_entries:
  "wf_regs b before \<Longrightarrow> wf_regs b after \<Longrightarrow>
     map reg_entry (loop_over_gp_diff b before after) =
     map (\<lambda>(i, v). (of_nat i, v)) (changed_from 0 (map st8 (gp before)) (map st8 (gp after)))"
  by (subst changed_from_map [OF _ inj_st8])
    (auto simp: loop_over_gp_diff_def reg_entry_def changed_from_def wf_regs_def)

lemma fp_u_fp: "valid_build b \<Longrightarrow> flag_FLOATS b \<Longrightarrow> fp_u b r i = fp r ! i"
  by (auto simp: fp_u_def valid_build_def split: arch.splits)

lemma loop_fp_entries:
  "valid_build b \<Longrightarrow> flag_FLOATS b \<Longrightarrow> wf_regs b before \<Longrightarrow> wf_regs b after \<Longrightarrow>
     map reg_entry (loop_over_fp_diff b before after) =
     map (\<lambda>(i, v). (of_nat i, v))
       (changed_from (getabiindex b ''fp'') (map st8 (fp before)) (map st8 (fp after)))"
  by (subst changed_from_map [OF _ inj_st8])
    (auto simp: loop_over_fp_diff_def reg_entry_def changed_from_def wf_regs_def fp_u_fp)

lemma loop_vec_entries:
  "flag_VECTOR b \<Longrightarrow> wf_regs b before \<Longrightarrow> wf_regs b after \<Longrightarrow>
     map (\<lambda>(abi_i, _, after). (of_nat abi_i, after)) (loop_over_vector_regs_diff b before after) =
     map (\<lambda>(i, v). (of_nat i, v)) (changed_from (getabiindex b ''vec'') (vec before) (vec after))"
  by (auto simp: loop_over_vector_regs_diff_def changed_from_def wf_regs_def)

lemma diff_entries_changed:
  assumes "valid_build b" and wf: "wf_regs b before" "wf_regs b after"
  shows "diff_entries b before after =
           map (\<lambda>(i, v). (of_nat i, v)) (changed_from 0 (regs_cells b before) (regs_cells b after))"
proof -
  have "length (gp before) = gp_count b" "length (gp after) = gp_count b"
    "flag_FLOATS b \<Longrightarrow> length (fp before) = 32" "flag_FLOATS b \<Longrightarrow> length (fp after) = 32"
    "flag_VECTOR b \<Longrightarrow> length (vec before) = 32" "flag_VECTOR b \<Longrightarrow> length (vec after) = 32"
    using wf by (simp_all add: wf_regs_def)
  then show ?thesis
    using assms
    by (cases "arch b"; cases "flag_FLOATS b"; cases "flag_VECTOR b")
      (simp_all add: diff_entries_def loop_gp_entries loop_fp_entries loop_vec_entries regs_cells_def
        changed_from_append status_entry_def valid_build_def)
qed

lemma length_regs_mapping_le: "length (regs_mapping b) \<le> 96"
  by (simp add: length_regs_mapping split: arch.split)

lemma length_regs_cell:
  assumes b: "valid_build b" and wf: "wf_regs b r" and i: "i < length (regs_mapping b)"
  shows "length (regs_cells b r ! i) = (if is_vec_name (regs_mapping b ! i) then VEC_REG_SIZE else 8)"
proof -
  obtain base where base: "regs_cells b r = base @ (if flag_VECTOR b then vec r else [])"
    "\<forall>c \<in> set base. length c = 8" "flag_VECTOR b \<longrightarrow> length base = getabiindex b ''vec''"
  proof
    let ?base = "map st8 (gp r)
     @ (case arch b of
          RISCV64 \<Rightarrow> (if flag_FLOATS b then [st8 (fcsr r)] else [])
        | AARCH64 \<Rightarrow> [st8 (pstate r)] @ (if flag_FLOATS b \<or> flag_VECTOR b then [st8 (fpsr r)] else []))
     @ (if flag_FLOATS b then map st8 (fp r) else [])"
    show "regs_cells b r = ?base @ (if flag_VECTOR b then vec r else [])"
      by (simp add: regs_cells_def)
    show "\<forall>c \<in> set ?base. length c = 8" by (auto split: arch.split)
    show "flag_VECTOR b \<longrightarrow> length ?base = getabiindex b ''vec''"
      using b wf by (cases "arch b"; cases "flag_FLOATS b")
        (simp_all add: wf_regs_def valid_build_def)
  qed
  have "i < length (regs_cells b r)" using i length_regs_cells [OF b wf] by simp
  with base wf show ?thesis
    unfolding is_vec_name_mapping [OF b i]
    by (cases "i < length base") (auto simp: nth_append wf_regs_def)
qed

lemma update_new: "k \<notin> fst ` set d \<Longrightarrow> AList.update k v d = d @ [(k, v)]"
  by (induction d) auto

lemma dict_of_distinct: "distinct (map fst kvs) \<Longrightarrow> dict_of kvs = kvs"
proof -
  have "distinct (map fst (d @ kvs)) \<Longrightarrow> fold (\<lambda>(k, v) d. AList.update k v d) kvs d = d @ kvs" for d
  proof (induction kvs arbitrary: d)
    case (Cons kv kvs)
    then show ?case using Cons.IH [of "d @ [kv]"] by (cases kv) (auto simp: update_new)
  qed simp
  from this [of "[]"] show "distinct (map fst kvs) \<Longrightarrow> dict_of kvs = kvs"
    by (simp add: dict_of_def)
qed

lemma unat_of_nat_u8: "n < 256 \<Longrightarrow> unat (of_nat n :: u8) = n"
  by (simp add: unat_of_nat)

lemma diff_entries_facts:
  assumes b: "valid_build b" and wf: "wf_regs b before" "wf_regs b after"
  shows "list_all (entry_ok b) (diff_entries b before after)"
    and "map (entry_view b) (diff_entries b before after) = changed_regs b before after"
    and "length (diff_entries b before after) \<le> 96"
proof -
  note len = length_regs_cells [OF b wf(1)] length_regs_cells [OF b wf(2)]
  have small: "i < length (regs_mapping b) \<Longrightarrow> unat (of_nat i :: u8) = i" for i
    using length_regs_mapping_le [of b] by (intro unat_of_nat_u8) simp
  show "list_all (entry_ok b) (diff_entries b before after)"
    unfolding diff_entries_changed [OF b wf]
    by (auto simp: list_all_iff changed_from_def entry_ok_def len small length_regs_cell [OF b wf(2)])
  show "map (entry_view b) (diff_entries b before after) = changed_regs b before after"
    unfolding diff_entries_changed [OF b wf] changed_regs_def
    by (auto simp: changed_from_def entry_view_def len small)
  show "length (diff_entries b before after) \<le> 96"
    unfolding diff_entries_changed [OF b wf]
    using length_filter_le [of _ "[0..<length (regs_mapping b)]"] length_regs_mapping_le [of b]
    by (auto simp: changed_from_def len intro: le_trans)
qed

lemma distinct_changed_regs: "distinct (map fst (changed_regs b before after))"
proof -
  have "inj_on ((!) (regs_mapping b)) {0..<length (regs_mapping b)}"
    using distinct_regs_mapping by (auto simp: inj_on_def nth_eq_iff_index_eq)
  then show ?thesis
    by (auto simp: changed_regs_def o_def distinct_map intro: inj_on_subset)
qed

section \<open>Whole results\<close>

definition result_view :: "build \<Rightarrow> regs \<Rightarrow> result \<Rightarrow> py_result" where
  "result_view b before r =
     \<lparr>py_signum = unat (signum r),
      py_cycle_diff = (if flag_META b then Some (unat (meta_cycle r) mod 2 ^ 16) else None),
      py_instret_diff = (if flag_META b \<and> arch b = RISCV64
                         then Some (unat (meta_instret r) mod 2 ^ 16) else None),
      py_regs = changed_regs b before (regs_result r),
      py_si_addr = (if signum r \<noteq> 0 then unat (si_addrr r) else 0),
      py_si_pc = (if signum r \<noteq> 0 then unat (si_pc r) else 0),
      py_si_code = (if signum r \<noteq> 0 then unat (si_code r) else 0),
      py_mem_diffs = (if flag_CHECK_MEM b then Some (map mem_view (mem_changes r)) else None)\<rparr>"

text \<open>
  What a result the runner returns satisfies: a signal number of a byte, whole register banks, at
  most the configured number of changes, and value buffers of the declared size.
\<close>

definition wf_result :: "build \<Rightarrow> result \<Rightarrow> bool" where
  "wf_result b r \<longleftrightarrow>
     unat (signum r) < 256 \<and> wf_regs b (regs_result r) \<and>
     length (mem_changes r) \<le> CHECK_MEM_MAX_NUMBER_MEM_CHANGES b \<and>
     list_all wf_mem_change (mem_changes r)"

lemma mem_changes_max: "wf_result b r \<Longrightarrow> length (mem_changes r) \<le> 100"
  by (auto simp: wf_result_def CHECK_MEM_MAX_NUMBER_MEM_CHANGES_def split: arch.splits)

interpretation meta: codec "pack_meta b" "parse_meta b"
    "\<lambda>r. (py_cycle_diff (result_view b before r), py_instret_diff (result_view b before r))"
    "\<lambda>r. True" for b before
proof unfold_locales
  fix x r data rest
  assume at: "drop r data = pack_meta b x @ rest"
  show "parse_meta b data r =
      Inr ((py_cycle_diff (result_view b before x), py_instret_diff (result_view b before x)),
           r + length (pack_meta b x))"
  proof (cases "flag_META b")
    case True
    have pos: "(0 :: nat) < 2" by simp
    from at True have at0: "drop r data = le_store 2 (unat (meta_cycle x)) @
        (if arch b = RISCV64 then le_store 2 (unat (meta_instret x)) else []) @ rest"
      by (simp add: pack_meta_def)
    note at1 = drop_after [OF at0, simplified length_le_store]
    show ?thesis
      using unpack_at [OF at0 length_le_store pos] at1 True
        unpack_at [of "r + 2" data "le_store 2 (unat (meta_instret x))" rest 2]
      by (auto simp: parse_meta_def pack_meta_def result_view_def le_load_store)
  qed (simp add: parse_meta_def pack_meta_def result_view_def)
qed

lemma parse_signal_at:
  assumes at: "drop r data = pack_signal x @ rest" and sig: "unat (signum x) < 256"
  shows "parse_signal (unat (ucast (signum x) :: u8)) data r =
           Inr ((py_si_addr (result_view b before x), py_si_pc (result_view b before x),
                 py_si_code (result_view b before x)), r + length (pack_signal x))"
proof -
  have sig8: "unat (ucast (signum x) :: u8) = unat (signum x)"
    using sig by (simp add: unsigned_ucast_eq take_bit_nat_eq_self)
  show ?thesis
  proof (cases "signum x = 0")
    case False
    then have nz: "unat (signum x) \<noteq> 0" by (simp add: unat_eq_zero)
    from at False have at0: "drop r data =
        le_store 8 (unat (si_addrr x)) @ le_store 8 (unat (si_pc x)) @ le_store 4 (unat (si_code x)) @ rest"
      by (simp add: pack_signal_def)
    note at1 = drop_after [OF at0, simplified length_le_store]
    note at2 = drop_after [OF at1, simplified length_le_store]
    have "unpack 8 data r = Inr (unat (si_addrr x), r + 8)"
      "unpack 8 data (r + 8) = Inr (unat (si_pc x), r + 8 + 8)"
      "unpack 4 data (r + 8 + 8) = Inr (unat (si_code x), r + 8 + 8 + 4)"
      using field.dec_enc [OF _ at0] field.dec_enc [OF _ at1] field.dec_enc [OF _ at2] unat_256
      by simp_all
    with False nz show ?thesis
      by (simp add: parse_signal_def pack_signal_def result_view_def sig8)
  qed (simp add: parse_signal_def pack_signal_def result_view_def sig8)
qed

interpretation mem_list: codec "pack_mem b" "parse_mem b"
    "\<lambda>r. py_mem_diffs (result_view b before r)" "wf_result b" for b before
proof unfold_locales
  fix x r data rest
  assume wf: "wf_result b x" and at: "drop r data = pack_mem b x @ rest"
  show "parse_mem b data r =
      Inr (py_mem_diffs (result_view b before x), r + length (pack_mem b x))"
  proof (cases "flag_CHECK_MEM b")
    case True
    let ?n = "of_nat (length (mem_changes x)) :: u8"
    have n: "unat ?n = length (mem_changes x)"
      using mem_changes_max [OF wf] by (intro unat_of_nat_u8) simp
    from at True have at0: "drop r data = [?n] @ concat (map pack_mem_change (mem_changes x)) @ rest"
      by (simp add: pack_mem_def)
    note at1 = drop_after [OF at0, simplified]
    have "unpack 1 data r = Inr (length (mem_changes x), r + 1)"
      using unpack_at [OF at0, of 1] by (simp add: n)
    moreover have "read_many (length (mem_changes x)) parse_mem_diff data (r + 1) =
        Inr (map mem_view (mem_changes x),
             r + 1 + length (concat (map pack_mem_change (mem_changes x))))"
      using at1 wf by (intro mem.read_many_enc) (simp_all add: wf_result_def)
    ultimately show ?thesis using True
      by (simp add: parse_mem_def pack_mem_def result_view_def)
  qed (simp add: parse_mem_def pack_mem_def result_view_def)
qed

definition result_ok :: "build \<Rightarrow> regs \<Rightarrow> result \<Rightarrow> bool" where
  "result_ok b before r \<longleftrightarrow> valid_build b \<and> wf_regs b before \<and> wf_result b r"

interpretation body: codec "\<lambda>r. pack_inner_result b r before" "parse_body b"
    "result_view b before" "result_ok b before" for b before
proof unfold_locales
  fix x r data rest
  assume ok: "result_ok b before x" and at: "drop r data = pack_inner_result b x before @ rest"
  let ?es = "diff_entries b before (regs_result x)"
  have wf: "valid_build b" "wf_regs b before" "wf_regs b (regs_result x)" "wf_result b x"
    "unat (signum x) < 256"
    using ok by (simp_all add: result_ok_def wf_result_def)
  note es = diff_entries_facts [OF wf(1,2,3)]
  have n: "unat (of_nat (length ?es) :: u8) = length ?es"
    using es(3) by (intro unat_of_nat_u8) simp
  have sig8: "unat (ucast (signum x) :: u8) = unat (signum x)"
    using wf(5) by (simp add: unsigned_ucast_eq take_bit_nat_eq_self)
  from at have at0: "drop r data = [ucast (signum x)] @ pack_meta b x @ [of_nat (length ?es)] @
      concat (map pack_entry ?es) @ pack_signal x @ pack_mem b x @ rest"
    by (simp add: pack_inner_result_def Let_def)
  note at1 = drop_after [OF at0]
  note at2 = drop_after [OF at1]
  note at3 = drop_after [OF at2]
  note at4 = drop_after [OF at3]
  note at5 = drop_after [OF at4]
  note reads = unpack_at [OF at0, of 1, simplified] meta.dec_enc [OF TrueI at1, of before, simplified]
    unpack_at [OF at2, of 1, simplified]
    entry.read_many_enc [OF es(1) at3, simplified es(2)] parse_signal_at [OF at4 wf(5), of b before]
    mem_list.dec_enc [OF wf(4) at5, of before]
  have "dict_of (changed_regs b before (regs_result x)) = changed_regs b before (regs_result x)"
    by (intro dict_of_distinct distinct_changed_regs)
  moreover have "result_view b before x = \<lparr>py_signum = unat (signum x),
      py_cycle_diff = py_cycle_diff (result_view b before x),
      py_instret_diff = py_instret_diff (result_view b before x),
      py_regs = changed_regs b before (regs_result x),
      py_si_addr = py_si_addr (result_view b before x), py_si_pc = py_si_pc (result_view b before x),
      py_si_code = py_si_code (result_view b before x),
      py_mem_diffs = py_mem_diffs (result_view b before x)\<rparr>"
    by (simp add: result_view_def)
  moreover have "r + length (pack_inner_result b x before) =
      r + 1 + length (pack_meta b x) + 1 + length (concat (map pack_entry ?es)) +
      length (pack_signal x) + length (pack_mem b x)"
    by (simp add: pack_inner_result_def Let_def)
  ultimately show "parse_body b data r =
      Inr (result_view b before x, r + length (pack_inner_result b x before))"
    using reads by (simp add: parse_body_def n sig8)
qed

interpretation one_result: codec "\<lambda>r. pack_inner_result b r before" "parse_one_result b"
    "\<lambda>r. Some (result_view b before r)" "result_ok b before" for b before
proof unfold_locales
  fix x r data rest
  assume ok: "result_ok b before x" and at: "drop r data = pack_inner_result b x before @ rest"
  have "drop r data \<noteq> []" unfolding at by (simp add: pack_inner_result_def Let_def)
  with body.dec_enc [OF ok at] show "parse_one_result b data r =
      Inr (Some (result_view b before x), r + length (pack_inner_result b x before))"
    by (simp add: parse_one_result_def)
qed

text \<open>
  What the client packs for one input: its initial registers and one result, or one per prefix of
  the sequence.
\<close>

datatype outcome = One result | Prefixes "result list"

definition outcome_body :: "build \<Rightarrow> regs \<times> outcome \<Rightarrow> u8 list" where
  "outcome_body b m = (case snd m of
     One r \<Rightarrow> RESULT_TAG_SINGLE # pack_inner_result b r (fst m)
   | Prefixes rs \<Rightarrow> RESULT_TAG_MULTI # of_nat (length rs) #
       concat (map (\<lambda>r. pack_inner_result b r (fst m)) rs))"

definition pack_outcome :: "build \<Rightarrow> regs \<times> outcome \<Rightarrow> u8 list res" where
  "pack_outcome b m = (case snd m of
     One r \<Rightarrow> pack_result b r (fst m) | Prefixes rs \<Rightarrow> pack_results b rs (fst m))"

definition outcome_view :: "build \<Rightarrow> regs \<times> outcome \<Rightarrow> py_message" where
  "outcome_view b m = (case snd m of
     One r \<Rightarrow> Single (Some (result_view b (fst m) r))
   | Prefixes rs \<Rightarrow> Multi (map (\<lambda>r. Some (result_view b (fst m) r)) rs))"

definition outcome_ok :: "build \<Rightarrow> regs \<times> outcome \<Rightarrow> bool" where
  "outcome_ok b m = (case snd m of
     One r \<Rightarrow> result_ok b (fst m) r
   | Prefixes rs \<Rightarrow> length rs < 256 \<and> list_all (result_ok b (fst m)) rs)"

lemma pack_outcome_framed: "pack_outcome b m = pack_framed (outcome_body b m)"
  by (simp add: pack_outcome_def outcome_body_def pack_result_def pack_results_def split: outcome.split)

lemma outcome_body_nonempty [simp]: "outcome_body b m \<noteq> []"
  by (simp add: outcome_body_def split: outcome.split)

interpretation message: codec "outcome_body b" "parse_message b" "outcome_view b" "outcome_ok b" for b
proof unfold_locales
  fix m r data rest
  assume ok: "outcome_ok b m" and at: "drop r data = outcome_body b m @ rest"
  note fits = drop_append_length [OF at outcome_body_nonempty]
  show "parse_message b data r = Inr (outcome_view b m, r + length (outcome_body b m))"
  proof (cases "snd m")
    case (One x)
    with at have at0: "drop r data = [0] @ pack_inner_result b x (fst m) @ rest"
      by (simp add: outcome_body_def)
    note at1 = drop_after [OF at0]
    have "result_ok b (fst m) x" using ok One by (simp add: outcome_ok_def)
    from unpack_at [OF at0, of 1, simplified] one_result.dec_enc [OF this at1] fits show ?thesis
      by (simp add: parse_message_def outcome_view_def outcome_body_def One)
  next
    case (Prefixes rs)
    let ?bs = "concat (map (\<lambda>r. pack_inner_result b r (fst m)) rs)"
    from Prefixes at have at0: "drop r data = [1] @ [of_nat (length rs)] @ ?bs @ rest"
      by (simp add: outcome_body_def)
    note at1 = drop_after [OF at0]
    note at2 = drop_after [OF at1]
    have rs: "list_all (result_ok b (fst m)) rs" "length rs < 256"
      using ok Prefixes by (simp_all add: outcome_ok_def)
    have "parse_one_result_full_seq b data (r + 1) =
        Inr (outcome_view b m, r + length (outcome_body b m))"
      using unpack_at [OF at1, of 1, simplified] one_result.read_many_enc [OF rs(1) at2]
        unat_of_nat_u8 [OF rs(2)]
      by (simp add: parse_one_result_full_seq_def outcome_view_def outcome_body_def Prefixes)
    with unpack_at [OF at0, of 1, simplified] fits show ?thesis
      by (simp add: parse_message_def outcome_view_def Prefixes)
  qed
qed

lemma parse_results_from_at:
  "ms \<noteq> [] \<Longrightarrow> list_all (outcome_ok b) ms \<Longrightarrow> drop r data = concat (map (outcome_body b) ms) \<Longrightarrow>
     parse_results_from b data r = Inr (map (outcome_view b) ms)"
proof (induction ms arbitrary: r)
  case (Cons m ms)
  let ?r = "r + length (outcome_body b m)"
  from Cons.prems have at: "drop r data = outcome_body b m @ concat (map (outcome_body b) ms)" by simp
  have msg: "parse_message b data r = Inr (outcome_view b m, ?r)"
    using Cons.prems(2) by (intro message.dec_enc [OF _ at]) simp
  note at1 = drop_after [OF at]
  have fits: "?r \<le> length data" by (rule drop_append_length [OF at outcome_body_nonempty])
  show ?case
  proof (cases ms)
    case Nil
    with at1 fits have "?r = length data" by simp
    with msg Nil show ?thesis by (subst parse_results_from.simps) simp
  next
    case (Cons m' ms')
    then have "drop ?r data \<noteq> []" unfolding at1 by simp
    then have "?r \<noteq> length data" by auto
    with msg Cons Cons.IH [OF _ _ at1] Cons.prems(2) show ?thesis
      by (subst parse_results_from.simps) simp
  qed
qed simp

definition framed :: "u8 list \<Rightarrow> u8 list" where
  "framed bs = le_store 2 (length bs) @ bs"

lemma pack_framed_fits: "length bs \<le> UINT16_MAX \<Longrightarrow> pack_framed bs = Inr (framed bs)"
  by (simp add: pack_framed_def framed_def)

lemma extract_results_at:
  "\<forall>bs \<in> set bss. length bs \<le> UINT16_MAX \<Longrightarrow> drop i data = concat (map framed bss) @ rest \<Longrightarrow>
     extract_results (length bss) data i = Inr (concat bss, i + length (concat (map framed bss)))"
proof (induction bss arbitrary: i)
  case (Cons bs bss)
  from Cons.prems(2) have at0: "drop i data = le_store 2 (length bs) @ bs @ concat (map framed bss) @ rest"
    by (simp add: framed_def [of bs])
  note at1 = drop_after [OF at0, simplified length_le_store]
  note at2 = drop_after [OF at1]
  have len: "length bs < 256 ^ 2" using Cons.prems(1) by simp
  have "unpack 2 data i = Inr (length bs, i + 2)"
    using field.dec_enc [OF _ at0] len by simp
  moreover have "take (length bs) (drop (i + 2) data) = bs" unfolding at1 by simp
  ultimately show ?case
    using Cons.IH [OF _ at2] Cons.prems(1) by (simp add: framed_def [of bs])
qed simp

section \<open>Sizes\<close>

lemma length_regs_image: "valid_build b \<Longrightarrow> wf_regs b r \<Longrightarrow> length (regs_image b r) \<le> 1024"
proof -
  assume b: "valid_build b" and wf: "wf_regs b r"
  have "flag_VECTOR b \<Longrightarrow> length (concat (vec r)) = 512"
  proof -
    assume "flag_VECTOR b"
    with wf have "length (vec r) = 32" "\<forall>v \<in> set (vec r). length v = 16" by (simp_all add: wf_regs_def)
    then show "length (concat (vec r)) = 512"
      by (simp add: length_concat sum_list_triv cong: map_cong)
  qed
  with b wf show ?thesis
    by (cases "arch b"; cases "flag_FLOATS b"; cases "flag_VECTOR b")
      (simp_all add: regs_image_def wf_regs_def valid_build_def)
qed

lemma length_packed_entries:
  assumes b: "valid_build b" and wf: "wf_regs b before" "wf_regs b after"
  shows "length (concat (map pack_entry (diff_entries b before after))) \<le> 1120"
proof -
  let ?c = "regs_cells b after" and ?n = "length (regs_mapping b)"
  let ?sz = "\<lambda>i. Suc (length (?c ! i))"
  have "length (concat (map pack_entry (diff_entries b before after))) =
      sum_list (map ?sz (filter (\<lambda>i. regs_cells b before ! i \<noteq> ?c ! i) [0..<?n]))"
    by (simp add: diff_entries_changed [OF b wf] changed_from_def length_concat o_def pack_entry_def
        length_regs_cells [OF b wf(1)])
  also have "\<dots> \<le> sum_list (map ?sz [0..<?n])" by (rule sum_list_filter_le_nat)
  also have "\<dots> = ?n + length (concat ?c)"
  proof -
    have "map (\<lambda>i. length (?c ! i)) [0..<length ?c] = map length ?c"
      by (rule nth_equalityI) simp_all
    then have "map (\<lambda>i. length (?c ! i)) [0..<?n] = map length ?c"
      by (simp only: length_regs_cells [OF b wf(2)])
    then show ?thesis
      by (simp add: length_concat sum_list_Suc)
  qed
  also have "\<dots> \<le> 1120"
    using length_regs_mapping_le [of b] length_regs_image [OF b wf(2)]
    by (simp add: concat_regs_cells [OF b])
  finally show ?thesis .
qed

lemma length_pack_mem: "wf_result b r \<Longrightarrow> length (pack_mem b r) \<le> 3201"
proof -
  assume wf: "wf_result b r"
  have "length (pack_mem_change c) \<le> 32" for c
    by (auto simp: pack_mem_change_def n_cap_def)
  then have "sum_list (map (\<lambda>c. length (pack_mem_change c)) (mem_changes r)) \<le>
      sum_list (map (\<lambda>c. 32) (mem_changes r))"
    by (intro sum_list_mono) simp
  also have "\<dots> \<le> 3200" using mem_changes_max [OF wf] by (simp add: sum_list_triv)
  finally show ?thesis by (simp add: pack_mem_def length_concat o_def)
qed

lemma length_pack_inner_result:
  assumes "result_ok b before r"
  shows "length (pack_inner_result b r before) \<le> 4347"
proof -
  have "length (pack_meta b r) \<le> 4" "length (pack_signal r) \<le> 20"
    by (simp_all add: pack_meta_def pack_signal_def)
  moreover have "length (concat (map pack_entry (diff_entries b before (regs_result r)))) \<le> 1120"
    "length (pack_mem b r) \<le> 3201"
    using assms by (simp_all add: result_ok_def wf_result_def length_packed_entries length_pack_mem)
  ultimately show ?thesis by (simp add: pack_inner_result_def Let_def)
qed

lemma length_outcome_body:
  assumes "outcome_ok b m" and "case snd m of One r \<Rightarrow> True | Prefixes rs \<Rightarrow> length rs \<le> 15"
  shows "length (outcome_body b m) \<le> UINT16_MAX"
proof (cases "snd m")
  case (One r)
  with assms length_pack_inner_result [of b "fst m" r] show ?thesis
    by (simp add: outcome_body_def outcome_ok_def)
next
  case (Prefixes rs)
  let ?sz = "\<lambda>r. length (pack_inner_result b r (fst m))"
  have "sum_list (map ?sz rs) \<le> sum_list (map (\<lambda>r. 4347) rs)"
    using assms(1) Prefixes
    by (intro sum_list_mono length_pack_inner_result) (simp add: outcome_ok_def list_all_iff)
  also have "\<dots> \<le> 65205" using assms(2) Prefixes by (simp add: sum_list_triv)
  finally show ?thesis by (simp add: outcome_body_def Prefixes length_concat o_def)
qed

section \<open>Batches\<close>

fun pack_batch :: "build \<Rightarrow> (regs \<times> outcome) list \<Rightarrow> u8 list res" where
  "pack_batch b [] = Inr []"
| "pack_batch b (m # ms) =
     res_bind (pack_outcome b m) (\<lambda>x. res_bind (pack_batch b ms) (\<lambda>xs. Inr (x @ xs)))"

lemma pack_batch_Inr:
  "pack_batch b ms = Inr out \<longleftrightarrow>
     out = concat (map (\<lambda>m. framed (outcome_body b m)) ms) \<and>
     (\<forall>m \<in> set ms. length (outcome_body b m) \<le> UINT16_MAX)"
proof (induction ms arbitrary: out)
  case (Cons m ms)
  show ?case
    by (cases "length (outcome_body b m) \<le> UINT16_MAX")
      (auto simp: pack_outcome_framed framed_def res_bind_Inr_iff Cons pack_framed_def)
qed auto

lemma batch_parsed:
  assumes "ms \<noteq> []" and "list_all (outcome_ok b) ms" and "pack_batch b ms = Inr out"
  shows "\<exists>d. extract_results (length ms) out 0 = Inr (d, length out) \<and>
             parse_results b d = Inr (map (outcome_view b) ms)"
proof -
  let ?bss = "map (outcome_body b) ms"
  have out: "out = concat (map framed ?bss)" and fit: "\<forall>bs \<in> set ?bss. length bs \<le> UINT16_MAX"
    using assms(3) by (auto simp: pack_batch_Inr comp_def)
  have "extract_results (length ?bss) out 0 = Inr (concat ?bss, 0 + length (concat (map framed ?bss)))"
    by (rule extract_results_at [OF fit, of _ _ "[]"]) (simp add: out)
  moreover have "parse_results b (concat ?bss) = Inr (map (outcome_view b) ms)"
    using assms(1,2) unfolding parse_results_def by (intro parse_results_from_at) simp_all
  ultimately show ?thesis by (simp add: out)
qed

section \<open>Properties\<close>

text \<open>
  C1. The wire format round trips: from a batch the client packs, the server takes exactly the
  number of results it asked for, uses up the batch, and parses for every input what the client
  measured: the signal, its address, program counter and code, the counters modulo 65536, every
  register that differs from its initial value with its name and new value, and the recorded
  memory changes; single results and results per prefix alike.
\<close>

theorem wire_round_trip:
  assumes "ms \<noteq> []" and "list_all (outcome_ok b) ms" and "pack_batch b ms = Inr out"
  shows "\<exists>d. extract_results (length ms) out 0 = Inr (d, length out) \<and>
             parse_results b d = Inr (map (outcome_view b) ms)"
  using assms by (rule batch_parsed)


definition sample_regs :: regs where
  "sample_regs = (zero_regs riscv_vector_build)\<lparr>gp := (gp (zero_regs riscv_vector_build))[9 := 42]\<rparr>"

definition sample_result :: result where
  "sample_result =
     \<lparr>signum = SIGSEGV, si_addrr = 0x800000, si_pc = 0x1000, instr_idx = 1, si_code = 2,
      regs_result = sample_regs, meta_cycle = 70000, meta_instret = 1,
      mem_changes = [\<lparr>mc_start = 0x800000, mc_n = 2, mc_val = 7 # 8 # replicate 14 0, mc_checksum = 5\<rparr>]\<rparr>"

lemma sample_ok: "result_ok riscv_vector_build (zero_regs riscv_vector_build) sample_result"
  by (simp add: result_ok_def wf_result_def valid_build_def sample_result_def sample_regs_def wf_regs_def
      wf_mem_change_def zero_regs_def riscv_vector_build_def CHECK_MEM_MAX_NUMBER_MEM_CHANGES_def)

definition sample_batch :: "(regs \<times> outcome) list" where
  "sample_batch = [(zero_regs riscv_vector_build, One sample_result),
                    (zero_regs riscv_vector_build, Prefixes [sample_result, sample_result])]"

lemma sample_batch_ok: "list_all (outcome_ok riscv_vector_build) sample_batch"
  by (simp add: outcome_ok_def sample_ok sample_batch_def)


theorem wire_round_trip_witness:
  "\<exists>out d. pack_batch riscv_vector_build sample_batch = Inr out \<and>
     extract_results 2 out 0 = Inr (d, length out) \<and>
     parse_results riscv_vector_build d = Inr (map (outcome_view riscv_vector_build) sample_batch)"
proof -
  have "length (outcome_body riscv_vector_build m) \<le> UINT16_MAX" if "m \<in> set sample_batch" for m
    using sample_batch_ok that
    by (intro length_outcome_body) (auto simp: list_all_iff sample_batch_def)
  then obtain out where "pack_batch riscv_vector_build sample_batch = Inr out"
    by (auto simp: pack_batch_Inr)
  moreover have "sample_batch \<noteq> []" "length sample_batch = 2" by (simp_all add: sample_batch_def)
  ultimately show ?thesis using wire_round_trip [OF _ sample_batch_ok] by metis
qed

end
