(* ===== verification/Runner.thy ===== *)
theory Runner
  imports Mem_Check Fuzzing_Values Wire
begin

text \<open>
  lib/runner.c: running an instruction sequence on the machine, catching its signal, mapping the
  pages it touches, and collecting the result. The global variables of runner.c are the record
  \<open>runner\<close>. The processor (the assembly in runner.S, the executed code, the kernel's signal delivery)
  is the parameter \<open>hw\<close>: from the code in the sandbox, the initial registers and the mappings it
  gives how the execution ended, the counters before and after, and the bytes it left in every
  mapping. The rest of the address space is the parameter \<open>os_mapped\<close>; the second view of a mapping
  is placed by the kernel and stands for its bytes \<open>map_rw\<close>. A null pointer \<^verbatim>\<open>val\<close> or \<^verbatim>\<open>rw_mapping\<close>
  is the empty list.
\<close>

section \<open>State\<close>

record meta_counters =
  cycle :: u64
  instret :: u64

text \<open>What the kernel hands to the handler: signal information and the interrupted registers.\<close>

record sigcontext =
  sc_signum :: i32
  sc_si_addr :: u64
  sc_si_code :: i32
  sc_pc :: u64
  sc_regs :: regs

datatype run_end = Returned regs | Trapped sigcontext

record execution =
  ex_end :: run_end
  ex_meta_pre :: meta_counters
  ex_meta_post :: meta_counters
  ex_mem :: "u8 list list"

type_synonym hw = "u32 list \<Rightarrow> regs \<Rightarrow> mapping list \<Rightarrow> execution"

record runner =
  global_signum :: i32
  global_si_addr :: u64
  global_si_pc :: u64
  global_si_code :: i32
  gregs_before :: regs
  gregs_result :: regs
  meta_pre :: meta_counters
  meta_post :: meta_counters
  runner_running :: bool
  exception_stack_count :: nat
  signal_handled :: bool
  alarm_set :: bool
  code :: "u32 list"
  runner_code_start :: u64
  instret_base_no_signal :: u64
  instret_base_signal :: u64
  live :: "(u64 \<times> nat) list"

definition runner_code_end :: "build \<Rightarrow> runner \<Rightarrow> u64" where
  "runner_code_end b st = runner_code_start st + 4 * of_nat (MAX_SEQ_LEN b)"

section \<open>Mappings\<close>

abbreviation (input) PROT_READ :: i32 where "PROT_READ \<equiv> 1"
abbreviation (input) PROT_WRITE :: i32 where "PROT_WRITE \<equiv> 2"
abbreviation (input) PROT_EXEC :: i32 where "PROT_EXEC \<equiv> 4"

definition pages_overlap :: "u64 \<times> nat \<Rightarrow> u64 \<Rightarrow> nat \<Rightarrow> bool" where
  "pages_overlap r start n \<longleftrightarrow>
     unat start < unat (fst r) + snd r \<and> unat (fst r) < unat start + n"

definition check_page_mapped :: "build \<Rightarrow> (u64 \<Rightarrow> bool) \<Rightarrow> runner \<Rightarrow> u64 \<Rightarrow> bool" where
  "check_page_mapped b os_mapped st target =
     (os_mapped target \<or> list_ex (\<lambda>r. pages_overlap r target (unat (page_size b))) (live st))"

text \<open>
  \<open>check_and_map_shmem_fixed\<close>: refused when the first page is mapped; \<^verbatim>\<open>MAP_FIXED_NOREPLACE\<close> also
  refuses when another page of the range is.
\<close>

definition check_and_map_shmem_fixed ::
  "build \<Rightarrow> (u64 \<Rightarrow> bool) \<Rightarrow> runner \<Rightarrow> u64 \<Rightarrow> nat \<Rightarrow> runner res" where
  "check_and_map_shmem_fixed b os_mapped st target n =
     (if check_page_mapped b os_mapped st target then Inl (Exit 1 ''already mapped'')
      else if list_ex (\<lambda>r. pages_overlap r target n) (live st) then Inl (Exit EXIT_FAILURE ''mmap failed'')
      else Inr (st\<lparr>live := live st @ [(target, n)]\<rparr>))"

definition setup_memory_mapping ::
  "build \<Rightarrow> (u64 \<Rightarrow> bool) \<Rightarrow> u8 list \<Rightarrow> runner \<Rightarrow> mapping \<Rightarrow> (runner \<times> mapping) res" where
  "setup_memory_mapping b os_mapped malloced st m =
     res_bind (check_and_map_shmem_fixed b os_mapped st (map_start m) (map_n m)) (\<lambda>st'.
       let m1 = m\<lparr>map_rw := replicate (map_n m) 0\<rparr>
       in Inr (st', if map_val m1 = [] then m1\<lparr>map_val := malloced\<rparr> else m1))"

fun setup_memory_mappings ::
  "build \<Rightarrow> (u64 \<Rightarrow> bool) \<Rightarrow> u8 list \<Rightarrow> runner \<Rightarrow> mapping list \<Rightarrow> (runner \<times> mapping list) res" where
  "setup_memory_mappings b os_mapped malloced st [] = Inr (st, [])"
| "setup_memory_mappings b os_mapped malloced st (m # ms) =
     res_bind (setup_memory_mapping b os_mapped malloced st m) (\<lambda>(st1, m').
     res_bind (setup_memory_mappings b os_mapped malloced st1 ms) (\<lambda>(st2, ms').
       Inr (st2, m' # ms')))"

text \<open>\<^verbatim>\<open>munmap\<close> succeeds on a page-aligned range that is not empty.\<close>

definition munmap_ok :: "build \<Rightarrow> u64 \<Rightarrow> nat \<Rightarrow> bool" where
  "munmap_ok b start n \<longleftrightarrow> start AND (page_size b - 1) = 0 \<and> 0 < n"

definition free_memory_mapping :: "build \<Rightarrow> runner \<Rightarrow> mapping \<Rightarrow> (runner \<times> mapping) res" where
  "free_memory_mapping b st m =
     res_bind (c_assert (0 < map_n m) ''res == 0'') (\<lambda>_.
     res_bind (c_assert (munmap_ok b (map_start m) (map_n m)) ''res == 0'') (\<lambda>_.
     res_bind (c_assert (map_val m \<noteq> []) ''mapping->val'') (\<lambda>_.
       Inr (st\<lparr>live := remove1 (map_start m, map_n m) (live st)\<rparr>, m\<lparr>map_rw := [], map_val := []\<rparr>))))"

fun free_memory_mappings :: "build \<Rightarrow> runner \<Rightarrow> mapping list \<Rightarrow> (runner \<times> mapping list) res" where
  "free_memory_mappings b st [] = Inr (st, [])"
| "free_memory_mappings b st (m # ms) =
     res_bind (free_memory_mapping b st m) (\<lambda>(st1, m').
     res_bind (free_memory_mappings b st1 ms) (\<lambda>(st2, ms'). Inr (st2, m' # ms')))"

definition load_memory_mapping :: "mapping \<Rightarrow> mapping res" where
  "load_memory_mapping m =
     res_bind (c_assert (map_rw m \<noteq> [] \<and> map_val m \<noteq> []) ''mapping->rw_mapping && mapping->val'') (\<lambda>_.
       Inr (m\<lparr>map_rw := take (map_n m) (map_val m) @ drop (map_n m) (map_rw m)\<rparr>))"

fun load_memory_mappings :: "mapping list \<Rightarrow> mapping list res" where
  "load_memory_mappings [] = Inr []"
| "load_memory_mappings (m # ms) =
     res_bind (load_memory_mapping m) (\<lambda>m'.
     res_bind (load_memory_mappings ms) (\<lambda>ms'. Inr (m' # ms')))"

section \<open>The signal handler\<close>

text \<open>
  \<open>sig_handler\<close>. The registers the kernel saved are copied; bits 12 and 24 of pstate are cleared.
  After it \<^verbatim>\<open>RESTORE_STATE __regs_restore\<close> and \<^verbatim>\<open>ret\<close> continue behind the call of \<open>runner\<close>.
\<close>

definition handler_regs :: "build \<Rightarrow> regs \<Rightarrow> regs \<Rightarrow> regs" where
  "handler_regs b saved old = (case arch b of
     RISCV64 \<Rightarrow>
       old\<lparr>gp := gp saved,
           fp := (if flag_FLOATS b then fp saved else fp old),
           fcsr := (if flag_FLOATS b then fcsr saved else fcsr old),
           vec := (if flag_VECTOR b then vec saved else vec old)\<rparr>
   | AARCH64 \<Rightarrow>
       old\<lparr>gp := gp saved,
           pstate := pstate saved AND NOT 0x1000 AND NOT 0x1000000,
           fpsr := (if flag_FLOATS b \<or> flag_VECTOR b then fpsr saved else fpsr old),
           fp := (if flag_FLOATS b then fp saved else fp old),
           vec := (if flag_VECTOR b then vec saved else vec old)\<rparr>)"

definition sig_handler :: "build \<Rightarrow> meta_counters \<Rightarrow> runner \<Rightarrow> sigcontext \<Rightarrow> runner res" where
  "sig_handler b counters st0 sc =
     (let st = st0\<lparr>exception_stack_count := exception_stack_count st0 + 1, global_si_pc := sc_pc sc\<rparr>
      in if \<not> runner_running st \<or> exception_stack_count st > 1
         then Inl (Exit EXIT_FAILURE ''Catched a signal that doesn't come from the instr seq'')
         else Inr (st\<lparr>meta_post := (if flag_META b then counters else meta_post st),
                      alarm_set := (if sc_signum sc \<noteq> SIGALRM then False else alarm_set st),
                      global_signum := sc_signum sc,
                      global_si_addr := sc_si_addr sc,
                      global_si_code := sc_si_code sc,
                      gregs_result := handler_regs b (sc_regs sc) (gregs_result st),
                      signal_handled := True\<rparr>))"

section \<open>Running a sequence\<close>

definition modify_code :: "build \<Rightarrow> runner \<Rightarrow> u32 list \<Rightarrow> runner" where
  "modify_code b st instr_seq =
     st\<lparr>code := fold (\<lambda>i c. c[i := NOP_32 b]) [length instr_seq..<MAX_SEQ_LEN b]
                  (instr_seq @ drop (length instr_seq) (code st))\<rparr>"

text \<open>
  The call of \<open>runner\<close>: the sandbox runs; on a signal the handler runs and resumes behind the call. A
  SIGALRM is the one-shot alarm that went off, so the alarm is no longer set.
\<close>

fun set_mem :: "mapping list \<Rightarrow> u8 list list \<Rightarrow> mapping list" where
  "set_mem (m # ms) (bs # mem) = m\<lparr>map_rw := bs\<rparr> # set_mem ms mem"
| "set_mem ms mem = ms"

definition call_runner ::
  "build \<Rightarrow> hw \<Rightarrow> runner \<Rightarrow> mapping list \<Rightarrow> (runner \<times> mapping list) res" where
  "call_runner b hw st ms =
     (let ex = hw (code st) (gregs_before st) ms;
          st1 = (if flag_META b then st\<lparr>meta_pre := ex_meta_pre ex\<rparr> else st);
          ms' = set_mem ms (ex_mem ex)
      in case ex_end ex of
           Returned r \<Rightarrow>
             Inr (st1\<lparr>gregs_result := r, meta_post := (if flag_META b then ex_meta_post ex else meta_post st1)\<rparr>, ms')
         | Trapped sc \<Rightarrow>
             res_bind (sig_handler b (ex_meta_post ex)
                         (if sc_signum sc = SIGALRM then st1\<lparr>alarm_set := False\<rparr> else st1) sc)
               (\<lambda>st2. Inr (st2, ms')))"

definition finish_run :: "build \<Rightarrow> runner \<Rightarrow> regs \<Rightarrow> runner" where
  "finish_run b st regs_before =
     (let st1 = (if \<not> signal_handled st
                 then st\<lparr>alarm_set := False, global_signum := 0, global_si_pc := 0, global_si_addr := 0,
                         global_si_code := 0,
                         gregs_result := (gregs_result st)
                           \<lparr>gp := (gp (gregs_result st))
                                    [gp_index b ''x29'' := gp regs_before ! gp_index b ''x29'']\<rparr>\<rparr>
                 else st)
      in st1\<lparr>runner_running := False\<rparr>)"

definition derive_instr_idx :: "build \<Rightarrow> runner \<Rightarrow> i32 \<Rightarrow> u64 \<Rightarrow> u32" where
  "derive_instr_idx b st sig pc =
     (if sig \<noteq> 0 \<and> pc \<noteq> 0
      then (if pc \<ge> runner_code_start st \<and> pc < runner_code_end b st
            then ucast ((pc - runner_code_start st) div 4 + 1) else 0)
      else 0)"

definition collect_result :: "build \<Rightarrow> runner \<Rightarrow> result res" where
  "collect_result b st =
     (let r = \<lparr>signum = global_signum st, si_addrr = global_si_addr st, si_pc = global_si_pc st,
               instr_idx = derive_instr_idx b st (global_signum st) (global_si_pc st),
               si_code = global_si_code st, regs_result = gregs_result st,
               meta_cycle = (if flag_META b then cycle (meta_post st) - cycle (meta_pre st) else 0),
               meta_instret = (if flag_META b \<and> arch b = RISCV64
                               then instret (meta_post st) - instret (meta_pre st) else 0),
               mem_changes = []\<rparr>
      in if flag_META b
         then let base = (if signum r = 0 then instret_base_no_signal st else instret_base_signal st)
              in res_bind (c_assert (meta_instret r \<ge> base) ''r.meta.instret >= base'')
                   (\<lambda>_. Inr (r\<lparr>meta_instret := meta_instret r - base\<rparr>))
         else Inr r)"

text \<open>
  \<open>run_with_instr_seq_no_check_mem\<close>: loads and returns the given mappings; \<open>extra\<close> are the other
  mappings the sandbox can reach.
\<close>

definition run_with_instr_seq_no_check_mem ::
  "build \<Rightarrow> hw \<Rightarrow> runner \<Rightarrow> u32 list \<Rightarrow> mapping list \<Rightarrow> mapping list \<Rightarrow> regs \<Rightarrow>
     (result \<times> mapping list \<times> mapping list \<times> runner) res" where
  "run_with_instr_seq_no_check_mem b hw st instr ms extra regs_before =
     (if length instr > MAX_SEQ_LEN b then Inl (Exit 1 ''Max sequence length'')
      else
        let st1 = modify_code b (st\<lparr>gregs_before := regs_before\<rparr>) instr
        in res_bind (load_memory_mappings ms) (\<lambda>ms1.
           res_bind (call_runner b hw
                       (st1\<lparr>signal_handled := False, runner_running := True, exception_stack_count := 0,
                            alarm_set := True\<rparr>) (ms1 @ extra)) (\<lambda>(st2, all).
           let st3 = finish_run b st2 regs_before
           in res_bind (collect_result b st3) (\<lambda>r.
                Inr (r, take (length ms) all, drop (length ms) all, st3)))))"

definition run_with_instr_seq_no_check_mem_extra_mappings ::
  "build \<Rightarrow> hw \<Rightarrow> runner \<Rightarrow> u32 list \<Rightarrow> mapping list \<Rightarrow> mapping list \<Rightarrow> regs \<Rightarrow>
     (result \<times> mapping list \<times> mapping list \<times> runner) res" where
  "run_with_instr_seq_no_check_mem_extra_mappings b hw st instr ms extra regs_before =
     res_bind (load_memory_mappings extra) (\<lambda>extra'.
       run_with_instr_seq_no_check_mem b hw st instr ms extra' regs_before)"

section \<open>Mapping pages on demand\<close>

abbreviation (input) fresh_rng :: shared_rng where
  "fresh_rng \<equiv> \<lparr>mt = replicate MT19937_N 0, rng_index = 0\<rparr>"

definition gen_random_prot :: "u64 \<Rightarrow> i32" where
  "gen_random_prot target =
     (let x = fst (rng_randint (rng_init fresh_rng target) 0 7);
          p0 = 0 OR PROT_READ;
          p1 = (if x AND 0x2 \<noteq> 0 then p0 OR PROT_WRITE else p0)
      in if x AND 0x4 \<noteq> 0 then p1 OR PROT_EXEC else p1)"

text \<open>The content of an automatically mapped page, a function of its address.\<close>

definition page_content :: "build \<Rightarrow> u64 \<Rightarrow> nat \<Rightarrow> u8 list" where
  "page_content b target n =
     le_words (fst (draws (n div 8) (fuzzing_value_any_val b) (rng_init fresh_rng target)))"

definition auto_target :: "build \<Rightarrow> u64 \<Rightarrow> u64" where
  "auto_target b addr = addr AND NOT (page_size b - 1)"

definition auto_map_allowed :: "build \<Rightarrow> (u64 \<Rightarrow> bool) \<Rightarrow> runner \<Rightarrow> u64 \<Rightarrow> bool" where
  "auto_map_allowed b os_mapped st target =
     (if target < 0x10000 then False
      else if target \<ge> 2 ^ 38 then False
      else \<not> check_page_mapped b os_mapped st target)"

text \<open>
  The page that is mapped: set up with uninitialised memory behind \<^verbatim>\<open>val\<close>, which the loop then fills
  word by word.
\<close>

definition new_auto_mapping ::
  "build \<Rightarrow> (u64 \<Rightarrow> bool) \<Rightarrow> runner \<Rightarrow> u64 \<Rightarrow> (runner \<times> mapping) res" where
  "new_auto_mapping b os_mapped st target =
     (let n = unat (page_size b);
          prot = (if flag_AUTO_MAP_MEM_RW_PROT b then PROT_WRITE OR PROT_READ else gen_random_prot target)
      in res_bind (setup_memory_mapping b os_mapped (replicate n 0) st
                     \<lparr>map_start = target, map_n = n, map_prot = prot, map_val = [], map_rw = []\<rparr>)
           (\<lambda>(st', m). Inr (st', m\<lparr>map_val := page_content b target n\<rparr>)))"

definition is_fault :: "result \<Rightarrow> bool" where
  "is_fault r \<longleftrightarrow> signum r = SIGSEGV \<or> signum r = SIGBUS"

lemma length_set_mem [simp]: "length (set_mem ms mem) = length ms"
  by (induction ms mem rule: set_mem.induct) simp_all

lemma length_load: "load_memory_mappings ms = Inr ms' \<Longrightarrow> length ms' = length ms"
  by (induction ms arbitrary: ms') (auto simp: res_bind_Inr_iff)

lemma length_call_runner: "call_runner b hw st ms = Inr (st', ms') \<Longrightarrow> length ms' = length ms"
  by (auto simp: call_runner_def Let_def res_bind_Inr_iff split: run_end.splits)

lemma run_lengths:
  "run_with_instr_seq_no_check_mem b hw st instr ms extra regs_before = Inr (r, ms', extra', st') \<Longrightarrow>
     length ms' = length ms \<and> length extra' = length extra"
  by (auto simp: run_with_instr_seq_no_check_mem_def Let_def res_bind_Inr_iff split: if_splits
      dest!: length_load length_call_runner)

lemma extra_run_lengths:
  "run_with_instr_seq_no_check_mem_extra_mappings b hw st instr ms extra regs_before =
     Inr (r, ms', extra', st') \<Longrightarrow> length ms' = length ms \<and> length extra' = length extra"
  by (auto simp: run_with_instr_seq_no_check_mem_extra_mappings_def res_bind_Inr_iff
      dest!: length_load run_lengths)

function auto_map_loop ::
  "build \<Rightarrow> hw \<Rightarrow> (u64 \<Rightarrow> bool) \<Rightarrow> u32 list \<Rightarrow> regs \<Rightarrow> result \<Rightarrow> runner \<Rightarrow> mapping list \<Rightarrow> mapping list \<Rightarrow>
     (runner \<times> mapping list \<times> mapping list) res" where
  "auto_map_loop b hw os_mapped instr regs_before tmp_result st ms autos =
     (let target = auto_target b (si_addrr tmp_result)
      in if \<not> auto_map_allowed b os_mapped st target then Inr (st, ms, autos)
         else case new_auto_mapping b os_mapped st target of
           Inl e \<Rightarrow> Inl e
         | Inr (st1, m) \<Rightarrow>
             (case run_with_instr_seq_no_check_mem_extra_mappings b hw st1 instr ms (autos @ [m]) regs_before of
                Inl e \<Rightarrow> Inl e
              | Inr (r, ms', autos', st2) \<Rightarrow>
                  if is_fault r \<and> length (autos @ [m]) < CHECK_MEM_MAX_TRIES b
                  then auto_map_loop b hw os_mapped instr regs_before r st2 ms' autos'
                  else Inr (st2, ms', autos')))"
  by pat_completeness auto
termination
  by (relation "measure (\<lambda>(b, hw, os, instr, regs, r, st, ms, autos). CHECK_MEM_MAX_TRIES b - length autos)")
    (auto dest!: extra_run_lengths)

declare auto_map_loop.simps [simp del]

section \<open>The whole run\<close>

text \<open>
  \<open>run_with_instr_seq\<close>: run once, map pages while the sequence faults, run once more, look for changes
  and unmap the pages again. \<open>garbage\<close> is what the scan's buffer holds before it is written.
\<close>

definition run_with_instr_seq ::
  "build \<Rightarrow> hw \<Rightarrow> (u64 \<Rightarrow> bool) \<Rightarrow> u8 list \<Rightarrow> runner \<Rightarrow> u32 list \<Rightarrow> mapping list \<Rightarrow> regs \<Rightarrow>
     (result \<times> mapping list \<times> runner) res" where
  "run_with_instr_seq b hw os_mapped garbage st instr ms regs_before =
     res_bind (run_with_instr_seq_no_check_mem b hw st instr ms [] regs_before) (\<lambda>(r, ms1, _, st1).
       if \<not> flag_CHECK_MEM b then Inr (r, ms1, st1)
       else
         res_bind (if flag_AUTO_MAP_MEM b \<and> is_fault r
                   then auto_map_loop b hw os_mapped instr regs_before r st1 ms1 []
                   else Inr (st1, ms1, [])) (\<lambda>(st2, ms2, autos).
         res_bind (run_with_instr_seq_no_check_mem_extra_mappings b hw st2 instr ms2 autos regs_before)
           (\<lambda>(r', ms3, autos', st3).
         res_bind (check_mem b garbage (ms3 @ autos')) (\<lambda>cs.
         res_bind (free_memory_mappings b st3 autos') (\<lambda>(st4, _).
           Inr (r'\<lparr>mem_changes := cs\<rparr>, ms3, st4))))))"

text \<open>\<open>run_with_instr_seq_full_seq\<close>: the prefixes of length 1, 2, ... up to the first that traps.\<close>

fun run_prefixes ::
  "build \<Rightarrow> hw \<Rightarrow> (u64 \<Rightarrow> bool) \<Rightarrow> u8 list \<Rightarrow> runner \<Rightarrow> u32 list \<Rightarrow> nat \<Rightarrow> nat \<Rightarrow> mapping list \<Rightarrow> regs \<Rightarrow>
     (result list \<times> mapping list \<times> runner) res" where
  "run_prefixes b hw os_mapped garbage st instr n 0 ms regs_before = Inr ([], ms, st)"
| "run_prefixes b hw os_mapped garbage st instr n (Suc k) ms regs_before =
     res_bind (run_with_instr_seq b hw os_mapped garbage st (take (n + 1) instr) ms regs_before)
       (\<lambda>(r, ms1, st1).
          if signum r \<noteq> 0 then Inr ([r], ms1, st1)
          else res_bind (run_prefixes b hw os_mapped garbage st1 instr (n + 1) k ms1 regs_before)
                 (\<lambda>(rs, ms2, st2). Inr (r # rs, ms2, st2)))"

definition run_with_instr_seq_full_seq ::
  "build \<Rightarrow> hw \<Rightarrow> (u64 \<Rightarrow> bool) \<Rightarrow> u8 list \<Rightarrow> runner \<Rightarrow> u32 list \<Rightarrow> nat \<Rightarrow> mapping list \<Rightarrow> regs \<Rightarrow>
     (result list \<times> mapping list \<times> runner) res" where
  "run_with_instr_seq_full_seq b hw os_mapped garbage st instr l ms regs_before =
     run_prefixes b hw os_mapped garbage st instr 0 l ms regs_before"

definition run_with_instr ::
  "build \<Rightarrow> hw \<Rightarrow> (u64 \<Rightarrow> bool) \<Rightarrow> u8 list \<Rightarrow> runner \<Rightarrow> u32 \<Rightarrow> regs \<Rightarrow>
     (result \<times> mapping list \<times> runner) res" where
  "run_with_instr b hw os_mapped garbage st instr regs_before =
     run_with_instr_seq b hw os_mapped garbage st [instr] [] regs_before"

section \<open>One run\<close>

definition runner_inv :: "build \<Rightarrow> runner \<Rightarrow> bool" where
  "runner_inv b st \<longleftrightarrow> length (code st) = MAX_SEQ_LEN b \<and> \<not> runner_running st \<and> \<not> alarm_set st"

text \<open>What a run leaves as it is.\<close>

definition same_env :: "runner \<Rightarrow> runner \<Rightarrow> bool" where
  "same_env st st' \<longleftrightarrow>
     runner_code_start st' = runner_code_start st \<and> live st' = live st \<and>
     instret_base_no_signal st' = instret_base_no_signal st \<and>
     instret_base_signal st' = instret_base_signal st"

definition padded :: "build \<Rightarrow> u32 list \<Rightarrow> u32 list" where
  "padded b instr = instr @ replicate (MAX_SEQ_LEN b - length instr) (NOP_32 b)"

lemma fold_update_range:
  "k \<le> n \<Longrightarrow> n \<le> length c \<Longrightarrow>
     fold (\<lambda>i c. c[i := x]) [k..<n] c = take k c @ replicate (n - k) x @ drop n c"
proof (induction "n - k" arbitrary: k c)
  case (Suc d)
  then have k: "k < n" by simp
  have "fold (\<lambda>i c. c[i := x]) [Suc k..<n] (c[k := x]) =
      take (Suc k) (c[k := x]) @ replicate (n - Suc k) x @ drop n (c[k := x])"
    using Suc k by (intro Suc.hyps(1)) simp_all
  also have "\<dots> = take k c @ replicate (n - k) x @ drop n c"
    using Suc.prems k by (simp add: take_Suc_conv_app_nth Suc_diff_Suc [symmetric])
  finally show ?case using k by (simp add: upt_conv_Cons)
qed simp

lemma modify_code_padded:
  assumes "length (code st) = MAX_SEQ_LEN b" and "length instr \<le> MAX_SEQ_LEN b"
  shows "modify_code b st instr = st\<lparr>code := padded b instr\<rparr>"
  using assms by (simp add: modify_code_def fold_update_range padded_def)

text \<open>Loading a mapping makes both views equal.\<close>

definition loaded :: "mapping \<Rightarrow> mapping" where
  "loaded m = m\<lparr>map_rw := map_val m\<rparr>"

lemma load_memory_mappings_wf:
  "list_all wf_mapping ms \<Longrightarrow> load_memory_mappings ms = Inr (map loaded ms)"
proof (induction ms)
  case (Cons m ms)
  then have "map_val m \<noteq> []" "map_rw m \<noteq> []" by (auto simp: wf_mapping_def)
  with Cons show ?case
    by (simp add: load_memory_mapping_def loaded_def wf_mapping_def)
qed simp

lemma wf_loaded [simp]: "wf_mapping m \<Longrightarrow> wf_mapping (loaded m)"
  by (simp add: wf_mapping_def loaded_def)

text \<open>The result of an execution, with the registers a trap leaves untouched taken from \<open>old\<close>.\<close>

definition end_regs :: "build \<Rightarrow> regs \<Rightarrow> regs \<Rightarrow> run_end \<Rightarrow> regs" where
  "end_regs b regs_before old e = (case e of
     Returned r \<Rightarrow> r\<lparr>gp := (gp r)[gp_index b ''x29'' := gp regs_before ! gp_index b ''x29'']\<rparr>
   | Trapped sc \<Rightarrow> handler_regs b (sc_regs sc) old)"

definition after_run :: "build \<Rightarrow> runner \<Rightarrow> u32 list \<Rightarrow> regs \<Rightarrow> execution \<Rightarrow> runner" where
  "after_run b st instr regs_before ex =
     st\<lparr>code := padded b instr, gregs_before := regs_before, runner_running := False, alarm_set := False,
        meta_pre := (if flag_META b then ex_meta_pre ex else meta_pre st),
        meta_post := (if flag_META b then ex_meta_post ex else meta_post st),
        global_signum := (case ex_end ex of Returned _ \<Rightarrow> 0 | Trapped sc \<Rightarrow> sc_signum sc),
        global_si_addr := (case ex_end ex of Returned _ \<Rightarrow> 0 | Trapped sc \<Rightarrow> sc_si_addr sc),
        global_si_pc := (case ex_end ex of Returned _ \<Rightarrow> 0 | Trapped sc \<Rightarrow> sc_pc sc),
        global_si_code := (case ex_end ex of Returned _ \<Rightarrow> 0 | Trapped sc \<Rightarrow> sc_si_code sc),
        exception_stack_count := (case ex_end ex of Returned _ \<Rightarrow> 0 | Trapped sc \<Rightarrow> 1),
        signal_handled := (case ex_end ex of Returned _ \<Rightarrow> False | Trapped sc \<Rightarrow> True),
        gregs_result := end_regs b regs_before (gregs_result st) (ex_end ex)\<rparr>"

lemma run_eq:
  assumes "runner_inv b st" and "length instr \<le> MAX_SEQ_LEN b" and "list_all wf_mapping ms"
    and "ex = hw (padded b instr) regs_before (map loaded ms @ extra)"
  shows "run_with_instr_seq_no_check_mem b hw st instr ms extra regs_before =
           (let st' = after_run b st instr regs_before ex;
                all = set_mem (map loaded ms @ extra) (ex_mem ex)
            in res_bind (collect_result b st') (\<lambda>r.
                 Inr (r, take (length ms) all, drop (length ms) all, st')))"
proof -
  have "length (code (st\<lparr>gregs_before := regs_before\<rparr>)) = MAX_SEQ_LEN b"
    using assms(1) by (simp add: runner_inv_def)
  note code = modify_code_padded [OF this assms(2)]
  show ?thesis
  proof (cases "ex_end ex")
    case (Returned r)
    with assms code show ?thesis
      by (cases st) (simp add: run_with_instr_seq_no_check_mem_def Let_def load_memory_mappings_wf call_runner_def
          finish_run_def after_run_def end_regs_def)
  next
    case (Trapped sc)
    with assms code show ?thesis
      by (cases st) (simp add: run_with_instr_seq_no_check_mem_def Let_def load_memory_mappings_wf call_runner_def
          finish_run_def after_run_def end_regs_def sig_handler_def)
  qed
qed

text \<open>
  What the machine promises: it stores only inside the mappings, the registers it reports are whole
  banks, a trap has a signal number of one byte, and with META at least the instructions of the
  harness itself are counted.
\<close>

definition hw_ok :: "build \<Rightarrow> u64 \<Rightarrow> u64 \<Rightarrow> hw \<Rightarrow> bool" where
  "hw_ok b base_ok base_sig hw \<longleftrightarrow>
     (\<forall>c regs ms. length c = MAX_SEQ_LEN b \<longrightarrow> wf_regs b regs \<longrightarrow> list_all wf_mapping ms \<longrightarrow>
        (let ex = hw c regs ms;
             counted = (if arch b = RISCV64 then instret (ex_meta_post ex) - instret (ex_meta_pre ex) else 0)
         in list_all2 (\<lambda>m bs. length bs = map_n m) ms (ex_mem ex) \<and>
            (case ex_end ex of
               Returned r \<Rightarrow> wf_regs b r \<and> (flag_META b \<longrightarrow> base_ok \<le> counted)
             | Trapped sc \<Rightarrow> wf_regs b (sc_regs sc) \<and> sc_signum sc \<noteq> 0 \<and> unat (sc_signum sc) < 256 \<and>
                 (flag_META b \<longrightarrow> base_sig \<le> counted))))"

text \<open>What a run keeps of a mapping: everything but the writable view.\<close>

definition map_id :: "mapping \<Rightarrow> mapping" where
  "map_id m = m\<lparr>map_rw := []\<rparr>"

lemma map_id_simps [simp]:
  "map_id (m\<lparr>map_rw := bs\<rparr>) = map_id m" "map_id (loaded m) = map_id m"
  "map_id (map_id m) = map_id m"
  by (simp_all add: map_id_def loaded_def)

lemma map_id_eqD:
  "map_id m = map_id m' \<Longrightarrow> map_start m = map_start m' \<and> map_n m = map_n m' \<and> map_val m = map_val m'"
  by (cases m; cases m') (simp add: map_id_def)

lemma set_mem_wf:
  "list_all2 (\<lambda>m bs. length bs = map_n m) ms mem \<Longrightarrow> list_all wf_mapping ms \<Longrightarrow>
     list_all wf_mapping (set_mem ms mem)"
  by (induction ms mem rule: set_mem.induct) (auto simp: wf_mapping_def)

lemma set_mem_id: "map map_id (set_mem ms mem) = map map_id ms"
  by (induction ms mem rule: set_mem.induct) simp_all

lemma handler_regs_wf: "wf_regs b saved \<Longrightarrow> wf_regs b (handler_regs b saved old)"
  by (cases "arch b") (simp_all add: wf_regs_def handler_regs_def)

lemma handler_regs_memeq: "regs_memeq b (handler_regs b saved old) (handler_regs b saved old')"
  by (cases "arch b") (simp_all add: regs_memeq_def regs_image_def handler_regs_def)

lemma list_all_take_drop:
  "list_all P xs \<Longrightarrow> list_all P (take n xs)" "list_all P xs \<Longrightarrow> list_all P (drop n xs)"
  by (auto simp: list_all_iff dest: in_set_takeD in_set_dropD)

text \<open>The state relation a run establishes between its arguments and its results.\<close>

definition run_post ::
  "build \<Rightarrow> runner \<Rightarrow> mapping list \<Rightarrow> mapping list \<Rightarrow> runner \<Rightarrow> mapping list \<Rightarrow> mapping list \<Rightarrow> bool" where
  "run_post b st ms extra st' ms' extra' \<longleftrightarrow>
     runner_inv b st' \<and> same_env st st' \<and> list_all wf_mapping ms' \<and> list_all wf_mapping extra' \<and>
     map map_id ms' = map map_id ms \<and> map map_id extra' = map map_id extra"

lemma collect_result_ok:
  assumes "wf_regs b (gregs_result st)" and "unat (global_signum st) < 256"
    and "flag_META b \<Longrightarrow>
           (if global_signum st = 0 then instret_base_no_signal st else instret_base_signal st) \<le>
           (if arch b = RISCV64 then instret (meta_post st) - instret (meta_pre st) else 0)"
  shows "\<exists>r. collect_result b st = Inr r \<and> wf_result b r \<and> mem_changes r = []"
  using assms by (auto simp: collect_result_def Let_def wf_result_def c_assert_def)

lemma wf_regs_update: "wf_regs b r \<Longrightarrow> wf_regs b (r\<lparr>gp := (gp r)[i := v]\<rparr>)"
  by (simp add: wf_regs_def)

lemma run_ok:
  assumes hw: "hw_ok b (instret_base_no_signal st) (instret_base_signal st) hw"
    and inv: "runner_inv b st" and len: "length instr \<le> MAX_SEQ_LEN b"
    and wf: "list_all wf_mapping ms" "list_all wf_mapping extra" "wf_regs b regs_before"
  shows "\<exists>r ms' extra' st'.
           run_with_instr_seq_no_check_mem b hw st instr ms extra regs_before = Inr (r, ms', extra', st') \<and>
           wf_result b r \<and> mem_changes r = [] \<and> run_post b st ms extra st' ms' extra'"
proof -
  define ex where "ex = hw (padded b instr) regs_before (map loaded ms @ extra)"
  let ?st = "after_run b st instr regs_before ex" and ?all = "set_mem (map loaded ms @ extra) (ex_mem ex)"
  have wfl: "list_all wf_mapping (map loaded ms @ extra)"
    using wf by (auto simp: list_all_iff)
  have "length (padded b instr) = MAX_SEQ_LEN b" using len by (simp add: padded_def)
  note h = hw [unfolded hw_ok_def Let_def, rule_format, OF this wf(3) wfl, folded ex_def]
  have mem: "list_all2 (\<lambda>m bs. length bs = map_n m) (map loaded ms @ extra) (ex_mem ex)"
    and fin: "case ex_end ex of
        Returned r \<Rightarrow> wf_regs b r \<and> (flag_META b \<longrightarrow> instret_base_no_signal st \<le>
          (if arch b = RISCV64 then instret (ex_meta_post ex) - instret (ex_meta_pre ex) else 0))
      | Trapped sc \<Rightarrow> wf_regs b (sc_regs sc) \<and> sc_signum sc \<noteq> 0 \<and> unat (sc_signum sc) < 256 \<and>
          (flag_META b \<longrightarrow> instret_base_signal st \<le>
            (if arch b = RISCV64 then instret (ex_meta_post ex) - instret (ex_meta_pre ex) else 0))"
    using h by blast+
  obtain r where r: "collect_result b ?st = Inr r" "wf_result b r" "mem_changes r = []"
  proof -
    have "\<exists>r. collect_result b ?st = Inr r \<and> wf_result b r \<and> mem_changes r = []"
    proof (rule collect_result_ok)
      show "wf_regs b (gregs_result ?st)" "unat (global_signum ?st) < 256"
        using fin
        by (cases "ex_end ex"; simp add: after_run_def end_regs_def wf_regs_update handler_regs_wf)+
      show "(if global_signum ?st = 0 then instret_base_no_signal ?st else instret_base_signal ?st) \<le>
          (if arch b = RISCV64 then instret (meta_post ?st) - instret (meta_pre ?st) else 0)"
        if "flag_META b"
        using fin that by (cases "ex_end ex") (simp_all add: after_run_def split: if_splits)
    qed
    with that show thesis by blast
  qed
  have ids: "map map_id ?all = map map_id ms @ map map_id extra"
    by (simp add: set_mem_id)
  have "run_post b st ms extra ?st (take (length ms) ?all) (drop (length ms) ?all)"
    using inv set_mem_wf [OF mem wfl] ids
    by (simp add: run_post_def runner_inv_def same_env_def after_run_def padded_def len
        list_all_take_drop take_map [symmetric] drop_map [symmetric])
  with r run_eq [where hw = hw and extra = extra, OF inv len wf(1) ex_def] show ?thesis
    by (auto simp: Let_def)
qed

lemma extra_run_ok:
  assumes hw: "hw_ok b (instret_base_no_signal st) (instret_base_signal st) hw"
    and inv: "runner_inv b st" and len: "length instr \<le> MAX_SEQ_LEN b"
    and wf: "list_all wf_mapping ms" "list_all wf_mapping extra" "wf_regs b regs_before"
  shows "\<exists>r ms' extra' st'.
           run_with_instr_seq_no_check_mem_extra_mappings b hw st instr ms extra regs_before =
             Inr (r, ms', extra', st') \<and>
           wf_result b r \<and> mem_changes r = [] \<and> run_post b st ms extra st' ms' extra'"
proof -
  have "list_all wf_mapping (map loaded extra)" using wf(2) by (auto simp: list_all_iff)
  from run_ok [OF hw inv len wf(1) this wf(3)] show ?thesis
    by (auto simp: run_with_instr_seq_no_check_mem_extra_mappings_def load_memory_mappings_wf [OF wf(2)]
        run_post_def)
qed

section \<open>Automatically mapped pages\<close>

definition auto_page :: "build \<Rightarrow> mapping \<Rightarrow> bool" where
  "auto_page b m \<longleftrightarrow>
     map_n m = unat (page_size b) \<and> 0x10000 \<le> map_start m \<and> map_start m < 2 ^ 38 \<and>
     map_start m AND (page_size b - 1) = 0 \<and> map_val m = page_content b (map_start m) (map_n m)"

abbreviation page_id :: "mapping \<Rightarrow> u64 \<times> nat" where
  "page_id m \<equiv> (map_start m, map_n m)"

text \<open>The pages mapped so far, on top of what was mapped before.\<close>

definition autos_inv :: "build \<Rightarrow> (u64 \<times> nat) list \<Rightarrow> runner \<Rightarrow> mapping list \<Rightarrow> bool" where
  "autos_inv b base st autos \<longleftrightarrow>
     live st = base @ map page_id autos \<and> list_all (auto_page b) autos \<and> list_all wf_mapping autos \<and>
     distinct (map page_id autos) \<and> set (map page_id autos) \<inter> set base = {} \<and>
     length autos \<le> CHECK_MEM_MAX_TRIES b"

lemma page_size_values: "unat (page_size b) = (case arch b of RISCV64 \<Rightarrow> 4096 | AARCH64 \<Rightarrow> 16384)"
  by (simp add: page_size_def split: arch.split)

lemma page_size_pos: "0 < unat (page_size b)" "8 dvd unat (page_size b)"
  by (simp_all add: page_size_values split: arch.split)

lemma length_page_content: "8 dvd n \<Longrightarrow> length (page_content b target n) = n"
proof -
  assume "8 dvd n"
  moreover have "rng_inv (rng_init fresh_rng target)" by (rule rng_init_inv) simp
  from any_draw.draws_good [OF this, of "n div 8" b]
  have "length (fst (draws (n div 8) (fuzzing_value_any_val b) (rng_init fresh_rng target))) = n div 8"
    by blast
  ultimately show ?thesis by (simp add: page_content_def)
qed

lemma auto_target_aligned: "auto_target b a AND (page_size b - 1) = 0"
  by (simp add: auto_target_def and.assoc)

lemma new_auto_mapping_ok:
  assumes "auto_map_allowed b os_mapped st target"
  shows "\<exists>m. new_auto_mapping b os_mapped st target =
           Inr (st\<lparr>live := live st @ [(target, unat (page_size b))]\<rparr>, m) \<and>
           map_start m = target \<and> map_n m = unat (page_size b) \<and> wf_mapping m \<and>
           map_val m = page_content b target (unat (page_size b))"
proof -
  have "\<not> check_page_mapped b os_mapped st target"
    using assms by (auto simp: auto_map_allowed_def split: if_splits)
  moreover from this have "\<not> list_ex (\<lambda>r. pages_overlap r target (unat (page_size b))) (live st)"
    by (simp add: check_page_mapped_def)
  ultimately show ?thesis
    using page_size_pos [of b] length_page_content [OF page_size_pos(2), of b target b]
    by (simp add: new_auto_mapping_def Let_def setup_memory_mapping_def check_and_map_shmem_fixed_def
        wf_mapping_def)
qed

lemma allowed_not_live:
  "auto_map_allowed b os_mapped st target \<Longrightarrow> (target, unat (page_size b)) \<notin> set (live st)"
  using page_size_pos [of b]
  by (auto simp: auto_map_allowed_def check_page_mapped_def list_ex_iff pages_overlap_def split: if_splits)

lemma same_ids:
  assumes "map map_id xs = map map_id ys"
  shows "map page_id xs = map page_id ys" "list_all (auto_page b) ys \<Longrightarrow> list_all (auto_page b) xs"
    "length xs = length ys"
proof -
  have "list_all2 (\<lambda>x y. map_id x = map_id y) xs ys"
    using assms by (simp add: list.rel_eq [symmetric] list.rel_map)
  then show "map page_id xs = map page_id ys" "list_all (auto_page b) ys \<Longrightarrow> list_all (auto_page b) xs"
    "length xs = length ys"
    by (induction rule: list_all2_induct) (auto simp: auto_page_def dest!: map_id_eqD)
qed

lemma same_sizes: "map map_id xs = map map_id ys \<Longrightarrow> map map_n xs = map map_n ys"
  using arg_cong [OF same_ids(1), of xs ys "map snd"] by (simp add: comp_def)

lemma autos_inv_run:
  assumes "autos_inv b base st autos" and "run_post b st ms autos st' ms' autos'"
  shows "autos_inv b base st' autos'"
  using assms same_ids [of autos' autos]
  by (simp add: autos_inv_def run_post_def same_env_def)

lemma autos_inv_add:
  assumes "autos_inv b base st autos" and "auto_map_allowed b os_mapped st (auto_target b a)"
    and "length autos < CHECK_MEM_MAX_TRIES b"
    and "map_start m = auto_target b a" and "map_n m = unat (page_size b)" and "wf_mapping m"
    and "map_val m = page_content b (auto_target b a) (unat (page_size b))"
  shows "autos_inv b base (st\<lparr>live := live st @ [page_id m]\<rparr>) (autos @ [m])"
proof -
  have "auto_page b m"
    using assms auto_target_aligned
    by (auto simp: auto_page_def auto_map_allowed_def split: if_splits)
  moreover have "page_id m \<notin> set (live st)"
    using allowed_not_live [OF assms(2)] assms(4,5) by simp
  ultimately show ?thesis
    using assms(1,3,6) by (auto simp: autos_inv_def)
qed

lemma auto_map_loop_ok:
  assumes "hw_ok b (instret_base_no_signal st) (instret_base_signal st) hw" and "runner_inv b st"
    and "length instr \<le> MAX_SEQ_LEN b" and "list_all wf_mapping ms" and "wf_regs b regs_before"
    and "autos_inv b base st autos" and "length autos < CHECK_MEM_MAX_TRIES b"
  shows "\<exists>st' ms' autos'. auto_map_loop b hw os_mapped instr regs_before r st ms autos = Inr (st', ms', autos') \<and>
           runner_inv b st' \<and> same_env (st\<lparr>live := []\<rparr>) (st'\<lparr>live := []\<rparr>) \<and> list_all wf_mapping ms' \<and>
           map map_id ms' = map map_id ms \<and> autos_inv b base st' autos'"
  using assms
proof (induction b hw os_mapped instr regs_before r st ms autos rule: auto_map_loop.induct)
  case (1 b hw os_mapped instr regs_before r st ms autos)
  let ?t = "auto_target b (si_addrr r)"
  show ?case
  proof (cases "auto_map_allowed b os_mapped st ?t")
    case False
    with "1.prems" show ?thesis
      by (subst auto_map_loop.simps) (simp add: Let_def same_env_def)
  next
    case True
    then obtain m where m: "new_auto_mapping b os_mapped st ?t =
        Inr (st\<lparr>live := live st @ [(?t, unat (page_size b))]\<rparr>, m)" (is "_ = Inr (?st1, m)")
      "map_start m = ?t" "map_n m = unat (page_size b)" "wf_mapping m"
      "map_val m = page_content b ?t (unat (page_size b))"
      using new_auto_mapping_ok by blast
    have inv1: "autos_inv b base ?st1 (autos @ [m])"
      using autos_inv_add [OF "1.prems"(6) True "1.prems"(7) m(2-5)] m(2,3) by simp
    have st1: "hw_ok b (instret_base_no_signal ?st1) (instret_base_signal ?st1) hw" "runner_inv b ?st1"
      using "1.prems" by (simp_all add: runner_inv_def)
    have "list_all wf_mapping (autos @ [m])" using inv1 by (simp add: autos_inv_def)
    from extra_run_ok [OF st1 "1.prems"(3,4) this "1.prems"(5)] obtain r' ms' autos' st2 where
      run: "run_with_instr_seq_no_check_mem_extra_mappings b hw ?st1 instr ms (autos @ [m]) regs_before =
        Inr (r', ms', autos', st2)" and post: "run_post b ?st1 ms (autos @ [m]) st2 ms' autos'"
      by blast
    have inv2: "autos_inv b base st2 autos'" by (rule autos_inv_run [OF inv1 post])
    have st2: "runner_inv b st2" "list_all wf_mapping ms'" "map map_id ms' = map map_id ms"
      "same_env (st\<lparr>live := []\<rparr>) (st2\<lparr>live := []\<rparr>)"
      "instret_base_no_signal st2 = instret_base_no_signal st"
      "instret_base_signal st2 = instret_base_signal st"
      "length autos' = length (autos @ [m])"
      using post same_ids(3) [of autos' "autos @ [m]"] by (simp_all add: run_post_def same_env_def)
    show ?thesis
    proof (cases "is_fault r' \<and> length (autos @ [m]) < CHECK_MEM_MAX_TRIES b")
      case again: True
      have "\<exists>st' ms'' autos''. auto_map_loop b hw os_mapped instr regs_before r' st2 ms' autos' =
          Inr (st', ms'', autos'') \<and> runner_inv b st' \<and> same_env (st2\<lparr>live := []\<rparr>) (st'\<lparr>live := []\<rparr>) \<and>
          list_all wf_mapping ms'' \<and> map map_id ms'' = map map_id ms' \<and> autos_inv b base st' autos''"
        using again "1.prems" st2 inv2
        by (intro "1.IH" [OF refl _ m(1) refl run refl refl refl]) (simp_all add: True)
      with True m(1) run again st2 show ?thesis
        by (subst auto_map_loop.simps) (auto simp: Let_def same_env_def)
    next
      case False
      with True m(1) run inv2 st2 show ?thesis
        by (subst auto_map_loop.simps) (auto simp: Let_def)
    qed
  qed
qed

lemma free_autos:
  "live st = base @ map page_id autos \<Longrightarrow> list_all (auto_page b) autos \<Longrightarrow> list_all wf_mapping autos \<Longrightarrow>
   set (map page_id autos) \<inter> set base = {} \<Longrightarrow>
     \<exists>freed. free_memory_mappings b st autos = Inr (st\<lparr>live := base\<rparr>, freed)"
proof (induction autos arbitrary: st)
  case (Cons m autos)
  have "0 < map_n m" "map_val m \<noteq> []" "munmap_ok b (map_start m) (map_n m)"
    using Cons.prems by (auto simp: wf_mapping_def munmap_ok_def auto_page_def)
  moreover have "remove1 (page_id m) (live st) = base @ map page_id autos"
    using Cons.prems by (auto simp: remove1_append)
  ultimately have "free_memory_mapping b st m =
      Inr (st\<lparr>live := base @ map page_id autos\<rparr>, m\<lparr>map_rw := [], map_val := []\<rparr>)"
    by (simp add: free_memory_mapping_def)
  moreover obtain freed where
    "free_memory_mappings b (st\<lparr>live := base @ map page_id autos\<rparr>) autos = Inr (st\<lparr>live := base\<rparr>, freed)"
    using Cons.IH [of "st\<lparr>live := base @ map page_id autos\<rparr>"] Cons.prems by auto
  ultimately show ?case by simp
qed simp

lemma run_post_trans_env:
  "same_env (st\<lparr>live := []\<rparr>) (st'\<lparr>live := []\<rparr>) \<Longrightarrow> live st' = live st \<Longrightarrow> same_env st st'"
  by (simp add: same_env_def)

text \<open>The changes of a run: those of the given mappings and of the pages it mapped.\<close>

definition run_changes :: "build \<Rightarrow> mapping list \<Rightarrow> mapping list \<Rightarrow> result \<Rightarrow> bool" where
  "run_changes b ms autos r \<longleftrightarrow>
     list_all2 records_run (mem_changes r)
       (take (CHECK_MEM_MAX_NUMBER_MEM_CHANGES b) (runs (ms @ autos)))"

lemma total_size:
  assumes "sum_list (map map_n ms) < 2 ^ 31" and "map map_id ms' = map map_id ms"
    and "list_all (auto_page b) autos" and "length autos \<le> CHECK_MEM_MAX_TRIES b"
  shows "sum_list (map map_n (ms' @ autos)) < 2 ^ 32"
proof -
  have "map map_n ms' = map map_n ms" by (rule same_sizes [OF assms(2)])
  moreover have "sum_list (map map_n autos) \<le> sum_list (map (\<lambda>_. 16384) autos)"
    using assms(3)
    by (intro sum_list_mono) (auto simp: list_all_iff auto_page_def page_size_values split: arch.splits)
  moreover have "length autos \<le> 50"
    using assms(4) by (simp add: CHECK_MEM_MAX_TRIES_def split: arch.splits)
  ultimately show ?thesis using assms(1) by (simp add: sum_list_triv)
qed

lemma records_run_wf:
  "list_all2 records_run cs rs \<Longrightarrow> list_all wf_mem_change cs"
  by (induction rule: list_all2_induct) (simp_all add: records_run_def wf_mem_change_def)

text \<open>
  The last part of \<open>run_with_instr_seq\<close>, from the state after the pages were mapped.
\<close>

lemma final_run_ok:
  assumes hw: "hw_ok b (instret_base_no_signal st) (instret_base_signal st) hw" "runner_inv b st"
    and args: "length instr \<le> MAX_SEQ_LEN b" "list_all wf_mapping ms" "wf_regs b regs_before"
    and autos: "autos_inv b base st autos" and size: "sum_list (map map_n ms) < 2 ^ 31"
    and garbage: "length garbage = CHECK_MEM_CUT_AT"
  shows "\<exists>r ms' autos' st3 cs freed.
           run_with_instr_seq_no_check_mem_extra_mappings b hw st instr ms autos regs_before =
             Inr (r, ms', autos', st3) \<and>
           check_mem b garbage (ms' @ autos') = Inr cs \<and>
           free_memory_mappings b st3 autos' = Inr (st3\<lparr>live := base\<rparr>, freed) \<and>
           wf_result b (r\<lparr>mem_changes := cs\<rparr>) \<and> run_changes b ms' autos' (r\<lparr>mem_changes := cs\<rparr>) \<and>
           run_post b st ms autos st3 ms' autos' \<and> autos_inv b base st3 autos'"
proof -
  have "list_all wf_mapping autos" using autos by (simp add: autos_inv_def)
  from extra_run_ok [OF hw args(1,2) this args(3)] obtain r ms' autos' st3 where
    run: "run_with_instr_seq_no_check_mem_extra_mappings b hw st instr ms autos regs_before =
      Inr (r, ms', autos', st3)" "wf_result b r" and post: "run_post b st ms autos st3 ms' autos'"
    by blast
  have inv3: "autos_inv b base st3 autos'" by (rule autos_inv_run [OF autos post])
  have wf: "list_all wf_mapping (ms' @ autos')" using post by (simp add: run_post_def)
  have "sum_list (map map_n (ms' @ autos')) < 2 ^ 32"
    using total_size [OF size, of ms' b autos'] post inv3 by (simp add: run_post_def autos_inv_def)
  with check_mem_total [of "ms' @ autos'" garbage b] wf garbage obtain cs where
    cs: "check_mem b garbage (ms' @ autos') = Inr cs"
    "list_all2 records_run cs (take (CHECK_MEM_MAX_NUMBER_MEM_CHANGES b) (runs (ms' @ autos')))"
    by (auto simp: list_all_iff)
  have "length cs \<le> CHECK_MEM_MAX_NUMBER_MEM_CHANGES b"
    using list_all2_lengthD [OF cs(2)] by simp
  then have "wf_result b (r\<lparr>mem_changes := cs\<rparr>)"
    using run(2) records_run_wf [OF cs(2)] by (simp add: wf_result_def)
  moreover obtain freed where "free_memory_mappings b st3 autos' = Inr (st3\<lparr>live := base\<rparr>, freed)"
    using free_autos [of st3 base autos' b] inv3 by (auto simp: autos_inv_def)
  ultimately show ?thesis using run cs post inv3 by (auto simp: run_changes_def)
qed

section \<open>Runs do not depend on earlier runs\<close>

definition same_result :: "build \<Rightarrow> result \<Rightarrow> result \<Rightarrow> bool" where
  "same_result b r1 r2 \<longleftrightarrow>
     result_equal b r1 r2 \<and> instr_idx r1 = instr_idx r2 \<and> meta_cycle r1 = meta_cycle r2 \<and>
     meta_instret r1 = meta_instret r2"

definition ready :: "build \<Rightarrow> runner \<Rightarrow> runner \<Rightarrow> bool" where
  "ready b st1 st2 \<longleftrightarrow> runner_inv b st1 \<and> runner_inv b st2 \<and> same_env st1 st2"

lemma end_regs_memeq: "regs_memeq b (end_regs b regs old e) (end_regs b regs old' e)"
  by (cases e) (simp_all add: end_regs_def handler_regs_memeq, simp add: regs_memeq_def)

lemma collect_after_run:
  assumes "same_env st1 st2" and "collect_result b (after_run b st1 instr regs ex) = Inr r"
  shows "\<exists>r2. collect_result b (after_run b st2 instr regs ex) = Inr r2 \<and> same_result b r r2 \<and>
           mem_changes r2 = mem_changes r"
proof -
  let ?o = "gregs_result (after_run b st2 instr regs ex)"
  have "collect_result b (after_run b st2 instr regs ex) = Inr (r\<lparr>regs_result := ?o\<rparr>)"
    using assms
    by (cases "flag_META b")
      (auto simp: collect_result_def Let_def after_run_def same_env_def derive_instr_idx_def
        runner_code_end_def c_assert_def split: if_splits)
  moreover have "regs_result r = gregs_result (after_run b st1 instr regs ex)" "mem_changes r = []"
    using assms(2) by (auto simp: collect_result_def Let_def c_assert_def split: if_splits)
  then have "same_result b r (r\<lparr>regs_result := ?o\<rparr>)"
    by (simp add: same_result_def result_equal_iff after_run_def end_regs_memeq)
  ultimately show ?thesis by auto
qed

lemma loaded_id: "map_id m1 = map_id m2 \<Longrightarrow> loaded m1 = loaded m2"
  by (cases m1; cases m2) (simp add: loaded_def map_id_def)

lemma loaded_ids: "map map_id ms1 = map map_id ms2 \<Longrightarrow> map loaded ms1 = map loaded ms2"
proof (induction ms1 arbitrary: ms2)
  case (Cons m ms)
  then obtain m' ms' where "ms2 = m' # ms'" by (cases ms2) simp_all
  with Cons show ?case by (auto intro: loaded_id)
qed simp

lemma after_run_ready:
  assumes "ready b st1 st2" and "length instr \<le> MAX_SEQ_LEN b"
  shows "ready b (after_run b st1 instr regs ex) (after_run b st2 instr regs ex)"
  using assms by (simp add: ready_def runner_inv_def same_env_def after_run_def padded_def)

lemma run_indep:
  assumes rdy: "ready b st1 st2" and len: "length instr \<le> MAX_SEQ_LEN b"
    and wf: "list_all wf_mapping ms1" "list_all wf_mapping ms2"
    and ids: "map map_id ms1 = map map_id ms2"
    and run: "run_with_instr_seq_no_check_mem b hw st1 instr ms1 extra regs = Inr (r, ms', extra', st1')"
  shows "\<exists>r2 st2'. run_with_instr_seq_no_check_mem b hw st2 instr ms2 extra regs =
           Inr (r2, ms', extra', st2') \<and> same_result b r r2 \<and> mem_changes r2 = mem_changes r \<and>
           ready b st1' st2'"
proof -
  define ex where "ex = hw (padded b instr) regs (map loaded ms1 @ extra)"
  have inv: "runner_inv b st1" "runner_inv b st2" "same_env st1 st2" using rdy by (simp_all add: ready_def)
  note load = loaded_ids [OF ids] and l = same_ids(3) [OF ids]
  have ex2: "ex = hw (padded b instr) regs (map loaded ms2 @ extra)" by (simp add: ex_def load)
  have r: "collect_result b (after_run b st1 instr regs ex) = Inr r"
    and outs: "st1' = after_run b st1 instr regs ex"
      "ms' = take (length ms1) (set_mem (map loaded ms1 @ extra) (ex_mem ex))"
      "extra' = drop (length ms1) (set_mem (map loaded ms1 @ extra) (ex_mem ex))"
    using run unfolding run_eq [where hw = hw and extra = extra, OF inv(1) len wf(1) ex_def]
    by (auto simp: Let_def res_bind_Inr_iff)
  from collect_after_run [OF inv(3) r] obtain r2 where
    "collect_result b (after_run b st2 instr regs ex) = Inr r2" "same_result b r r2"
    "mem_changes r2 = mem_changes r" by blast
  with run_eq [where hw = hw and extra = extra, OF inv(2) len wf(2) ex2] after_run_ready [OF rdy len]
  show ?thesis by (simp add: Let_def outs load l)
qed

lemma extra_run_indep:
  assumes rdy: "ready b st1 st2" and len: "length instr \<le> MAX_SEQ_LEN b"
    and wf: "list_all wf_mapping ms1" "list_all wf_mapping ms2" "list_all wf_mapping ex1" "list_all wf_mapping ex2"
    and ids: "map map_id ms1 = map map_id ms2" "map map_id ex1 = map map_id ex2"
    and run: "run_with_instr_seq_no_check_mem_extra_mappings b hw st1 instr ms1 ex1 regs =
      Inr (r, ms', extra', st1')"
  shows "\<exists>r2 st2'. run_with_instr_seq_no_check_mem_extra_mappings b hw st2 instr ms2 ex2 regs =
           Inr (r2, ms', extra', st2') \<and> same_result b r r2 \<and> mem_changes r2 = mem_changes r \<and>
           ready b st1' st2'"
  using run run_indep [OF rdy len wf(1,2) ids(1)] loaded_ids [OF ids(2)]
  by (simp add: run_with_instr_seq_no_check_mem_extra_mappings_def load_memory_mappings_wf wf)

lemma same_result_fault:
  "same_result b r1 r2 \<Longrightarrow> is_fault r2 = is_fault r1 \<and> si_addrr r2 = si_addrr r1 \<and> signum r2 = signum r1"
  by (auto simp: same_result_def result_equal_iff is_fault_def)

lemma new_auto_mapping_eq:
  "new_auto_mapping b os_mapped st t =
     (if check_page_mapped b os_mapped st t then Inl (Exit 1 ''already mapped'')
      else if list_ex (\<lambda>r. pages_overlap r t (unat (page_size b))) (live st)
      then Inl (Exit EXIT_FAILURE ''mmap failed'')
      else Inr (st\<lparr>live := live st @ [(t, unat (page_size b))]\<rparr>,
        \<lparr>map_start = t, map_n = unat (page_size b),
          map_prot = (if flag_AUTO_MAP_MEM_RW_PROT b then PROT_WRITE OR PROT_READ else gen_random_prot t),
          map_val = page_content b t (unat (page_size b)), map_rw = replicate (unat (page_size b)) 0\<rparr>))"
  by (simp add: new_auto_mapping_def Let_def setup_memory_mapping_def check_and_map_shmem_fixed_def
      del: replicate.simps)

lemma new_auto_mapping_indep:
  assumes "ready b st1 st2" and "new_auto_mapping b os_mapped st1 t = Inr (st1', m)"
  shows "\<exists>st2'. new_auto_mapping b os_mapped st2 t = Inr (st2', m) \<and> ready b st1' st2'"
proof -
  have live: "live st2 = live st1" using assms(1) by (simp add: ready_def same_env_def)
  have "st1' = st1\<lparr>live := live st1 @ [(t, unat (page_size b))]\<rparr>"
    and "new_auto_mapping b os_mapped st2 t = Inr (st2\<lparr>live := live st1 @ [(t, unat (page_size b))]\<rparr>, m)"
    using assms(2) unfolding new_auto_mapping_eq check_page_mapped_def live
    by (simp_all split: if_splits)
  with assms(1) show ?thesis by (simp add: ready_def same_env_def runner_inv_def)
qed

lemma auto_map_allowed_indep:
  "ready b st1 st2 \<Longrightarrow> auto_map_allowed b os_mapped st2 t = auto_map_allowed b os_mapped st1 t"
  by (simp add: ready_def same_env_def auto_map_allowed_def check_page_mapped_def)

lemma auto_map_loop_indep:
  assumes "ready b st1 st2" and "same_result b r1 r2" and "length instr \<le> MAX_SEQ_LEN b"
    and "hw_ok b (instret_base_no_signal st1) (instret_base_signal st1) hw" and "wf_regs b regs_before"
    and "list_all wf_mapping ms" and "list_all wf_mapping autos"
    and "auto_map_loop b hw os_mapped instr regs_before r1 st1 ms autos = Inr (st1', ms', autos')"
  shows "\<exists>st2'. auto_map_loop b hw os_mapped instr regs_before r2 st2 ms autos = Inr (st2', ms', autos') \<and>
           ready b st1' st2'"
  using assms
proof (induction b hw os_mapped instr regs_before r1 st1 ms autos arbitrary: r2 st2 rule: auto_map_loop.induct)
  case (1 b hw os_mapped instr regs_before r1 st1 ms autos)
  note prems = "1.prems"
  let ?t = "auto_target b (si_addrr r1)"
  have addr: "si_addrr r2 = si_addrr r1" using same_result_fault [OF prems(2)] by simp
  note allow = auto_map_allowed_indep [OF prems(1), of os_mapped ?t]
  show ?case
  proof (cases "auto_map_allowed b os_mapped st1 ?t")
    case False
    with prems(1,8) allow addr show ?thesis by (subst (asm) auto_map_loop.simps, subst auto_map_loop.simps) auto
  next
    case True
    from new_auto_mapping_ok [OF True] obtain m where
      m: "new_auto_mapping b os_mapped st1 ?t = Inr (st1\<lparr>live := live st1 @ [(?t, unat (page_size b))]\<rparr>, m)"
        (is "_ = Inr (?s1, m)") and wfm: "wf_mapping m" by blast
    from new_auto_mapping_indep [OF prems(1) m] obtain s2 where
      m2: "new_auto_mapping b os_mapped st2 ?t = Inr (s2, m)" "ready b ?s1 s2" by blast
    have wfa: "list_all wf_mapping (autos @ [m])" using prems(7) wfm by simp
    have "hw_ok b (instret_base_no_signal ?s1) (instret_base_signal ?s1) hw" "runner_inv b ?s1"
      using prems(4) m2(2) by (simp_all add: ready_def)
    from extra_run_ok [OF this prems(3,6) wfa prems(5)] obtain r ms1 autos1 t1 where
      run: "run_with_instr_seq_no_check_mem_extra_mappings b hw ?s1 instr ms (autos @ [m]) regs_before =
        Inr (r, ms1, autos1, t1)" and post: "run_post b ?s1 ms (autos @ [m]) t1 ms1 autos1" by blast
    from extra_run_indep [OF m2(2) prems(3,6,6) wfa wfa refl refl run] obtain r' t2 where
      run2: "run_with_instr_seq_no_check_mem_extra_mappings b hw s2 instr ms (autos @ [m]) regs_before =
        Inr (r', ms1, autos1, t2)" "same_result b r r'" "ready b t1 t2" by blast
    have fault: "is_fault r' = is_fault r" using same_result_fault [OF run2(2)] by simp
    show ?thesis
    proof (cases "is_fault r \<and> length (autos @ [m]) < CHECK_MEM_MAX_TRIES b")
      case again: True
      have "auto_map_loop b hw os_mapped instr regs_before r t1 ms1 autos1 = Inr (st1', ms', autos')"
        using prems(8) True m run again by (subst (asm) auto_map_loop.simps) simp
      moreover have "hw_ok b (instret_base_no_signal t1) (instret_base_signal t1) hw"
        "list_all wf_mapping ms1" "list_all wf_mapping autos1"
        using post prems(4) by (simp_all add: run_post_def same_env_def)
      ultimately have "\<exists>st2'. auto_map_loop b hw os_mapped instr regs_before r' t2 ms1 autos1 =
          Inr (st2', ms', autos') \<and> ready b st1' st2'"
        using again run2 prems(3,5) True
        by (intro "1.IH" [OF refl _ m refl run refl refl refl]) simp_all
      then show ?thesis using True allow addr m2 run2 again fault
        by (subst auto_map_loop.simps) auto
    next
      case False
      with prems(8) True m run have "st1' = t1 \<and> ms' = ms1 \<and> autos' = autos1"
        by (subst (asm) auto_map_loop.simps) auto
      with False True allow addr m2 run2 fault show ?thesis
        by (subst auto_map_loop.simps) auto
    qed
  qed
qed

section \<open>The whole run\<close>

text \<open>What the callers of \<open>run_with_instr_seq\<close> establish.\<close>

definition run_pre :: "build \<Rightarrow> hw \<Rightarrow> u8 list \<Rightarrow> runner \<Rightarrow> u32 list \<Rightarrow> mapping list \<Rightarrow> regs \<Rightarrow> bool" where
  "run_pre b hw garbage st instr ms regs_before \<longleftrightarrow>
     hw_ok b (instret_base_no_signal st) (instret_base_signal st) hw \<and> runner_inv b st \<and>
     length instr \<le> MAX_SEQ_LEN b \<and> list_all wf_mapping ms \<and> wf_regs b regs_before \<and>
     sum_list (map map_n ms) < 2 ^ 31 \<and> length garbage = CHECK_MEM_CUT_AT"

abbreviation map_stage where
  "map_stage b hw os_mapped instr regs_before r st ms \<equiv>
     (if flag_AUTO_MAP_MEM b \<and> is_fault r
      then auto_map_loop b hw os_mapped instr regs_before r st ms []
      else Inr (st, ms, []))"

lemma CHECK_MEM_MAX_TRIES_pos: "0 < CHECK_MEM_MAX_TRIES b"
  by (simp add: CHECK_MEM_MAX_TRIES_def split: arch.split)

lemma autos_inv_Nil: "autos_inv b (live st) st []"
  by (simp add: autos_inv_def)

lemma map_stage_ok:
  assumes "hw_ok b (instret_base_no_signal st) (instret_base_signal st) hw" and "runner_inv b st"
    and "length instr \<le> MAX_SEQ_LEN b" and "list_all wf_mapping ms" and "wf_regs b regs_before"
  shows "\<exists>st' ms' autos. map_stage b hw os_mapped instr regs_before r st ms = Inr (st', ms', autos) \<and>
           runner_inv b st' \<and> same_env (st\<lparr>live := []\<rparr>) (st'\<lparr>live := []\<rparr>) \<and> list_all wf_mapping ms' \<and>
           map map_id ms' = map map_id ms \<and> autos_inv b (live st) st' autos"
proof (cases "flag_AUTO_MAP_MEM b \<and> is_fault r")
  case True
  with auto_map_loop_ok [OF assms autos_inv_Nil, of os_mapped r] CHECK_MEM_MAX_TRIES_pos [of b]
  show ?thesis by simp
next
  case False
  with assms autos_inv_Nil [of b st] show ?thesis by (auto simp: same_env_def)
qed

text \<open>Both runs of a whole run, with everything they leave, in one statement.\<close>

lemma whole_run:
  assumes pre: "run_pre b hw garbage st instr ms regs_before" and cm: "flag_CHECK_MEM b"
  obtains r1 ms1 st1 st2 ms2 autos r ms' autos' st3 cs freed where
    "run_with_instr_seq_no_check_mem b hw st instr ms [] regs_before = Inr (r1, ms1, [], st1)"
    "list_all wf_mapping ms1" "map_stage b hw os_mapped instr regs_before r1 st1 ms1 = Inr (st2, ms2, autos)"
    "run_post b st ms [] st1 ms1 []"
    "list_all wf_mapping ms2" "list_all wf_mapping autos" "map map_id ms2 = map map_id ms"
    "run_with_instr_seq_no_check_mem_extra_mappings b hw st2 instr ms2 autos regs_before =
       Inr (r, ms', autos', st3)"
    "check_mem b garbage (ms' @ autos') = Inr cs"
    "free_memory_mappings b st3 autos' = Inr (st3\<lparr>live := live st\<rparr>, freed)"
    "wf_result b (r\<lparr>mem_changes := cs\<rparr>)" "run_changes b ms' autos' (r\<lparr>mem_changes := cs\<rparr>)"
    "run_post b st2 ms2 autos st3 ms' autos'" "autos_inv b (live st) st3 autos'"
    "same_env st (st3\<lparr>live := live st\<rparr>)"
proof -
  note p = pre [unfolded run_pre_def]
  from run_ok [of b st hw instr ms "[]" regs_before] p obtain r1 ms1 extra1 st1 where
    run1: "run_with_instr_seq_no_check_mem b hw st instr ms [] regs_before = Inr (r1, ms1, extra1, st1)"
      "run_post b st ms [] st1 ms1 extra1" by auto
  have e: "extra1 = []" using run1(2) by (simp add: run_post_def)
  have hw1: "hw_ok b (instret_base_no_signal st1) (instret_base_signal st1) hw" "runner_inv b st1"
    "list_all wf_mapping ms1" "live st1 = live st" "map map_id ms1 = map map_id ms"
    using run1(2) p by (simp_all add: run_post_def same_env_def)
  have l: "length instr \<le> MAX_SEQ_LEN b" "wf_regs b regs_before" using p by simp_all
  from map_stage_ok [where os_mapped = os_mapped and r = r1, OF hw1(1,2) l(1) hw1(3) l(2)] obtain st2 ms2 autos where
    stage: "map_stage b hw os_mapped instr regs_before r1 st1 ms1 = Inr (st2, ms2, autos)" "runner_inv b st2"
      "same_env (st1\<lparr>live := []\<rparr>) (st2\<lparr>live := []\<rparr>)" "list_all wf_mapping ms2"
      "map map_id ms2 = map map_id ms1" "autos_inv b (live st) st2 autos" unfolding hw1(4) by blast
  have hw2: "hw_ok b (instret_base_no_signal st2) (instret_base_signal st2) hw"
    using hw1(1) stage(3) by (simp add: same_env_def)
  have "map map_n ms2 = map map_n ms" using stage(5) hw1(5) by (intro same_sizes) simp
  then have size: "sum_list (map map_n ms2) < 2 ^ 31" and g: "length garbage = CHECK_MEM_CUT_AT"
    using p by simp_all
  from final_run_ok [OF hw2 stage(2) l(1) stage(4) l(2) stage(6) size g]
  obtain r ms' autos' st3 cs freed where fin:
    "run_with_instr_seq_no_check_mem_extra_mappings b hw st2 instr ms2 autos regs_before =
       Inr (r, ms', autos', st3)"
    "check_mem b garbage (ms' @ autos') = Inr cs"
    "free_memory_mappings b st3 autos' = Inr (st3\<lparr>live := live st\<rparr>, freed)"
    "wf_result b (r\<lparr>mem_changes := cs\<rparr>)" "run_changes b ms' autos' (r\<lparr>mem_changes := cs\<rparr>)"
    "run_post b st2 ms2 autos st3 ms' autos'" "autos_inv b (live st) st3 autos'" by blast
  have "same_env st (st3\<lparr>live := live st\<rparr>)"
    using run1(2) stage(3) fin(6) by (simp add: same_env_def run_post_def)
  moreover have "list_all wf_mapping autos" using stage(6) by (simp add: autos_inv_def)
  ultimately show thesis
    using that run1 stage hw1(3,5) fin unfolding e by simp
qed

lemma map_stage_indep:
  assumes "ready b st1 st2" and "same_result b r1 r2" and "length instr \<le> MAX_SEQ_LEN b"
    and "hw_ok b (instret_base_no_signal st1) (instret_base_signal st1) hw" and "wf_regs b regs_before"
    and "list_all wf_mapping ms"
    and "map_stage b hw os_mapped instr regs_before r1 st1 ms = Inr (st1', ms', autos')"
  shows "\<exists>st2'. map_stage b hw os_mapped instr regs_before r2 st2 ms = Inr (st2', ms', autos') \<and>
           ready b st1' st2'"
  using assms auto_map_loop_indep [OF assms(1-6), of "[]" os_mapped] same_result_fault [OF assms(2)]
  by (auto split: if_splits)

lemma same_result_changes:
  "same_result b r1 r2 \<Longrightarrow> same_result b (r1\<lparr>mem_changes := cs\<rparr>) (r2\<lparr>mem_changes := cs\<rparr>)"
  using equivp_reflp [OF mem_change_equal.list_all2_eq_equivp, of cs]
  by (simp add: same_result_def result_equal_iff)

text \<open>The same pages are unmapped again in both states.\<close>

lemma free_indep:
  assumes "ready b st1 st2" and "autos_inv b base st1 autos"
  shows "\<exists>freed. free_memory_mappings b st2 autos = Inr (st2\<lparr>live := base\<rparr>, freed)"
  using assms by (intro free_autos) (simp_all add: ready_def same_env_def autos_inv_def)

lemma whole_run_indep:
  assumes pre: "run_pre b hw garbage st1 instr ms1 regs_before" and rdy: "ready b st1 st2"
    and wf2: "list_all wf_mapping ms2" and ids: "map map_id ms1 = map map_id ms2"
    and run: "run_with_instr_seq b hw os_mapped garbage st1 instr ms1 regs_before = Inr (r, ms', st1')"
  shows "\<exists>r2 st2'. run_with_instr_seq b hw os_mapped garbage st2 instr ms2 regs_before = Inr (r2, ms', st2') \<and>
           same_result b r r2 \<and> ready b st1' st2'"
proof -
  have l: "length instr \<le> MAX_SEQ_LEN b" "wf_regs b regs_before" and wf1: "list_all wf_mapping ms1"
    using pre by (simp_all add: run_pre_def)
  note one = run_indep [OF rdy l(1) wf1 wf2 ids]
  show ?thesis
  proof (cases "flag_CHECK_MEM b")
    case False
    with run obtain e where "run_with_instr_seq_no_check_mem b hw st1 instr ms1 [] regs_before = Inr (r, ms', e, st1')"
      by (auto simp: run_with_instr_seq_def res_bind_Inr_iff)
    from one [OF this] False show ?thesis by (auto simp: run_with_instr_seq_def)
  next
    case True
    from whole_run [where os_mapped = os_mapped, OF pre True]
    obtain p1 n1 s1 s2 n2 autos q n3 autos' s3 cs freed where
      w: "run_with_instr_seq_no_check_mem b hw st1 instr ms1 [] regs_before = Inr (p1, n1, [], s1)"
      "list_all wf_mapping n1" "map_stage b hw os_mapped instr regs_before p1 s1 n1 = Inr (s2, n2, autos)"
      "run_post b st1 ms1 [] s1 n1 []" "list_all wf_mapping n2" "list_all wf_mapping autos"
      "run_with_instr_seq_no_check_mem_extra_mappings b hw s2 instr n2 autos regs_before = Inr (q, n3, autos', s3)"
      "check_mem b garbage (n3 @ autos') = Inr cs"
      "free_memory_mappings b s3 autos' = Inr (s3\<lparr>live := live st1\<rparr>, freed)"
      "autos_inv b (live st1) s3 autos'" by metis
    have hw1: "hw_ok b (instret_base_no_signal s1) (instret_base_signal s1) hw"
      using pre w(4) by (simp add: run_pre_def run_post_def same_env_def)
    from one [OF w(1)] obtain p2 t1 where
      a: "run_with_instr_seq_no_check_mem b hw st2 instr ms2 [] regs_before = Inr (p2, n1, [], t1)"
        "same_result b p1 p2" "ready b s1 t1" by blast
    from map_stage_indep [OF a(3,2) l(1) hw1 l(2) w(2,3)] obtain t2 where
      c: "map_stage b hw os_mapped instr regs_before p2 t1 n1 = Inr (t2, n2, autos)" "ready b s2 t2" by blast
    from extra_run_indep [OF c(2) l(1) w(5,5,6,6) refl refl w(7)] obtain q2 t3 where
      d: "run_with_instr_seq_no_check_mem_extra_mappings b hw t2 instr n2 autos regs_before =
            Inr (q2, n3, autos', t3)" "same_result b q q2" "ready b s3 t3" by blast
    from free_indep [OF d(3) w(10)] obtain freed2 where
      e: "free_memory_mappings b t3 autos' = Inr (t3\<lparr>live := live st1\<rparr>, freed2)" by blast
    have "r = q\<lparr>mem_changes := cs\<rparr>" "ms' = n3" "st1' = s3\<lparr>live := live st1\<rparr>"
      using run True w(1,3,7,8,9) by (simp_all add: run_with_instr_seq_def)
    moreover have "run_with_instr_seq b hw os_mapped garbage st2 instr ms2 regs_before =
        Inr (q2\<lparr>mem_changes := cs\<rparr>, n3, t3\<lparr>live := live st1\<rparr>)"
      using True a(1) c(1) d(1) w(8) e by (simp add: run_with_instr_seq_def)
    ultimately show ?thesis
      using same_result_changes [OF d(2)] d(3) by (simp add: ready_def runner_inv_def same_env_def)
  qed
qed

lemma whole_run_ok:
  assumes "run_pre b hw garbage st instr ms regs_before"
  shows "\<exists>r ms' st'. run_with_instr_seq b hw os_mapped garbage st instr ms regs_before = Inr (r, ms', st') \<and>
           wf_result b r \<and> runner_inv b st' \<and> same_env st st' \<and>
           list_all wf_mapping ms' \<and> map map_id ms' = map map_id ms \<and>
           (if flag_CHECK_MEM b
            then \<exists>autos. length autos \<le> CHECK_MEM_MAX_TRIES b \<and> list_all (auto_page b) autos \<and>
                   run_changes b ms' autos r
            else mem_changes r = [])"
proof (cases "flag_CHECK_MEM b")
  case False
  with run_ok [of b st hw instr ms "[]" regs_before] assms show ?thesis
    by (auto simp: run_pre_def run_with_instr_seq_def run_post_def)
next
  case True
  from whole_run [where os_mapped = os_mapped, OF assms True] obtain r1 ms1 st1 st2 ms2 autos r ms' autos' st3 cs freed where
    w: "run_with_instr_seq_no_check_mem b hw st instr ms [] regs_before = Inr (r1, ms1, [], st1)"
    "map_stage b hw os_mapped instr regs_before r1 st1 ms1 = Inr (st2, ms2, autos)"
    "map map_id ms2 = map map_id ms"
    "run_with_instr_seq_no_check_mem_extra_mappings b hw st2 instr ms2 autos regs_before =
       Inr (r, ms', autos', st3)"
    "check_mem b garbage (ms' @ autos') = Inr cs"
    "free_memory_mappings b st3 autos' = Inr (st3\<lparr>live := live st\<rparr>, freed)"
    and ok: "wf_result b (r\<lparr>mem_changes := cs\<rparr>)" "run_changes b ms' autos' (r\<lparr>mem_changes := cs\<rparr>)"
    "run_post b st2 ms2 autos st3 ms' autos'" "autos_inv b (live st) st3 autos'"
    "same_env st (st3\<lparr>live := live st\<rparr>)" by metis
  have "run_with_instr_seq b hw os_mapped garbage st instr ms regs_before =
      Inr (r\<lparr>mem_changes := cs\<rparr>, ms', st3\<lparr>live := live st\<rparr>)"
    using True w by (simp add: run_with_instr_seq_def)
  moreover have "runner_inv b (st3\<lparr>live := live st\<rparr>)" "list_all wf_mapping ms'"
    "map map_id ms' = map map_id ms" "length autos' \<le> CHECK_MEM_MAX_TRIES b" "list_all (auto_page b) autos'"
    using ok w(3) by (simp_all add: run_post_def runner_inv_def autos_inv_def)
  ultimately show ?thesis using ok True by auto
qed

section \<open>Runs over prefixes\<close>

text \<open>
  \<open>rs\<close> are the results of the prefixes of length \<open>n + 1\<close>, \<open>n + 2\<close>, ...; each is what a single run of
  that prefix gives in the state \<open>st\<close>, and all but the last end without a signal.
\<close>

definition prefix_results ::
  "build \<Rightarrow> (u32 list \<Rightarrow> (result \<times> mapping list \<times> runner) res) \<Rightarrow> u32 list \<Rightarrow> nat \<Rightarrow> nat \<Rightarrow> result list \<Rightarrow> bool" where
  "prefix_results b single instr n k rs \<longleftrightarrow>
     length rs \<le> k \<and> list_all (wf_result b) rs \<and>
     (\<forall>i<length rs. \<exists>r ms' st'. single (take (n + i + 1) instr) = Inr (r, ms', st') \<and> same_result b r (rs ! i)) \<and>
     (\<forall>i. i + 1 < length rs \<longrightarrow> signum (rs ! i) = 0) \<and>
     (length rs < k \<longrightarrow> rs \<noteq> [] \<and> signum (last rs) \<noteq> 0)"

lemma prefix_results_trap:
  assumes "single (take (n + 1) instr) = Inr (r', ms', st')" and "same_result b r' r" and "wf_result b r"
    and "signum r \<noteq> 0"
  shows "prefix_results b single instr n (Suc k) [r]"
  using assms by (simp add: prefix_results_def)

lemma prefix_results_Cons:
  assumes "single (take (n + 1) instr) = Inr (r', ms', st')" and "same_result b r' r" and "wf_result b r"
    and "signum r = 0" and "prefix_results b single instr (n + 1) k rs"
  shows "prefix_results b single instr n (Suc k) (r # rs)"
proof -
  have "\<exists>q ms' st'. single (take (n + i + 1) instr) = Inr (q, ms', st') \<and> same_result b q ((r # rs) ! i)"
    if "i < length (r # rs)" for i
    using that assms(1,2,5) by (cases i) (auto simp: prefix_results_def)
  moreover have "signum ((r # rs) ! i) = 0" if "i + 1 < length (r # rs)" for i
    using that assms(4,5) by (cases i) (auto simp: prefix_results_def)
  ultimately show ?thesis using assms(3,5) by (auto simp: prefix_results_def)
qed

lemma ready_trans: "ready b st1 st2 \<Longrightarrow> ready b st2 st3 \<Longrightarrow> ready b st1 st3"
  by (simp add: ready_def same_env_def)

lemma run_pre_ready:
  assumes "run_pre b hw garbage st instr ms regs_before" and "ready b st st'"
    and "list_all wf_mapping ms'" and "map map_id ms' = map map_id ms" and "length instr' \<le> length instr"
  shows "run_pre b hw garbage st' instr' ms' regs_before"
  using assms same_sizes [OF assms(4)] by (simp add: run_pre_def ready_def same_env_def)

lemma same_result_sym: "same_result b r1 r2 \<Longrightarrow> same_result b r2 r1"
  by (auto simp: same_result_def intro: result_equal.eq_sym)

lemma run_prefixes_ok:
  assumes pre: "run_pre b hw garbage st0 instr ms0 regs_before"
  shows "ready b st0 st \<Longrightarrow> list_all wf_mapping ms \<Longrightarrow> map map_id ms = map map_id ms0 \<Longrightarrow>
     \<exists>rs ms' st'. run_prefixes b hw os_mapped garbage st instr n k ms regs_before = Inr (rs, ms', st') \<and>
       ready b st0 st' \<and>
       prefix_results b (\<lambda>is. run_with_instr_seq b hw os_mapped garbage st0 is ms0 regs_before) instr n k rs"
proof (induction k arbitrary: n st ms)
  case 0
  then show ?case by (simp add: prefix_results_def)
next
  case (Suc k)
  let ?is = "take (n + 1) instr"
  let ?run = "\<lambda>is. run_with_instr_seq b hw os_mapped garbage st0 is ms0 regs_before"
  have preP: "run_pre b hw garbage st ?is ms regs_before"
    by (rule run_pre_ready [OF pre Suc.prems]) simp
  from whole_run_ok [where os_mapped = os_mapped, OF this] obtain r ms1 st1 where
    run: "run_with_instr_seq b hw os_mapped garbage st ?is ms regs_before = Inr (r, ms1, st1)"
      "wf_result b r" "runner_inv b st1" "same_env st st1" "list_all wf_mapping ms1"
      "map map_id ms1 = map map_id ms" by blast
  have "ready b st st0" and wf0: "list_all wf_mapping ms0"
    using Suc.prems(1) pre by (simp_all add: ready_def same_env_def run_pre_def)
  from whole_run_indep [OF preP this Suc.prems(3) run(1)] obtain r' ms' st' where
    single: "?run ?is = Inr (r', ms', st')" "same_result b r' r"
    using same_result_sym by blast
  have rdy1: "ready b st0 st1"
    using Suc.prems(1) run(3,4) by (auto simp: ready_def same_env_def)
  show ?case
  proof (cases "signum r = 0")
    case True
    from Suc.IH [OF rdy1 run(5), of "n + 1"] run(6) Suc.prems(3) obtain rs ms2 st2 where
      "run_prefixes b hw os_mapped garbage st1 instr (n + 1) k ms1 regs_before = Inr (rs, ms2, st2)"
      "ready b st0 st2" "prefix_results b ?run instr (n + 1) k rs" by auto
    with prefix_results_Cons [where single = ?run and k = k and rs = rs, OF single run(2) True] run(1) True show ?thesis by simp
  next
    case False
    with prefix_results_trap [where single = ?run and k = k, OF single run(2)] run(1) rdy1 show ?thesis by simp
  qed
qed

text \<open>The index as a number.\<close>

lemma unat_derive_instr_idx:
  assumes "sig \<noteq> 0" and "MAX_SEQ_LEN b < 2 ^ 30" and "0 < runner_code_start st"
    and "unat (runner_code_start st) + 4 * MAX_SEQ_LEN b < 2 ^ 64"
  shows "unat (derive_instr_idx b st sig pc) =
           (if unat pc \<in> {unat (runner_code_start st)..<unat (runner_code_start st) + 4 * MAX_SEQ_LEN b}
            then (unat pc - unat (runner_code_start st)) div 4 + 1 else 0)"
proof -
  have end_nat: "unat (runner_code_end b st) = unat (runner_code_start st) + 4 * MAX_SEQ_LEN b"
    using assms(2,4) by (simp add: runner_code_end_def unat_word_ariths unat_of_nat)
  show ?thesis
  proof (cases "unat pc \<in> {unat (runner_code_start st)..<unat (runner_code_start st) + 4 * MAX_SEQ_LEN b}")
    case True
    then have le: "runner_code_start st \<le> pc" and less: "pc < runner_code_end b st"
      using end_nat by (simp_all add: word_le_nat_alt word_less_nat_alt)
    have "pc \<noteq> 0" using le assms(3) by (auto simp: word_le_nat_alt word_less_nat_alt)
    moreover have d: "unat (pc - runner_code_start st) = unat pc - unat (runner_code_start st)"
      using le by (rule unat_sub)
    define q where "q = (unat pc - unat (runner_code_start st)) div 4"
    have q: "q < 2 ^ 30" using True assms(2) unfolding q_def by auto
    have "unat ((pc - runner_code_start st) div 4) = q" using d by (simp add: unat_div q_def)
    then have "unat ((pc - runner_code_start st) div 4 + 1) = q + 1"
      using q by (simp add: unat_word_ariths)
    then have "unat (ucast ((pc - runner_code_start st) div 4 + 1) :: u32) = q + 1"
      using q by (simp add: unsigned_ucast_eq take_bit_nat_eq_self unsigned_take_bit_eq)
    ultimately show ?thesis using True le less assms(1) by (simp add: derive_instr_idx_def q_def)
  next
    case False
    then have "\<not> (runner_code_start st \<le> pc \<and> pc < runner_code_end b st)"
      using end_nat by (auto simp: word_le_nat_alt word_less_nat_alt)
    with False show ?thesis by (auto simp: derive_instr_idx_def)
  qed
qed

section \<open>Properties\<close>


text \<open>
  C10. Runs do not influence each other. Two runners that agree on where the sandbox lies, on what is
  mapped and on the calibrated counters, and are otherwise in arbitrary states left by earlier runs,
  give results of equal value for the same sequence, the same registers and mappings with the same
  initial content; the mappings end in the same state and the runners agree again. The instructions,
  registers, signal data and pages of an earlier run do not leak into a later result.
\<close>

theorem run_with_instr_seq_independent:
  assumes "run_pre b hw garbage st1 instr ms1 regs_before" and "ready b st1 st2"
    and "list_all wf_mapping ms2" and "map map_id ms1 = map map_id ms2"
  shows "\<exists>r1 r2 ms' st1' st2'.
           run_with_instr_seq b hw os_mapped garbage st1 instr ms1 regs_before = Inr (r1, ms', st1') \<and>
           run_with_instr_seq b hw os_mapped garbage st2 instr ms2 regs_before = Inr (r2, ms', st2') \<and>
           same_result b r1 r2 \<and> ready b st1' st2'"
proof -
  from whole_run_ok [where os_mapped = os_mapped, OF assms(1)] obtain r ms' st' where
    "run_with_instr_seq b hw os_mapped garbage st1 instr ms1 regs_before = Inr (r, ms', st')" by blast
  with whole_run_indep [OF assms this] show ?thesis by blast
qed

text \<open>
  C16. The full-sequence mode returns one result per prefix. For a sequence of \<open>l\<close> instructions
  \<open>run_with_instr_seq_full_seq\<close> returns at most \<open>l\<close> results, the \<open>i\<close>-th equal in value to what a single
  run of the first \<open>i + 1\<close> instructions gives in the initial state; only the last one may carry a
  signal, and there are fewer than \<open>l\<close> only when it does.
\<close>

theorem full_seq_runs_prefixes:
  assumes "run_pre b hw garbage st instr ms regs_before"
  shows "\<exists>rs ms' st'.
           run_with_instr_seq_full_seq b hw os_mapped garbage st instr (length instr) ms regs_before =
             Inr (rs, ms', st') \<and> runner_inv b st' \<and> same_env st st' \<and>
           prefix_results b (\<lambda>is. run_with_instr_seq b hw os_mapped garbage st is ms regs_before)
             instr 0 (length instr) rs"
proof -
  have "ready b st st" "list_all wf_mapping ms"
    using assms by (simp_all add: run_pre_def ready_def same_env_def)
  from run_prefixes_ok [where os_mapped = os_mapped and n = 0 and k = "length instr", OF assms this refl]
  show ?thesis by (auto simp: run_with_instr_seq_full_seq_def ready_def)
qed

text \<open>
  C27. The instruction index names the instruction that trapped. When the machine traps at address
  \<open>pc\<close>, the index in the result is one more than the number of the sandbox slot that holds \<open>pc\<close>, and 0
  when \<open>pc\<close> lies outside the sandbox; neither the 64-bit subtraction nor the conversion to 32 bits
  wraps.
\<close>

theorem instr_idx_locates_trap:
  assumes "runner_inv b st" and "length instr \<le> MAX_SEQ_LEN b" and "list_all wf_mapping ms"
    and "ex_end (hw (padded b instr) regs_before (map loaded ms @ extra)) = Trapped sc" and "sc_signum sc \<noteq> 0"
    and "MAX_SEQ_LEN b < 2 ^ 30" and "0 < runner_code_start st"
    and "unat (runner_code_start st) + 4 * MAX_SEQ_LEN b < 2 ^ 64"
    and "run_with_instr_seq_no_check_mem b hw st instr ms extra regs_before = Inr (r, ms', extra', st')"
  shows "unat (instr_idx r) =
           (if unat (sc_pc sc) \<in>
               {unat (runner_code_start st)..<unat (runner_code_start st) + 4 * MAX_SEQ_LEN b}
            then (unat (sc_pc sc) - unat (runner_code_start st)) div 4 + 1 else 0)"
proof -
  have "instr_idx r = derive_instr_idx b st (sc_signum sc) (sc_pc sc)"
    using assms(9,4) unfolding run_eq [where hw = hw and extra = extra, OF assms(1-3) refl]
    by (auto simp: Let_def res_bind_Inr_iff collect_result_def after_run_def derive_instr_idx_def
        runner_code_end_def split: if_splits)
  then show ?thesis using unat_derive_instr_idx [OF assms(5-8)] by simp
qed

section \<open>A sample machine\<close>

text \<open>
  A machine with two instructions: 0 is illegal and traps at the start of the sandbox, any other
  sequence stores 0x41 in the first byte of every mapping and returns.
\<close>

definition sample_hw :: hw where
  "sample_hw c regs ms =
     \<lparr>ex_end = (if c ! 0 = 0
                then Trapped \<lparr>sc_signum = 4, sc_si_addr = 0x800000, sc_si_code = 1, sc_pc = 0x800000, sc_regs = regs\<rparr>
                else Returned regs),
      ex_meta_pre = \<lparr>cycle = 10, instret = 20\<rparr>, ex_meta_post = \<lparr>cycle = 30, instret = 50\<rparr>,
      ex_mem = (if c ! 0 = 0 then map map_rw ms else map (\<lambda>m. 0x41 # drop 1 (map_rw m)) ms)\<rparr>"

definition sample_runner :: "u32 list \<Rightarrow> runner" where
  "sample_runner c =
     \<lparr>global_signum = 0, global_si_addr = 0, global_si_pc = 0, global_si_code = 0,
      gregs_before = zero_regs riscv_vector_build, gregs_result = zero_regs riscv_vector_build,
      meta_pre = \<lparr>cycle = 0, instret = 0\<rparr>, meta_post = \<lparr>cycle = 0, instret = 0\<rparr>,
      runner_running = False, exception_stack_count = 0, signal_handled = False, alarm_set = False,
      code = c, runner_code_start = 0x800000, instret_base_no_signal = 8, instret_base_signal = 9,
      live = []\<rparr>"

definition sample_mapping :: mapping where
  "sample_mapping = \<lparr>map_start = 0x10000, map_n = 4, map_prot = 3, map_val = [1, 2, 3, 4], map_rw = [0, 0, 0, 0]\<rparr>"

lemma sample_hw_ok: "hw_ok riscv_vector_build 8 9 sample_hw"
  by (auto simp: hw_ok_def sample_hw_def Let_def list.rel_map riscv_vector_build_def wf_mapping_def
      list_all_iff intro!: list.rel_refl_strong)

lemma sample_run_pre:
  assumes "length c = 5" and "length instr \<le> 5"
  shows "run_pre riscv_vector_build sample_hw (replicate CHECK_MEM_CUT_AT 0) (sample_runner c) instr
           [sample_mapping] (zero_regs riscv_vector_build)"
  using assms sample_hw_ok
  by (simp add: run_pre_def sample_runner_def runner_inv_def riscv_vector_build_def
      sample_mapping_def wf_mapping_def wf_regs_def zero_regs_def)


theorem run_with_instr_seq_independent_witness:
  "\<exists>r1 r2 ms' st1' st2'.
     run_with_instr_seq riscv_vector_build sample_hw (\<lambda>_. False) (replicate CHECK_MEM_CUT_AT 0)
       (sample_runner [1, 2, 3, 4, 5]) [7] [sample_mapping] (zero_regs riscv_vector_build) = Inr (r1, ms', st1') \<and>
     run_with_instr_seq riscv_vector_build sample_hw (\<lambda>_. False) (replicate CHECK_MEM_CUT_AT 0)
       (sample_runner [9, 9, 9, 9, 9]) [7] [sample_mapping] (zero_regs riscv_vector_build) = Inr (r2, ms', st2') \<and>
     same_result riscv_vector_build r1 r2"
proof -
  have pre: "run_pre riscv_vector_build sample_hw (replicate CHECK_MEM_CUT_AT 0) (sample_runner c) [7]
      [sample_mapping] (zero_regs riscv_vector_build)" if "length c = 5" for c
    using that by (rule sample_run_pre) simp
  have "ready riscv_vector_build (sample_runner [1, 2, 3, 4, 5]) (sample_runner [9, 9, 9, 9, 9])"
    using pre [of "[1, 2, 3, 4, 5]"] pre [of "[9, 9, 9, 9, 9]"]
    by (simp add: ready_def run_pre_def) (simp add: same_env_def sample_runner_def)
  moreover have "list_all wf_mapping [sample_mapping]" by (simp add: sample_mapping_def wf_mapping_def)
  ultimately show ?thesis
    using run_with_instr_seq_independent [where os_mapped = "\<lambda>_. False", OF pre [of "[1, 2, 3, 4, 5]"]]
    by fastforce
qed

theorem full_seq_runs_prefixes_witness:
  "\<exists>rs ms' st'.
     run_with_instr_seq_full_seq riscv_vector_build sample_hw (\<lambda>_. False) (replicate CHECK_MEM_CUT_AT 0)
       (sample_runner [1, 2, 3, 4, 5]) [7, 0] 2 [sample_mapping] (zero_regs riscv_vector_build) =
       Inr (rs, ms', st') \<and> length rs \<le> 2"
proof -
  have "run_pre riscv_vector_build sample_hw (replicate CHECK_MEM_CUT_AT 0) (sample_runner [1, 2, 3, 4, 5]) [7, 0]
      [sample_mapping] (zero_regs riscv_vector_build)"
    by (rule sample_run_pre) simp_all
  from full_seq_runs_prefixes [where os_mapped = "\<lambda>_. False", OF this] show ?thesis
    by (auto simp: prefix_results_def numeral_2_eq_2)
qed

theorem instr_idx_locates_trap_witness:
  "\<exists>r ms' extra' st'.
     run_with_instr_seq_no_check_mem riscv_vector_build sample_hw (sample_runner [1, 2, 3, 4, 5]) [0]
       [sample_mapping] [] (zero_regs riscv_vector_build) = Inr (r, ms', extra', st') \<and> unat (instr_idx r) = 1"
proof -
  let ?st = "sample_runner [1, 2, 3, 4, 5]"
  have pre: "run_pre riscv_vector_build sample_hw (replicate CHECK_MEM_CUT_AT 0) ?st [0]
      [sample_mapping] (zero_regs riscv_vector_build)"
    by (rule sample_run_pre) simp_all
  then obtain r ms' extra' st' where run: "run_with_instr_seq_no_check_mem riscv_vector_build sample_hw ?st [0]
      [sample_mapping] [] (zero_regs riscv_vector_build) = Inr (r, ms', extra', st')"
    using run_ok [of riscv_vector_build ?st sample_hw "[0]" "[sample_mapping]" "[]" "zero_regs riscv_vector_build"]
    by (auto simp: run_pre_def)
  have "ex_end (sample_hw (padded riscv_vector_build [0]) (zero_regs riscv_vector_build) (map loaded [sample_mapping] @ [])) =
      Trapped \<lparr>sc_signum = 4, sc_si_addr = 0x800000, sc_si_code = 1, sc_pc = 0x800000,
        sc_regs = zero_regs riscv_vector_build\<rparr>"
    by (simp add: sample_hw_def padded_def)
  from instr_idx_locates_trap [OF _ _ _ this _ _ _ _ run] pre have "unat (instr_idx r) = 1"
    by (simp add: run_pre_def) (simp add: sample_runner_def riscv_vector_build_def)
  with run show ?thesis by blast
qed

end
