(* ===== verification/Client.thy ===== *)
theory Client
  imports Generator Connection Runner
begin

text \<open>
  The client's main loop: \<open>start_client\<close> of diffuzz-client.c from the batch the server sends to the
  answer, and the server's packing of inputs (pyutils/inp.py). The generator, the runner, the packing
  of results and the connection are the other theories; here they are composed. A batch is a number
  of \<^verbatim>\<open>struct input\<close> in a byte buffer, in one of four layouts chosen at build time.
\<close>

section \<open>The layout of an input\<close>

datatype input_mode = JUST_SEQ_NUM | WITH_REGS | WITH_FULL_REGS | INSTRS_ONLY

definition num_selects :: "build \<Rightarrow> nat" where
  "num_selects b = gp_count b + (if flag_FLOATS b then 32 else 0) + (if flag_VECTOR b then VEC_REG_SIZE div 8 * 32 else 0)"

definition sizeof_regs :: "build \<Rightarrow> nat" where
  "sizeof_regs b = sum_list (map snd (regs_members b))"

text \<open>The bytes before \<^verbatim>\<open>n_instrs\<close>; the instructions are aligned to 4 bytes.\<close>

definition head_size :: "build \<Rightarrow> input_mode \<Rightarrow> nat" where
  "head_size b mode = (case mode of WITH_REGS \<Rightarrow> num_selects b | WITH_FULL_REGS \<Rightarrow> sizeof_regs b | _ \<Rightarrow> 0)"

definition instr_offset :: "build \<Rightarrow> input_mode \<Rightarrow> nat" where
  "instr_offset b mode = (head_size b mode + 2 + 3) div 4 * 4"

definition sizeof_input :: "build \<Rightarrow> input_mode \<Rightarrow> nat" where
  "sizeof_input b mode = (case mode of JUST_SEQ_NUM \<Rightarrow> 12 | _ \<Rightarrow> instr_offset b mode + 4)"

definition max_input_size :: "build \<Rightarrow> input_mode \<Rightarrow> nat" where
  "max_input_size b mode =
     (case mode of JUST_SEQ_NUM \<Rightarrow> sizeof_input b mode | _ \<Rightarrow> sizeof_input b mode + (MAX_SEQ_LEN b - 1) * 4)"

section \<open>Reading an input\<close>

text \<open>A read past the buffer is undefined.\<close>

definition rd :: "nat \<Rightarrow> u8 list \<Rightarrow> nat \<Rightarrow> nat res" where
  "rd k buf off = (if off + k \<le> length buf then Inr (le_load (take k (drop off buf))) else Inl (Undefined ''inputs_buf''))"

definition value_at :: "u64 list \<Rightarrow> nat \<Rightarrow> u64 res" where
  "value_at table i = (if i < length table then Inr (table ! i) else Inl (Undefined ''fuzzing_value_map''))"

definition select_at :: "u64 list \<Rightarrow> u8 list \<Rightarrow> nat \<Rightarrow> u64 res" where
  "select_at table buf off = res_bind (rd 1 buf off) (value_at table)"

text \<open>The registers an input selects from the tables.\<close>

definition select_regs :: "build \<Rightarrow> u8 list \<Rightarrow> nat \<Rightarrow> regs \<Rightarrow> regs res" where
  "select_regs b buf off r =
     (let off_fp = off + gp_count b; off_vec = off_fp + (if flag_FLOATS b then 32 else 0)
      in res_bind (map_res (\<lambda>i. select_at (fuzzing_value_map_gp b) buf (off + i)) [0..<gp_count b]) (\<lambda>gps.
         res_bind (if flag_FLOATS b
                   then map_res (\<lambda>i. select_at fuzzing_value_map_fp buf (off_fp + i)) [0..<32]
                   else Inr (fp r)) (\<lambda>fps.
         res_bind (if flag_VECTOR b
                   then map_res (\<lambda>i. res_bind (map_res (\<lambda>j. select_at (fuzzing_value_map_gp b) buf
                                                    (off_vec + (i * VEC_REG_SIZE div 8 + j))) [0..<VEC_REG_SIZE div 8])
                                       (\<lambda>ws. Inr (le_words ws))) [0..<32]
                   else Inr (vec r)) (\<lambda>vs.
           Inr (r\<lparr>gp := gps, fp := fps, vec := vs\<rparr>)))))"

text \<open>\<^verbatim>\<open>memcpy(&regs, &input->regs, sizeof(regs))\<close>\<close>

definition words_at :: "u8 list \<Rightarrow> nat \<Rightarrow> nat \<Rightarrow> u64 list" where
  "words_at img off n = map (\<lambda>i. of_nat (le_load (take 8 (drop (off + 8 * i) img)))) [0..<n]"

definition vecs_at :: "u8 list \<Rightarrow> nat \<Rightarrow> u8 list list" where
  "vecs_at img off = map (\<lambda>i. take VEC_REG_SIZE (drop (off + VEC_REG_SIZE * i) img)) [0..<32]"

definition regs_of_image :: "build \<Rightarrow> u8 list \<Rightarrow> regs \<Rightarrow> regs" where
  "regs_of_image b img r =
     (case arch b of
        RISCV64 \<Rightarrow>
          let r1 = r\<lparr>gp := words_at img 0 31\<rparr>;
              r2 = (if flag_FLOATS b then r1\<lparr>fcsr := words_at img 248 1 ! 0, fp := words_at img 256 32\<rparr> else r1)
          in if flag_VECTOR b then r2\<lparr>vec := vecs_at img (if flag_FLOATS b then 512 else 248)\<rparr> else r2
      | AARCH64 \<Rightarrow>
          let r1 = r\<lparr>gp := words_at img 0 32, pstate := words_at img 256 1 ! 0\<rparr>;
              r2 = (if flag_FLOATS b \<or> flag_VECTOR b then r1\<lparr>fpsr := words_at img 264 1 ! 0\<rparr> else r1);
              r3 = (if flag_FLOATS b then r2\<lparr>fp := words_at img 272 32\<rparr> else r2)
          in if flag_VECTOR b then r3\<lparr>vec := vecs_at img 272\<rparr> else r3)"

definition filler_64 :: u64 where "filler_64 = 0xdeadbeefdeadbeef"

definition filler_regs :: "build \<Rightarrow> regs \<Rightarrow> regs" where
  "filler_regs b r =
     r\<lparr>gp := replicate (gp_count b) filler_64, pstate := filler_64, fpsr := filler_64, fcsr := filler_64,
       fp := replicate 32 filler_64, vec := replicate 32 (le_words (replicate (VEC_REG_SIZE div 8) filler_64))\<rparr>"

definition zero_status :: "build \<Rightarrow> regs \<Rightarrow> regs" where
  "zero_status b r =
     (case arch b of
        RISCV64 \<Rightarrow> if flag_FLOATS b then r\<lparr>fcsr := 0\<rparr> else r
      | AARCH64 \<Rightarrow> if flag_FLOATS b \<or> flag_VECTOR b then r\<lparr>pstate := 0, fpsr := 0\<rparr> else r\<lparr>pstate := 0\<rparr>)"

definition read_regs :: "build \<Rightarrow> input_mode \<Rightarrow> u8 list \<Rightarrow> nat \<Rightarrow> regs \<Rightarrow> regs res" where
  "read_regs b mode buf off r =
     (case mode of
        WITH_REGS \<Rightarrow> res_bind (select_regs b buf off r) (\<lambda>r'. Inr (zero_status b r'))
      | WITH_FULL_REGS \<Rightarrow>
          if off + sizeof_regs b \<le> length buf then Inr (regs_of_image b (take (sizeof_regs b) (drop off buf)) r)
          else Inl (Undefined ''inputs_buf'')
      | INSTRS_ONLY \<Rightarrow> Inr (zero_status b (filler_regs b r))
      | JUST_SEQ_NUM \<Rightarrow> Inr r)"

text \<open>What an input asks for: a range of generated inputs, or one given input.\<close>

datatype client_input =
  Sequences u64 nat nat bool
| Given regs "u32 list" bool

definition read_input :: "build \<Rightarrow> input_mode \<Rightarrow> u8 list \<Rightarrow> nat \<Rightarrow> regs \<Rightarrow> (client_input \<times> nat) res" where
  "read_input b mode buf off r =
     (if mode = JUST_SEQ_NUM
      then res_bind (rd 8 buf off) (\<lambda>seq_num. res_bind (rd 2 buf (off + 8)) (\<lambda>n.
           res_bind (rd 1 buf (off + 10)) (\<lambda>seq_len. res_bind (rd 1 buf (off + 11)) (\<lambda>full_seq.
             Inr (Sequences (of_nat seq_num) n seq_len (full_seq \<noteq> 0), off + sizeof_input b mode)))))
      else res_bind (read_regs b mode buf off r) (\<lambda>r'.
           res_bind (rd 1 buf (off + head_size b mode)) (\<lambda>n_instrs.
           res_bind (rd 1 buf (off + head_size b mode + 1)) (\<lambda>full_seq.
           res_bind (map_res (\<lambda>i. rd 4 buf (off + instr_offset b mode + 4 * i)) [0..<n_instrs]) (\<lambda>instrs.
             Inr (Given r' (map of_nat instrs) (full_seq \<noteq> 0),
                  off + instr_offset b mode + 4 * n_instrs))))))"

section \<open>Running a batch\<close>

record client_env =
  ce_build :: build
  ce_mode :: input_mode
  ce_instructions :: "Instruction list"
  ce_hw :: hw
  ce_os_mapped :: "u64 \<Rightarrow> bool"
  ce_garbage :: "u8 list"

record client =
  cl_runner :: runner
  cl_generator :: random_difffuzz_generator
  cl_regs :: regs
  cl_out :: "u8 list"

definition OUT_BIGBUFFER_SIZE :: nat where "OUT_BIGBUFFER_SIZE = 10 * 2 ^ 20"

text \<open>The packed bytes are written before the assertion is checked.\<close>

definition append_out :: "u8 list \<Rightarrow> client \<Rightarrow> client res" where
  "append_out x c =
     (let out = cl_out c @ x
      in if length out > OUT_BIGBUFFER_SIZE then Inl (Undefined ''out_bigbuffer'')
         else res_bind (c_assert (length out < OUT_BIGBUFFER_SIZE) ''bigbuffer_out_i < OUT_BIGBUFFER_SIZE'')
                (\<lambda>_. Inr (c\<lparr>cl_out := out\<rparr>)))"

definition run_input :: "client_env \<Rightarrow> u32 list \<Rightarrow> bool \<Rightarrow> client \<Rightarrow> client res" where
  "run_input e instr_seq full_seq c =
     (let b = ce_build e
      in if full_seq
         then res_bind (run_with_instr_seq_full_seq b (ce_hw e) (ce_os_mapped e) (ce_garbage e) (cl_runner c)
                          instr_seq (length instr_seq) [] (cl_regs c)) (\<lambda>(rs, _, st).
              res_bind (pack_results b rs (cl_regs c)) (\<lambda>x. append_out x (c\<lparr>cl_runner := st\<rparr>)))
         else res_bind (run_with_instr_seq b (ce_hw e) (ce_os_mapped e) (ce_garbage e) (cl_runner c)
                          instr_seq [] (cl_regs c)) (\<lambda>(r, _, st).
              res_bind (pack_result b r (cl_regs c)) (\<lambda>x. append_out x (c\<lparr>cl_runner := st\<rparr>))))"

text \<open>The inner loop of \<^verbatim>\<open>JUST_SEQ_NUM\<close>; the sequence is generated into \<^verbatim>\<open>MAX_SEQ_LEN\<close> words.\<close>

fun run_sequences :: "client_env \<Rightarrow> nat \<Rightarrow> u64 \<Rightarrow> nat \<Rightarrow> bool \<Rightarrow> client \<Rightarrow> client res" where
  "run_sequences e 0 seq_num seq_len full_seq c = Inr c"
| "run_sequences e (Suc k) seq_num seq_len full_seq c =
     (if seq_len > MAX_SEQ_LEN (ce_build e) then Inl (Undefined ''_instr_seq'')
      else res_bind (generate_input (ce_build e) (ce_instructions e) (cl_generator c) seq_num seq_len (cl_regs c))
             (\<lambda>(instr_seq, r, g).
           res_bind (run_input e instr_seq full_seq (c\<lparr>cl_generator := g, cl_regs := zero_status (ce_build e) r\<rparr>))
             (\<lambda>c'. run_sequences e k (seq_num + 1) seq_len full_seq c')))"

fun run_inputs :: "client_env \<Rightarrow> nat \<Rightarrow> u8 list \<Rightarrow> nat \<Rightarrow> client \<Rightarrow> client res" where
  "run_inputs e 0 buf off c = Inr c"
| "run_inputs e (Suc k) buf off c =
     res_bind (read_input (ce_build e) (ce_mode e) buf off (cl_regs c)) (\<lambda>(inp, off').
     res_bind (case inp of
                 Sequences seq_num n seq_len full_seq \<Rightarrow> run_sequences e n seq_num seq_len full_seq c
               | Given r instr_seq full_seq \<Rightarrow> run_input e instr_seq full_seq (c\<lparr>cl_regs := r\<rparr>)) (\<lambda>c'.
       run_inputs e k buf off' c'))"

text \<open>One iteration of the outer loop: receive a batch, run it, send the answer.\<close>

definition serve_batch ::
  "client_env \<Rightarrow> bool \<Rightarrow> 'z coder \<Rightarrow> 'z coder \<Rightarrow> nat \<Rightarrow> 'z connection_context \<times> u8 list \<times> client \<Rightarrow>
     ('z connection_context \<times> u8 list \<times> client) res" where
  "serve_batch e compress_recv inflate deflate max_batch_n s =
     (case s of (conn, buf, c) \<Rightarrow>
       res_bind (recv_msg_n (socket conn) 4) (\<lambda>(hdr, sk).
         let n = le_load hdr; cap = max_input_size (ce_build e) (ce_mode e) * n mod 2 ^ 32
         in if n > max_batch_n then Inl (Exit EXIT_FAILURE ''n > max_batch_n'')
            else res_bind (if compress_recv then recv_msg_compressed inflate (conn\<lparr>socket := sk\<rparr>) cap
                           else res_bind (recv_msg sk cap) (\<lambda>(x, sk'). Inr (x, conn\<lparr>socket := sk'\<rparr>))) (\<lambda>(msg, conn1).
              if length msg > length buf then Inl (Undefined ''inputs_buf'')
              else let buf' = msg @ drop (length msg) buf
                   in res_bind (run_inputs e n buf' 0 c) (\<lambda>c1.
                      res_bind (send_msg_compressed deflate conn1 (cl_out c1)) (\<lambda>conn2.
                        Inr (conn2, buf', c1\<lparr>cl_out := []\<rparr>))))))"

primrec serve_batches ::
  "nat \<Rightarrow> client_env \<Rightarrow> bool \<Rightarrow> 'z coder \<Rightarrow> 'z coder \<Rightarrow> nat \<Rightarrow> 'z connection_context \<times> u8 list \<times> client \<Rightarrow>
     ('z connection_context \<times> u8 list \<times> client) res" where
  "serve_batches 0 e compress_recv inflate deflate max_batch_n s = Inr s"
| "serve_batches (Suc k) e compress_recv inflate deflate max_batch_n s =
     res_bind (serve_batch e compress_recv inflate deflate max_batch_n s)
       (serve_batches k e compress_recv inflate deflate max_batch_n)"

section \<open>The server packs an input\<close>

text \<open>
  The classes of pyutils/inp.py. Numbers have the width their format character gives them, so
  \<^verbatim>\<open>struct.pack\<close> accepts them; native formats align the instructions to 4 bytes.
\<close>

datatype server_input =
  InputJustSeqNum u64 u16 u8 bool
| InputWithRegSelect "u8 list" "u8 list" "u8 list" "u32 list" bool
| InputWithValues regs "u32 list" bool
| FullInput "u32 list" bool

definition align_pad :: "nat \<Rightarrow> u8 list" where
  "align_pad k = replicate ((4 - k mod 4) mod 4) 0"

definition pack_instrs :: "u8 list \<Rightarrow> u32 list \<Rightarrow> bool \<Rightarrow> u8 list" where
  "pack_instrs head instr_seq full_seq =
     (let h = head @ [of_nat (length instr_seq), if full_seq then 1 else 0]
      in h @ align_pad (length h) @ concat (map (\<lambda>i. le_store 4 (unat i)) instr_seq))"

text \<open>Without floating-point registers the riscv64 class passes the list itself as one number.\<close>

definition pack_values :: "build \<Rightarrow> regs \<Rightarrow> py_error + u8 list" where
  "pack_values b r =
     (case arch b of
        RISCV64 \<Rightarrow>
          if \<not> flag_FLOATS b then Inl Struct_error
          else Inr (le_words (gp r) @ le_words (fp r) @ le_store 8 0 @ (if flag_VECTOR b then concat (vec r) else []))
      | AARCH64 \<Rightarrow>
          Inr (if flag_FLOATS b then le_words (gp r) @ le_store 8 0 @ le_store 8 0 @ le_words (fp r)
               else if flag_VECTOR b then le_words (gp r) @ le_store 8 0 @ le_store 8 0 @ concat (vec r)
               else le_words (gp r) @ le_store 8 0))"

fun pack_input :: "build \<Rightarrow> server_input \<Rightarrow> py_error + u8 list" where
  "pack_input b (InputJustSeqNum seq_num n seq_len full_seq) =
     Inr (le_store 8 (unat seq_num) @ le_store 2 (unat n) @ le_store 1 (unat seq_len) @ le_store 1 (if full_seq then 1 else 0))"
| "pack_input b (InputWithRegSelect gps fps vecs instr_seq full_seq) =
     Inr (pack_instrs (gps @ (if flag_FLOATS b then fps else []) @ (if flag_VECTOR b then vecs else [])) instr_seq full_seq)"
| "pack_input b (InputWithValues r instr_seq full_seq) =
     res_bind (pack_values b r) (\<lambda>head. Inr (pack_instrs head instr_seq full_seq))"
| "pack_input b (FullInput instr_seq full_seq) =
     (if instr_seq = [] then Inl Assertion_error else Inr (pack_instrs [] instr_seq full_seq))"

section \<open>Reading at an offset\<close>

text \<open>\<open>holds buf off xs\<close>: the buffer holds the bytes \<open>xs\<close> from offset \<open>off\<close> on.\<close>

definition holds :: "u8 list \<Rightarrow> nat \<Rightarrow> u8 list \<Rightarrow> bool" where
  "holds buf off xs \<longleftrightarrow> off + length xs \<le> length buf \<and> take (length xs) (drop off buf) = xs"

lemma holds_append: "holds buf off (xs @ ys) \<longleftrightarrow> holds buf off xs \<and> holds buf (off + length xs) ys"
proof
  assume h: "holds buf off (xs @ ys)"
  then have t: "take (length xs + length ys) (drop off buf) = xs @ ys" by (simp add: holds_def)
  have "take (length xs) (take (length xs + length ys) (drop off buf)) = xs" by (simp add: t)
  moreover have "drop (length xs) (take (length xs + length ys) (drop off buf)) = ys" by (simp add: t)
  ultimately show "holds buf off xs \<and> holds buf (off + length xs) ys"
    using h by (simp add: holds_def min_def drop_take add.commute)
next
  assume "holds buf off xs \<and> holds buf (off + length xs) ys"
  then show "holds buf off (xs @ ys)" by (simp add: holds_def take_add add.commute)
qed

lemma rd_holds: "holds buf off (le_store k x) \<Longrightarrow> rd k buf off = Inr (x mod 256 ^ k)"
  using le_load_store [of k x] by (simp add: holds_def rd_def)

lemma rd_byte: "holds buf off [w] \<Longrightarrow> rd 1 buf off = Inr (unat w)"
  by (simp add: holds_def rd_def)

lemma holds_nth: "holds buf off (concat (map f xs)) \<Longrightarrow> (\<And>x. x \<in> set xs \<Longrightarrow> length (f x) = k) \<Longrightarrow> i < length xs \<Longrightarrow>
    holds buf (off + k * i) (f (xs ! i))"
proof (induction xs arbitrary: off i)
  case (Cons x xs)
  show ?case
  proof (cases i)
    case 0
    then show ?thesis using Cons.prems by (simp add: holds_append)
  next
    case (Suc j)
    have "holds buf (off + k) (concat (map f xs))" using Cons.prems by (simp add: holds_append)
    then have "holds buf (off + k + k * j) (f (xs ! j))" using Cons.prems Suc by (intro Cons.IH) simp_all
    then show ?thesis using Suc by (simp add: add.assoc)
  qed
qed simp

lemma map_res_nth:
  "(\<And>i. i < length xs \<Longrightarrow> f i = Inr (xs ! i)) \<Longrightarrow> n = length xs \<Longrightarrow> map_res f [0..<n] = Inr xs"
  by (subst map_res_Inr [where g = "\<lambda>i. xs ! i"]) (simp_all add: map_nth)

lemma align4: "k + (4 - k mod 4) mod 4 = (k + 3) div 4 * (4 :: nat)"
proof -
  define q r where "q = k div 4" and "r = k mod 4"
  then have k: "k = 4 * q + r" and "r < 4" by simp_all
  then consider "r = 0" | "r = 1" | "r = 2" | "r = 3" by linarith
  then show ?thesis by cases (simp_all add: k mod_Suc)
qed

lemma read_instrs:
  assumes "holds buf off (pack_instrs head instr_seq full_seq)" and "length instr_seq < 256"
  shows "holds buf off head" "rd 1 buf (off + length head) = Inr (length instr_seq)"
    "rd 1 buf (off + length head + 1) = Inr (if full_seq then 1 else 0)"
    "map_res (\<lambda>i. rd 4 buf (off + (length head + 2 + 3) div 4 * 4 + 4 * i)) [0..<length instr_seq] = Inr (map unat instr_seq)"
    "length (pack_instrs head instr_seq full_seq) = (length head + 2 + 3) div 4 * 4 + 4 * length instr_seq"
proof -
  let ?k = "length head + 2"
  let ?flag = "if full_seq then 1 else 0 :: u8"
  have al: "?k + length (align_pad ?k) = (?k + 3) div 4 * 4" by (simp only: align_pad_def length_replicate align4)
  have split: "pack_instrs head instr_seq full_seq =
      head @ [of_nat (length instr_seq)] @ [?flag] @ align_pad ?k @ concat (map (\<lambda>i. le_store 4 (unat i)) instr_seq)"
    by (simp add: pack_instrs_def)
  have h: "holds buf off head" "holds buf (off + length head) [of_nat (length instr_seq)]"
    "holds buf (off + length head + 1) [?flag]"
    "holds buf (off + (?k + length (align_pad ?k))) (concat (map (\<lambda>i. le_store 4 (unat i)) instr_seq))"
  proof -
    have at: "off + length head + length [of_nat (length instr_seq) :: u8] = off + length head + 1"
      "off + length head + 1 + length [?flag] + length (align_pad ?k) = off + (?k + length (align_pad ?k))" by simp_all
    show "holds buf off head" "holds buf (off + length head) [of_nat (length instr_seq)]"
      "holds buf (off + length head + 1) [?flag]"
      "holds buf (off + (?k + length (align_pad ?k))) (concat (map (\<lambda>i. le_store 4 (unat i)) instr_seq))"
      using assms(1) unfolding split holds_append at by simp_all
  qed
  show "holds buf off head" by (rule h)
  have "unat (of_nat (length instr_seq) :: u8) = length instr_seq"
    using assms(2) by (intro unat_of_nat_u8)
  then show "rd 1 buf (off + length head) = Inr (length instr_seq)" using rd_byte [OF h(2)] by simp
  show "rd 1 buf (off + length head + 1) = Inr (if full_seq then 1 else 0)" using rd_byte [OF h(3)] by simp
  have "rd 4 buf (off + (?k + 3) div 4 * 4 + 4 * i) = Inr (map unat instr_seq ! i)" if "i < length instr_seq" for i
  proof -
    have "holds buf (off + (?k + 3) div 4 * 4 + 4 * i) (le_store 4 (unat (instr_seq ! i)))"
      using holds_nth [OF h(4), of 4 i] that by (simp only: al length_le_store)
    from rd_holds [OF this] that show ?thesis
      using unat_bounds(3) [of "instr_seq ! i"] by simp
  qed
  then show "map_res (\<lambda>i. rd 4 buf (off + (?k + 3) div 4 * 4 + 4 * i)) [0..<length instr_seq] = Inr (map unat instr_seq)"
    by (intro map_res_nth) simp_all
  have "length (concat (map (\<lambda>i. le_store 4 (unat i)) instr_seq)) = 4 * length instr_seq"
    by (induction instr_seq) simp_all
  then have "length (pack_instrs head instr_seq full_seq) = ?k + length (align_pad ?k) + 4 * length instr_seq"
    unfolding split by simp
  then show "length (pack_instrs head instr_seq full_seq) = (?k + 3) div 4 * 4 + 4 * length instr_seq"
    by (simp only: al)
qed

section \<open>What the server means\<close>

text \<open>The registers as \<^verbatim>\<open>decode_regs\<close> of the server gives them.\<close>

definition selected_regs :: "build \<Rightarrow> u8 list \<Rightarrow> u8 list \<Rightarrow> u8 list \<Rightarrow> regs \<Rightarrow> regs" where
  "selected_regs b gps fps vecs r =
     zero_status b (r\<lparr>gp := map (\<lambda>s. server_value_map_gp b ! unat s) gps,
        fp := (if flag_FLOATS b then map (\<lambda>s. server_value_map_fp ! unat s) fps else fp r),
        vec := (if flag_VECTOR b
                then map (\<lambda>i. le_words (map (\<lambda>j. server_value_map_gp b ! unat (vecs ! (2 * i + j))) [0..<2])) [0..<32]
                else vec r)\<rparr>)"

definition value_regs :: "build \<Rightarrow> regs \<Rightarrow> regs \<Rightarrow> regs" where
  "value_regs b v r =
     zero_status b (r\<lparr>gp := gp v, fp := (if flag_FLOATS b then fp v else fp r), vec := (if flag_VECTOR b then vec v else vec r)\<rparr>)"

fun input_view :: "build \<Rightarrow> regs \<Rightarrow> server_input \<Rightarrow> client_input" where
  "input_view b r (InputJustSeqNum seq_num n seq_len full_seq) = Sequences seq_num (unat n) (unat seq_len) full_seq"
| "input_view b r (InputWithRegSelect gps fps vecs instr_seq full_seq) = Given (selected_regs b gps fps vecs r) instr_seq full_seq"
| "input_view b r (InputWithValues v instr_seq full_seq) = Given (value_regs b v r) instr_seq full_seq"
| "input_view b r (FullInput instr_seq full_seq) = Given (zero_status b (filler_regs b r)) instr_seq full_seq"

text \<open>The inputs the server makes for a client built in a mode.\<close>

fun input_ok :: "build \<Rightarrow> input_mode \<Rightarrow> server_input \<Rightarrow> bool" where
  "input_ok b mode (InputJustSeqNum seq_num n seq_len full_seq) \<longleftrightarrow> mode = JUST_SEQ_NUM"
| "input_ok b mode (InputWithRegSelect gps fps vecs instr_seq full_seq) \<longleftrightarrow>
     mode = WITH_REGS \<and> length instr_seq < 256 \<and> length gps = gp_count b \<and>
     list_all (\<lambda>s. unat s < length (server_value_map_gp b)) gps \<and>
     (flag_FLOATS b \<longrightarrow> length fps = 32 \<and> list_all (\<lambda>s. unat s < length server_value_map_fp) fps) \<and>
     (flag_VECTOR b \<longrightarrow> length vecs = 64 \<and> list_all (\<lambda>s. unat s < length (server_value_map_gp b)) vecs)"
| "input_ok b mode (InputWithValues v instr_seq full_seq) \<longleftrightarrow>
     mode = WITH_FULL_REGS \<and> arch b = AARCH64 \<and> wf_regs b v \<and> length instr_seq < 256"
| "input_ok b mode (FullInput instr_seq full_seq) \<longleftrightarrow> mode = INSTRS_ONLY \<and> instr_seq \<noteq> [] \<and> length instr_seq < 256"

lemma holds_byte: "holds buf off xs \<Longrightarrow> i < length xs \<Longrightarrow> holds buf (off + i) [xs ! i]"
  using holds_nth [of buf off "\<lambda>x. [x]" xs 1 i] by (simp add: concat_map_singleton)

lemma select_at_holds:
  assumes "holds buf off sel" and "i < length sel" and "list_all (\<lambda>s. unat s < length table) sel"
  shows "select_at table buf (off + i) = Inr (table ! unat (sel ! i))"
proof -
  have "unat (sel ! i) < length table" using assms(2,3) by (simp add: list_all_length)
  then show ?thesis using rd_byte [OF holds_byte [OF assms(1,2)]] by (simp add: select_at_def value_at_def)
qed

lemma select_all:
  assumes "holds buf off sel" and "list_all (\<lambda>s. unat s < length table) sel" and "n = length sel"
  shows "map_res (\<lambda>i. select_at table buf (off + i)) [0..<n] = Inr (map (\<lambda>s. table ! unat s) sel)"
  using select_at_holds [OF assms(1) _ assms(2)] assms(3) by (intro map_res_nth) simp_all

lemma words_at_holds: "holds img off (le_words ws) \<Longrightarrow> words_at img off (length ws) = ws"
proof -
  assume h: "holds img off (le_words ws)"
  have "of_nat (le_load (take 8 (drop (off + 8 * i) img))) = ws ! i" if "i < length ws" for i
  proof -
    have "holds img (off + 8 * i) (le_store 8 (unat (ws ! i)))"
      using holds_nth [of img off "\<lambda>w. le_store 8 (unat w)" ws 8 i] h that by (simp add: le_words_def)
    then have "take 8 (drop (off + 8 * i) img) = le_store 8 (unat (ws ! i))" by (simp add: holds_def)
    then show ?thesis using le_load_unat_store [of 8 "ws ! i"] by simp
  qed
  then show ?thesis by (auto simp: words_at_def intro: nth_equalityI)
qed

lemma word_at_holds: "holds img off (le_store 8 (unat w)) \<Longrightarrow> words_at img off 1 ! 0 = w"
  using words_at_holds [of img off "[w]"] by (simp add: le_words_def)

lemma vecs_at_holds:
  assumes "holds img off (concat vs)" and "length vs = 32" and "\<forall>v \<in> set vs. length v = VEC_REG_SIZE"
  shows "vecs_at img off = vs"
proof -
  have "take VEC_REG_SIZE (drop (off + VEC_REG_SIZE * i) img) = vs ! i" if "i < 32" for i
    using holds_nth [of img off id vs VEC_REG_SIZE i] assms that by (simp add: holds_def)
  then show ?thesis using assms(2) by (auto simp: vecs_at_def intro: nth_equalityI)
qed

lemma select_regs_holds:
  assumes "input_ok b WITH_REGS (InputWithRegSelect gps fps vecs instr_seq full_seq)"
    and "holds buf off (gps @ (if flag_FLOATS b then fps else []) @ (if flag_VECTOR b then vecs else []))"
  shows "res_bind (select_regs b buf off r) (\<lambda>r'. Inr (zero_status b r')) = Inr (selected_regs b gps fps vecs r)"
proof -
  let ?off_vec = "off + gp_count b + (if flag_FLOATS b then 32 else 0)"
  have lens: "length gps = gp_count b" "flag_FLOATS b \<Longrightarrow> length fps = 32" "flag_VECTOR b \<Longrightarrow> length vecs = 64"
    and small: "list_all (\<lambda>s. unat s < length (fuzzing_value_map_gp b)) gps"
      "flag_FLOATS b \<Longrightarrow> list_all (\<lambda>s. unat s < length fuzzing_value_map_fp) fps"
      "flag_VECTOR b \<Longrightarrow> list_all (\<lambda>s. unat s < length (fuzzing_value_map_gp b)) vecs"
    using assms(1) by (simp_all add: fuzzing_tables_agree)
  have h: "holds buf off gps" "flag_FLOATS b \<Longrightarrow> holds buf (off + gp_count b) fps" "flag_VECTOR b \<Longrightarrow> holds buf ?off_vec vecs"
    using assms(2) lens by (auto simp: holds_append)
  have g: "map_res (\<lambda>i. select_at (fuzzing_value_map_gp b) buf (off + i)) [0..<gp_count b] =
      Inr (map (\<lambda>s. fuzzing_value_map_gp b ! unat s) gps)"
    using lens(1) by (intro select_all [OF h(1) small(1)]) simp
  have f: "map_res (\<lambda>i. select_at fuzzing_value_map_fp buf (off + gp_count b + i)) [0..<32] =
      Inr (map (\<lambda>s. fuzzing_value_map_fp ! unat s) fps)" if "flag_FLOATS b"
    using lens(2) that by (intro select_all [OF h(2) small(2)]) simp_all
  have "map_res (\<lambda>j. select_at (fuzzing_value_map_gp b) buf (?off_vec + (i * VEC_REG_SIZE div 8 + j))) [0..<VEC_REG_SIZE div 8] =
      Inr (map (\<lambda>j. fuzzing_value_map_gp b ! unat (vecs ! (2 * i + j))) [0..<2])" if "flag_VECTOR b" "i < 32" for i
    using select_at_holds [OF h(3) _ small(3), OF that(1) _ that(1)] lens(3) that
    by (subst map_res_Inr [where g = "\<lambda>j. fuzzing_value_map_gp b ! unat (vecs ! (2 * i + j))"]) simp_all
  then have v: "map_res (\<lambda>i. res_bind (map_res (\<lambda>j. select_at (fuzzing_value_map_gp b) buf
        (?off_vec + (i * VEC_REG_SIZE div 8 + j))) [0..<VEC_REG_SIZE div 8]) (\<lambda>ws. Inr (le_words ws))) [0..<32] =
      Inr (map (\<lambda>i. le_words (map (\<lambda>j. fuzzing_value_map_gp b ! unat (vecs ! (2 * i + j))) [0..<2])) [0..<32])"
    if "flag_VECTOR b"
    using that by (intro map_res_Inr) simp
  show ?thesis
    using g f v
    by (cases "flag_FLOATS b"; cases "flag_VECTOR b")
      (simp_all add: select_regs_def selected_regs_def Let_def fuzzing_tables_agree)
qed

lemma values_holds:
  assumes "arch b = AARCH64" and "valid_build b" and "wf_regs b v" and "pack_values b v = Inr head" and "holds buf off head"
  shows "length head = sizeof_regs b"
    "regs_of_image b (take (sizeof_regs b) (drop off buf)) r = value_regs b v r"
proof -
  have gp: "length (gp v) = 32" "flag_FLOATS b \<Longrightarrow> length (fp v) = 32"
    "flag_VECTOR b \<Longrightarrow> length (vec v) = 32 \<and> (\<forall>x \<in> set (vec v). length x = VEC_REG_SIZE)"
    using assms(1,3) by (auto simp: wf_regs_def)
  have vlen: "flag_VECTOR b \<Longrightarrow> length (concat (vec v)) = 512"
    using gp(3) by (simp add: length_concat sum_list_triv cong: map_cong)
  show len: "length head = sizeof_regs b"
    using assms(1,2,4) gp vlen by (auto simp: pack_values_def sizeof_regs_def regs_members_def valid_build_def split: if_splits)
  then have img: "take (sizeof_regs b) (drop off buf) = head" using assms(5) by (simp add: holds_def)
  have self: "holds head 0 head" by (simp add: holds_def)
  have zero: "le_store 8 0 = le_store 8 (unat (0 :: u64))" by simp
  have parts: "words_at head 0 32 = gp v" "words_at head 256 1 ! 0 = 0"
    "flag_FLOATS b \<or> flag_VECTOR b \<Longrightarrow> words_at head 264 1 ! 0 = 0"
    "flag_FLOATS b \<Longrightarrow> words_at head 272 32 = fp v" "flag_VECTOR b \<Longrightarrow> vecs_at head 272 = vec v"
    using assms(1,2,4) self gp words_at_holds [of head 0 "gp v"] word_at_holds [of head 256 0] word_at_holds [of head 264 0]
      words_at_holds [of head 272 "fp v"] vecs_at_holds [of head 272 "vec v"]
    by (auto simp: pack_values_def holds_append valid_build_def split: if_splits)
  show "regs_of_image b (take (sizeof_regs b) (drop off buf)) r = value_regs b v r"
    using assms(1,2) parts unfolding img
    by (cases "flag_FLOATS b"; cases "flag_VECTOR b")
      (simp_all add: regs_of_image_def value_regs_def zero_status_def valid_build_def)
qed

lemma read_given:
  assumes "mode \<noteq> JUST_SEQ_NUM" and "holds buf off (pack_instrs head instr_seq full_seq)" and "length instr_seq < 256"
    and "read_regs b mode buf off r = Inr r'" and "length head = head_size b mode"
  shows "read_input b mode buf off r = Inr (Given r' instr_seq full_seq, off + length (pack_instrs head instr_seq full_seq))"
proof -
  note rd = read_instrs [OF assms(2,3)]
  show ?thesis
    using assms(1,4,5) rd(2-4) unfolding rd(5)
    by (simp add: read_input_def instr_offset_def add.assoc) (simp add: o_def)
qed

lemma read_input_packed:
  assumes "valid_build b" and "input_ok b mode inp" and "pack_input b inp = Inr bs" and "holds buf off bs"
  shows "read_input b mode buf off r = Inr (input_view b r inp, off + length bs)"
proof (cases inp)
  case (InputJustSeqNum seq_num n seq_len full_seq)
  have "holds buf off (le_store 8 (unat seq_num))" "holds buf (off + 8) (le_store 2 (unat n))"
    "holds buf (off + 10) (le_store 1 (unat seq_len))" "holds buf (off + 11) (le_store 1 (if full_seq then 1 else 0))"
    using assms(3,4) InputJustSeqNum by (auto simp: holds_append ac_simps simp del: le_store.simps)
  note rd = this [THEN rd_holds]
  show ?thesis
    using rd assms(2,3) unat_bounds(4) [of seq_num] unat_bounds(2) [of n] unat_bounds(1) [of seq_len]
    by (auto simp: InputJustSeqNum read_input_def sizeof_input_def)
next
  case (InputWithRegSelect gps fps vecs instr_seq full_seq)
  let ?head = "gps @ (if flag_FLOATS b then fps else []) @ (if flag_VECTOR b then vecs else [])"
  have h: "holds buf off (pack_instrs ?head instr_seq full_seq)" "length instr_seq < 256"
    and ok: "input_ok b WITH_REGS (InputWithRegSelect gps fps vecs instr_seq full_seq)" and mode: "mode = WITH_REGS"
    using assms(2-4) InputWithRegSelect by auto
  have "length ?head = head_size b mode"
    using ok mode by (simp add: head_size_def num_selects_def)
  with read_given [of mode buf off ?head, OF _ h] mode select_regs_holds [OF ok read_instrs(1) [OF h], of r] assms(3) InputWithRegSelect
  show ?thesis by (simp add: read_regs_def)
next
  case (InputWithValues v instr_seq full_seq)
  then obtain head where head: "pack_values b v = Inr head" "bs = pack_instrs head instr_seq full_seq"
    using assms(3) by (auto simp: res_bind_Inr_iff)
  have ok: "arch b = AARCH64" "wf_regs b v" "length instr_seq < 256" "mode = WITH_FULL_REGS"
    using assms(2) InputWithValues by auto
  have h: "holds buf off (pack_instrs head instr_seq full_seq)" using assms(4) head(2) by simp
  note val = values_holds [OF ok(1) assms(1) ok(2) head(1) read_instrs(1) [OF h ok(3)]]
  have "off + sizeof_regs b \<le> length buf" using read_instrs(1) [OF h ok(3)] val(1) by (simp add: holds_def)
  with read_given [of mode buf off head, OF _ h ok(3)] val ok(4) head(2) InputWithValues show ?thesis
    by (simp add: read_regs_def head_size_def)
next
  case (FullInput instr_seq full_seq)
  then show ?thesis
    using read_given [of mode buf off "[]" instr_seq full_seq] assms(2-4)
    by (auto simp: read_regs_def head_size_def split: if_splits)
qed

section \<open>Results that are the same pack the same\<close>

lemma mem_change_equal_packs: "mem_change_equal m1 m2 \<Longrightarrow> pack_mem_change m1 = pack_mem_change m2"
  by (auto simp: mem_change_equal_def pack_mem_change_def split: if_splits)

lemma memeq_parts:
  assumes "regs_memeq b r1 r2" and "wf_regs b r1" and "wf_regs b r2"
  shows "diff_entries b before r1 = diff_entries b before r2"
proof -
  have gp: "le_words (gp r1) = le_words (gp r2) \<longleftrightarrow> gp r1 = gp r2" "length (gp r1) = length (gp r2)"
    "flag_FLOATS b \<Longrightarrow> le_words (fp r1) = le_words (fp r2) \<longleftrightarrow> fp r1 = fp r2" "flag_FLOATS b \<Longrightarrow> length (fp r1) = length (fp r2)"
    using assms(2,3) by (auto simp: wf_regs_def le_words_inj)
  have vec: "flag_VECTOR b \<Longrightarrow> concat (vec r1) = concat (vec r2) \<longleftrightarrow> vec r1 = vec r2"
    using assms(2,3) concat_same_length_inj [of "vec r1" "vec r2" VEC_REG_SIZE] by (auto simp: wf_regs_def)
  show ?thesis
    using assms(1) gp vec unfolding regs_memeq_def regs_image_def
    by (cases "arch b"; cases "flag_FLOATS b"; cases "flag_VECTOR b")
      (auto simp: diff_entries_def loop_over_gp_diff_def loop_over_fp_diff_def loop_over_vector_regs_diff_def
        status_entry_def fp_u_def append_eq_append_conv)
qed

lemma same_result_packs:
  assumes "same_result b r1 r2" and "wf_result b r1" and "wf_result b r2"
  shows "pack_inner_result b r1 before = pack_inner_result b r2 before"
proof -
  have eq: "signum r1 = signum r2" "si_addrr r1 = si_addrr r2" "si_pc r1 = si_pc r2" "si_code r1 = si_code r2"
    "regs_memeq b (regs_result r1) (regs_result r2)" "meta_cycle r1 = meta_cycle r2" "meta_instret r1 = meta_instret r2"
    using assms(1) by (auto simp: same_result_def result_equal_def split: if_splits)
  have "pack_mem b r1 = pack_mem b r2"
  proof (cases "flag_CHECK_MEM b")
    case True
    then have mem: "length (mem_changes r1) = length (mem_changes r2)" "mem_changes_equal (mem_changes r1) (mem_changes r2)"
      using assms(1) by (auto simp: same_result_def result_equal_def split: if_splits)
    then have "map pack_mem_change (mem_changes r1) = map pack_mem_change (mem_changes r2)"
      by (subst list_eq_iff_nth_eq) (auto simp: mem_changes_equal_def list_all_iff intro: mem_change_equal_packs)
    with mem(1) show ?thesis by (simp add: pack_mem_def)
  qed (simp add: pack_mem_def)
  moreover have "diff_entries b before (regs_result r1) = diff_entries b before (regs_result r2)"
    using eq(5) assms(2,3) by (intro memeq_parts) (simp_all add: wf_result_def)
  ultimately show ?thesis
    using eq by (simp add: pack_inner_result_def pack_meta_def pack_signal_def)
qed

section \<open>Jobs and their outcomes\<close>

text \<open>One run the client has to do: the initial registers, the sequence, and whether all prefixes count.\<close>

type_synonym job = "regs \<times> u32 list \<times> bool"

fun expand_seq ::
  "client_env \<Rightarrow> nat \<Rightarrow> u64 \<Rightarrow> nat \<Rightarrow> bool \<Rightarrow> random_difffuzz_generator \<Rightarrow> regs \<Rightarrow>
     (job list \<times> random_difffuzz_generator \<times> regs) res" where
  "expand_seq e 0 seq_num seq_len full_seq g r = Inr ([], g, r)"
| "expand_seq e (Suc k) seq_num seq_len full_seq g r =
     res_bind (generate_input (ce_build e) (ce_instructions e) g seq_num seq_len r) (\<lambda>(instr_seq, r1, g1).
     res_bind (expand_seq e k (seq_num + 1) seq_len full_seq g1 (zero_status (ce_build e) r1)) (\<lambda>(js, g2, r2).
       Inr ((zero_status (ce_build e) r1, instr_seq, full_seq) # js, g2, r2)))"

fun expand ::
  "client_env \<Rightarrow> client_input \<Rightarrow> random_difffuzz_generator \<Rightarrow> regs \<Rightarrow> (job list \<times> random_difffuzz_generator \<times> regs) res" where
  "expand e (Sequences seq_num n seq_len full_seq) g r = expand_seq e n seq_num seq_len full_seq g r"
| "expand e (Given r' instr_seq full_seq) g r = Inr ([(r', instr_seq, full_seq)], g, r')"

fun batch_jobs ::
  "client_env \<Rightarrow> server_input list \<Rightarrow> random_difffuzz_generator \<Rightarrow> regs \<Rightarrow> (job list \<times> random_difffuzz_generator \<times> regs) res" where
  "batch_jobs e [] g r = Inr ([], g, r)"
| "batch_jobs e (inp # inps) g r =
     res_bind (expand e (input_view (ce_build e) r inp) g r) (\<lambda>(js, g1, r1).
     res_bind (batch_jobs e inps g1 r1) (\<lambda>(js', g2, r2). Inr (js @ js', g2, r2)))"

text \<open>
  The outcome of a job, relative to the state \<open>st0\<close> in which the client started: up to values that
  are never compared, what running the sequence alone in \<open>st0\<close> gives.
\<close>

definition single_run :: "client_env \<Rightarrow> runner \<Rightarrow> regs \<Rightarrow> u32 list \<Rightarrow> (result \<times> mapping list \<times> runner) res" where
  "single_run e st0 r instr_seq =
     run_with_instr_seq (ce_build e) (ce_hw e) (ce_os_mapped e) (ce_garbage e) st0 instr_seq [] r"

definition job_outcome :: "client_env \<Rightarrow> runner \<Rightarrow> job \<Rightarrow> outcome \<Rightarrow> bool" where
  "job_outcome e st0 j oc =
     (case (j, oc) of
        ((r, instr_seq, False), One x) \<Rightarrow>
          wf_result (ce_build e) x \<and>
          (\<exists>x0 ms st. single_run e st0 r instr_seq = Inr (x0, ms, st) \<and> same_result (ce_build e) x0 x)
      | ((r, instr_seq, True), Prefixes xs) \<Rightarrow>
          prefix_results (ce_build e) (single_run e st0 r) instr_seq 0 (length instr_seq) xs
      | _ \<Rightarrow> False)"

definition env_ok :: "client_env \<Rightarrow> runner \<Rightarrow> bool" where
  "env_ok e st0 \<longleftrightarrow>
     valid_build (ce_build e) \<and> runner_inv (ce_build e) st0 \<and> length (ce_garbage e) = CHECK_MEM_CUT_AT \<and>
     hw_ok (ce_build e) (instret_base_no_signal st0) (instret_base_signal st0) (ce_hw e)"

definition job_ok :: "build \<Rightarrow> job \<Rightarrow> bool" where
  "job_ok b j = (case j of (r, instr_seq, full_seq) \<Rightarrow>
     wf_regs b r \<and> length instr_seq \<le> MAX_SEQ_LEN b \<and> (full_seq \<longrightarrow> length instr_seq \<le> 15))"

definition answer :: "build \<Rightarrow> job list \<Rightarrow> outcome list \<Rightarrow> u8 list" where
  "answer b js ocs = concat (map2 (\<lambda>j oc. framed (outcome_body b (fst j, oc))) js ocs)"

lemma answer_simps [simp]:
  "answer b [] [] = []"
  "answer b (j # js) (oc # ocs) = framed (outcome_body b (fst j, oc)) @ answer b js ocs"
  "length js = length ocs \<Longrightarrow> answer b (js @ js') (ocs @ ocs') = answer b js ocs @ answer b js' ocs'"
  by (simp_all add: answer_def)

lemma append_out_cases:
  "if length (cl_out c @ x) < OUT_BIGBUFFER_SIZE then append_out x c = Inr (c\<lparr>cl_out := cl_out c @ x\<rparr>)
   else \<exists>err. append_out x c = Inl err"
  by (auto simp: append_out_def Let_def c_assert_def)

lemma job_outcome_ok:
  assumes "env_ok e st0" and "job_ok (ce_build e) j" and "job_outcome e st0 j oc"
  shows "outcome_ok (ce_build e) (fst j, oc)" and "length (outcome_body (ce_build e) (fst j, oc)) \<le> UINT16_MAX"
proof -
  show ok: "outcome_ok (ce_build e) (fst j, oc)"
    using assms by (cases oc) (auto simp: job_outcome_def outcome_ok_def env_ok_def job_ok_def result_ok_def
        prefix_results_def list_all_iff split: prod.splits bool.splits)
  have "length xs \<le> 15" if "oc = Prefixes xs" for xs
    using assms(2,3) that by (auto simp: job_outcome_def job_ok_def prefix_results_def split: prod.splits bool.splits)
  with ok show "length (outcome_body (ce_build e) (fst j, oc)) \<le> UINT16_MAX"
    by (intro length_outcome_body) (auto split: outcome.split)
qed

lemma run_input_ok:
  assumes "env_ok e st0" and "job_ok (ce_build e) (cl_regs c, instr_seq, full_seq)" and "ready (ce_build e) st0 (cl_runner c)"
  shows "\<exists>oc st. job_outcome e st0 (cl_regs c, instr_seq, full_seq) oc \<and> ready (ce_build e) st0 st \<and>
           run_input e instr_seq full_seq c =
             append_out (framed (outcome_body (ce_build e) (cl_regs c, oc))) (c\<lparr>cl_runner := st\<rparr>)"
proof -
  let ?b = "ce_build e"
  have pre0: "run_pre ?b (ce_hw e) (ce_garbage e) st0 instr_seq [] (cl_regs c)"
    using assms(1,2) by (simp add: env_ok_def job_ok_def run_pre_def)
  have pre: "run_pre ?b (ce_hw e) (ce_garbage e) (cl_runner c) instr_seq [] (cl_regs c)"
    by (rule run_pre_ready [OF pre0 assms(3)]) simp_all
  have rev: "ready ?b (cl_runner c) st0" using assms(3) by (simp add: ready_def same_env_def)
  show ?thesis
  proof (cases full_seq)
    case True
    obtain rs ms st where run: "run_prefixes ?b (ce_hw e) (ce_os_mapped e) (ce_garbage e) (cl_runner c) instr_seq 0
        (length instr_seq) [] (cl_regs c) = Inr (rs, ms, st)" "ready ?b st0 st"
        "prefix_results ?b (single_run e st0 (cl_regs c)) instr_seq 0 (length instr_seq) rs"
      using run_prefixes_ok [OF pre0 assms(3), of "[]" "ce_os_mapped e" 0 "length instr_seq"]
      unfolding single_run_def by auto
    then have oc: "job_outcome e st0 (cl_regs c, instr_seq, full_seq) (Prefixes rs)" using True by (simp add: job_outcome_def)
    have "pack_results ?b rs (cl_regs c) = Inr (framed (outcome_body ?b (cl_regs c, Prefixes rs)))"
      using pack_framed_fits [OF job_outcome_ok(2) [OF assms(1,2) oc]] by (simp add: pack_results_def outcome_body_def)
    with run True oc show ?thesis
      by (intro exI [of _ "Prefixes rs"] exI [of _ st])
        (simp add: run_input_def run_with_instr_seq_full_seq_def)
  next
    case False
    obtain x ms st where run: "run_with_instr_seq ?b (ce_hw e) (ce_os_mapped e) (ce_garbage e) (cl_runner c) instr_seq []
        (cl_regs c) = Inr (x, ms, st)" "wf_result ?b x" "runner_inv ?b st" "same_env (cl_runner c) st"
      using whole_run_ok [OF pre, of "ce_os_mapped e"] by blast
    obtain x0 ms0 st1 where "single_run e st0 (cl_regs c) instr_seq = Inr (x0, ms0, st1)" "same_result ?b x0 x"
      using whole_run_indep [OF pre rev _ _ run(1), of "[]"] same_result_sym unfolding single_run_def by fastforce
    then have oc: "job_outcome e st0 (cl_regs c, instr_seq, full_seq) (One x)" using False run(2) by (auto simp: job_outcome_def)
    have "ready ?b st0 st" using assms(3) run(3,4) by (simp add: ready_def same_env_def)
    moreover have "pack_result ?b x (cl_regs c) = Inr (framed (outcome_body ?b (cl_regs c, One x)))"
      using pack_framed_fits [OF job_outcome_ok(2) [OF assms(1,2) oc]] by (simp add: pack_result_def outcome_body_def)
    ultimately show ?thesis using run(1) False oc
      by (intro exI [of _ "One x"] exI [of _ st]) (simp add: run_input_def)
  qed
qed

text \<open>The outcomes of a list of jobs, and a computation that answers them.\<close>

definition answers ::
  "client_env \<Rightarrow> runner \<Rightarrow> job list \<Rightarrow> client \<Rightarrow> random_difffuzz_generator \<Rightarrow> regs \<Rightarrow> client res \<Rightarrow> bool" where
  "answers e st0 js c g r result \<longleftrightarrow>
     (\<exists>ocs st. list_all2 (job_outcome e st0) js ocs \<and> ready (ce_build e) st0 st \<and>
        (if length (cl_out c @ answer (ce_build e) js ocs) < OUT_BIGBUFFER_SIZE \<or> js = []
         then result = Inr \<lparr>cl_runner = st, cl_generator = g, cl_regs = r, cl_out = cl_out c @ answer (ce_build e) js ocs\<rparr>
         else \<exists>err. result = Inl err))"

lemma answers_Nil:
  assumes "ready (ce_build e) st0 (cl_runner c)"
  shows "answers e st0 [] c (cl_generator c) (cl_regs c) (Inr c)"
  unfolding answers_def using assms by (intro exI [of _ "[]"] exI [of _ "cl_runner c"]) (cases c, simp)

lemma answers_regs:
  "answers e st0 js (c\<lparr>cl_regs := r'\<rparr>) g r m \<longleftrightarrow> answers e st0 js c g r m"
  "answers e st0 js (c\<lparr>cl_generator := g'\<rparr>) g r m \<longleftrightarrow> answers e st0 js c g r m"
  by (simp_all add: answers_def)

lemma answers_append:
  assumes "answers e st0 js c g r m" and "\<And>c'. ready (ce_build e) st0 (cl_runner c') \<Longrightarrow> cl_generator c' = g \<Longrightarrow> cl_regs c' = r \<Longrightarrow>
      answers e st0 js' c' g' r' (f c')"
  shows "answers e st0 (js @ js') c g' r' (res_bind m f)"
proof -
  let ?b = "ce_build e"
  obtain ocs st where 1: "list_all2 (job_outcome e st0) js ocs" "ready ?b st0 st"
      "if length (cl_out c @ answer ?b js ocs) < OUT_BIGBUFFER_SIZE \<or> js = []
       then m = Inr \<lparr>cl_runner = st, cl_generator = g, cl_regs = r, cl_out = cl_out c @ answer ?b js ocs\<rparr>
       else \<exists>err. m = Inl err"
    using assms(1) by (auto simp: answers_def)
  let ?c = "\<lparr>cl_runner = st, cl_generator = g, cl_regs = r, cl_out = cl_out c @ answer ?b js ocs\<rparr>"
  obtain ocs' st' where 2: "list_all2 (job_outcome e st0) js' ocs'" "ready ?b st0 st'"
      "if length (cl_out ?c @ answer ?b js' ocs') < OUT_BIGBUFFER_SIZE \<or> js' = []
       then f ?c = Inr \<lparr>cl_runner = st', cl_generator = g', cl_regs = r', cl_out = cl_out ?c @ answer ?b js' ocs'\<rparr>
       else \<exists>err. f ?c = Inl err"
    using assms(2) [of ?c] 1(2) by (auto simp: answers_def)
  have all: "answer ?b (js @ js') (ocs @ ocs') = answer ?b js ocs @ answer ?b js' ocs'"
    using 1(1) by (simp add: list_all2_lengthD)
  have nil: "answer ?b js' ocs' = []" if "js' = []" using that 2(1) by simp
  have "if length (cl_out c @ answer ?b (js @ js') (ocs @ ocs')) < OUT_BIGBUFFER_SIZE \<or> js @ js' = []
        then res_bind m f = Inr \<lparr>cl_runner = st', cl_generator = g', cl_regs = r', cl_out = cl_out c @ answer ?b (js @ js') (ocs @ ocs')\<rparr>
        else \<exists>err. res_bind m f = Inl err"
    using 1(3) 2(3) nil unfolding all by (auto split: if_splits)
  then show ?thesis
    unfolding answers_def using 1(1,2) 2(1,2) by (meson list_all2_appendI)
qed

lemma answers_run_input:
  assumes "env_ok e st0" and "job_ok (ce_build e) (cl_regs c, instr_seq, full_seq)" and "ready (ce_build e) st0 (cl_runner c)"
  shows "answers e st0 [(cl_regs c, instr_seq, full_seq)] c (cl_generator c) (cl_regs c) (run_input e instr_seq full_seq c)"
proof -
  obtain oc st where oc: "job_outcome e st0 (cl_regs c, instr_seq, full_seq) oc" "ready (ce_build e) st0 st"
      "run_input e instr_seq full_seq c =
         append_out (framed (outcome_body (ce_build e) (cl_regs c, oc))) (c\<lparr>cl_runner := st\<rparr>)"
    using run_input_ok [OF assms] by blast
  show ?thesis
    unfolding answers_def
    using oc append_out_cases [of "c\<lparr>cl_runner := st\<rparr>" "framed (outcome_body (ce_build e) (cl_regs c, oc))"]
    by (intro exI [of _ "[oc]"] exI [of _ st]) (cases c, simp split: if_splits)
qed

lemma answers_run_sequences:
  assumes "env_ok e st0" and "seq_len \<le> MAX_SEQ_LEN (ce_build e)"
  shows "expand_seq e k seq_num seq_len full_seq (cl_generator c) (cl_regs c) = Inr (js, g, r) \<Longrightarrow>
     list_all (job_ok (ce_build e)) js \<Longrightarrow> ready (ce_build e) st0 (cl_runner c) \<Longrightarrow>
     answers e st0 js c g r (run_sequences e k seq_num seq_len full_seq c)"
proof (induction k arbitrary: seq_num c js)
  case 0
  then show ?case using answers_Nil by auto
next
  case (Suc k)
  let ?b = "ce_build e"
  obtain instr_seq r1 g1 js' where gen: "generate_input ?b (ce_instructions e) (cl_generator c) seq_num seq_len (cl_regs c) =
        Inr (instr_seq, r1, g1)"
      "expand_seq e k (seq_num + 1) seq_len full_seq g1 (zero_status ?b r1) = Inr (js', g, r)"
      "js = (zero_status ?b r1, instr_seq, full_seq) # js'"
    using Suc.prems(1) by (auto simp: res_bind_Inr_iff)
  let ?c = "c\<lparr>cl_generator := g1, cl_regs := zero_status ?b r1\<rparr>"
  have one: "answers e st0 [(zero_status ?b r1, instr_seq, full_seq)] ?c g1 (zero_status ?b r1) (run_input e instr_seq full_seq ?c)"
    using answers_run_input [OF assms(1), of ?c] Suc.prems(2,3) gen(3) by simp
  have "answers e st0 ([(zero_status ?b r1, instr_seq, full_seq)] @ js') ?c g r
      (res_bind (run_input e instr_seq full_seq ?c) (run_sequences e k (seq_num + 1) seq_len full_seq))"
    using Suc.IH gen Suc.prems(2) by (intro answers_append [OF one]) auto
  then show ?case using gen assms(2) by (simp add: answers_regs)
qed

text \<open>Sequences of a batch fit the array they are generated into.\<close>

definition fits_mode :: "build \<Rightarrow> server_input \<Rightarrow> bool" where
  "fits_mode b inp = (case inp of InputJustSeqNum _ _ seq_len _ \<Rightarrow> unat seq_len \<le> MAX_SEQ_LEN b | _ \<Rightarrow> True)"

lemma answers_run_inputs:
  assumes "env_ok e st0"
  shows "list_all (\<lambda>inp. input_ok (ce_build e) (ce_mode e) inp \<and> fits_mode (ce_build e) inp) inps \<Longrightarrow>
     map_res (pack_input (ce_build e)) inps = Inr bss \<Longrightarrow> holds buf off (concat bss) \<Longrightarrow>
     batch_jobs e inps (cl_generator c) (cl_regs c) = Inr (js, g, r) \<Longrightarrow> list_all (job_ok (ce_build e)) js \<Longrightarrow>
     ready (ce_build e) st0 (cl_runner c) \<Longrightarrow>
     answers e st0 js c g r (run_inputs e (length inps) buf off c)"
proof (induction inps arbitrary: bss off c js)
  case Nil
  then show ?case using answers_Nil by auto
next
  case (Cons inp inps)
  let ?b = "ce_build e"
  obtain bs bss' where bs: "pack_input ?b inp = Inr bs" "map_res (pack_input ?b) inps = Inr bss'" "bss = bs # bss'"
    using Cons.prems(2) by (auto simp: res_bind_Inr_iff)
  obtain js1 g1 r1 js2 where ex: "expand e (input_view ?b (cl_regs c) inp) (cl_generator c) (cl_regs c) = Inr (js1, g1, r1)"
      "batch_jobs e inps g1 r1 = Inr (js2, g, r)" "js = js1 @ js2"
    using Cons.prems(4) by (auto simp: res_bind_Inr_iff)
  have held: "holds buf off bs" "holds buf (off + length bs) (concat bss')"
    using Cons.prems(3) bs(3) by (simp_all add: holds_append)
  have ok: "valid_build ?b" "input_ok ?b (ce_mode e) inp" "fits_mode ?b inp" "list_all (job_ok ?b) js1" "list_all (job_ok ?b) js2"
    using assms Cons.prems(1,5) ex(3) by (simp_all add: env_ok_def)
  have rd: "read_input ?b (ce_mode e) buf off (cl_regs c) = Inr (input_view ?b (cl_regs c) inp, off + length bs)"
    by (rule read_input_packed [OF ok(1,2) bs(1) held(1)])
  have given: "answers e st0 js1 c g1 r1 (run_input e is fs (c\<lparr>cl_regs := r'\<rparr>))"
    if "input_view ?b (cl_regs c) inp = Given r' is fs" for r' "is" fs
  proof -
    have "js1 = [(r', is, fs)]" "g1 = cl_generator c" "r1 = r'" using ex(1) that by auto
    then show ?thesis
      using answers_run_input [OF assms, of "c\<lparr>cl_regs := r'\<rparr>" "is" fs] ok(4) Cons.prems(6) by (simp add: answers_regs)
  qed
  have seqs: "answers e st0 js1 c g1 r1 (run_sequences e n s l fs c)"
    if "input_view ?b (cl_regs c) inp = Sequences s n l fs" for s n l fs
    using answers_run_sequences [OF assms, of l n s fs c js1 g1 r1] ex(1) ok(3,4) Cons.prems(6) that
    by (cases inp) (auto simp: fits_mode_def)
  have first: "answers e st0 js1 c g1 r1
      (case input_view ?b (cl_regs c) inp of
         Sequences s n l fs \<Rightarrow> run_sequences e n s l fs c | Given r' is fs \<Rightarrow> run_input e is fs (c\<lparr>cl_regs := r'\<rparr>))"
    using given seqs by (simp split: client_input.split)
  show ?case
    using answers_append [OF first, of js2 g r "run_inputs e (length inps) buf (off + length bs)"]
      Cons.IH [OF _ bs(2) held(2)] Cons.prems(1) ex ok(5) rd by auto
qed

section \<open>What the server reads from an answer\<close>

lemma jobs_outcomes_ok:
  assumes "env_ok e st0" and "list_all (job_ok (ce_build e)) js" and "list_all2 (job_outcome e st0) js ocs"
  shows "list_all (outcome_ok (ce_build e)) (zip (map fst js) ocs)"
    "\<forall>m \<in> set (zip (map fst js) ocs). length (outcome_body (ce_build e) m) \<le> UINT16_MAX"
proof -
  have "outcome_ok (ce_build e) m \<and> length (outcome_body (ce_build e) m) \<le> UINT16_MAX"
    if "m \<in> set (zip (map fst js) ocs)" for m
  proof -
    have "m \<in> (\<lambda>x. (fst (fst x), snd x)) ` set (zip js ocs)"
      using that by (simp add: zip_map1 case_prod_unfold)
    then obtain x where x: "m = (fst (fst x), snd x)" "x \<in> set (zip js ocs)" by (rule imageE)
    define j oc where "j = fst x" and "oc = snd x"
    then have m: "m = (fst j, oc)" "(j, oc) \<in> set (zip js ocs)" using x by simp_all
    have "job_ok (ce_build e) j" using assms(2) set_zip_leftD [OF m(2)] by (simp add: list_all_iff)
    moreover have "job_outcome e st0 j oc" using assms(3) m(2) by (simp add: list_all2_iff) blast
    ultimately show ?thesis using job_outcome_ok [OF assms(1)] m(1) by blast
  qed
  then show "list_all (outcome_ok (ce_build e)) (zip (map fst js) ocs)"
    "\<forall>m \<in> set (zip (map fst js) ocs). length (outcome_body (ce_build e) m) \<le> UINT16_MAX"
    by (simp_all add: list_all_iff)
qed

lemma answer_packs:
  assumes "env_ok e st0" and "list_all (job_ok (ce_build e)) js" and "list_all2 (job_outcome e st0) js ocs"
  shows "pack_batch (ce_build e) (zip (map fst js) ocs) = Inr (answer (ce_build e) js ocs)"
  using jobs_outcomes_ok(2) [OF assms]
  by (simp add: pack_batch_Inr answer_def zip_map1 case_prod_unfold comp_def)

lemma answer_parsed:
  assumes "env_ok e st0" and "list_all (job_ok (ce_build e)) js" and "list_all2 (job_outcome e st0) js ocs" and "js \<noteq> []"
  shows "\<exists>d. extract_results (length js) (answer (ce_build e) js ocs) 0 = Inr (d, length (answer (ce_build e) js ocs)) \<and>
           parse_results (ce_build e) d = Inr (map (outcome_view (ce_build e)) (zip (map fst js) ocs))"
proof -
  have len: "length (zip (map fst js) ocs) = length js" "zip (map fst js) ocs \<noteq> []"
    using assms(3,4) by (auto simp: list_all2_iff)
  from batch_parsed [OF len(2) jobs_outcomes_ok(1) [OF assms(1-3)] answer_packs [OF assms(1-3)]]
  show ?thesis by (simp only: len(1))
qed

text \<open>A job has one answer: outcomes of the same job are packed to the same bytes.\<close>

lemma same_result_trans: "same_result b r1 r2 \<Longrightarrow> same_result b r2 r3 \<Longrightarrow> same_result b r1 r3"
  by (auto simp: same_result_def intro: result_equal.eq_trans)

lemma prefix_results_nth:
  assumes "prefix_results b single instr n k rs" and "prefix_results b single instr n k rs'"
    and "i < length rs" and "i < length rs'"
  shows "same_result b (rs ! i) (rs' ! i)"
proof -
  obtain r ms st where r: "single (take (n + i + 1) instr) = Inr (r, ms, st)" "same_result b r (rs ! i)"
    using assms(1,3) unfolding prefix_results_def by blast
  obtain r' ms' st' where r': "single (take (n + i + 1) instr) = Inr (r', ms', st')" "same_result b r' (rs' ! i)"
    using assms(2,4) unfolding prefix_results_def by blast
  show ?thesis using r(1) r'(1) same_result_trans [OF same_result_sym [OF r(2)]] r'(2) by simp
qed

lemma prefix_results_shorter:
  assumes "prefix_results b single instr n k rs" and "prefix_results b single instr n k rs'" and "length rs < length rs'"
  shows False
proof -
  have short: "length rs < k" using assms(2,3) by (simp add: prefix_results_def)
  then have "rs \<noteq> []" "signum (last rs) \<noteq> 0" using assms(1) by (simp_all add: prefix_results_def)
  then have i: "length rs - 1 < length rs" "signum (rs ! (length rs - 1)) \<noteq> 0" by (simp_all add: last_conv_nth)
  let ?i = "length rs - 1"
  have "same_result b (rs ! ?i) (rs' ! ?i)"
    using assms(3) i(1) by (intro prefix_results_nth [OF assms(1,2)]) simp_all
  then have "signum (rs ! ?i) = signum (rs' ! ?i)" using same_result_fault by metis
  moreover have "signum (rs' ! ?i) = 0" using assms(2,3) i(1) by (simp add: prefix_results_def)
  ultimately show False using i(2) by simp
qed

lemma prefix_results_packs:
  assumes "prefix_results b single instr n k rs" and "prefix_results b single instr n k rs'"
  shows "length rs = length rs'"
    "map (\<lambda>r. pack_inner_result b r before) rs = map (\<lambda>r. pack_inner_result b r before) rs'"
proof -
  show len: "length rs = length rs'"
    using prefix_results_shorter assms by (meson linorder_neqE_nat)
  have "pack_inner_result b (rs ! i) before = pack_inner_result b (rs' ! i) before" if "i < length rs" for i
  proof (rule same_result_packs)
    show "same_result b (rs ! i) (rs' ! i)"
      using that len by (intro prefix_results_nth [OF assms]) simp_all
    show "wf_result b (rs ! i)" "wf_result b (rs' ! i)"
      using assms that len by (simp_all add: prefix_results_def list_all_length)
  qed
  with len show "map (\<lambda>r. pack_inner_result b r before) rs = map (\<lambda>r. pack_inner_result b r before) rs'"
    by (simp add: list_eq_iff_nth_eq)
qed

lemma job_outcome_One:
  assumes "job_outcome e st0 j (One x)"
  shows "wf_result (ce_build e) x" "\<exists>x0 ms st. single_run e st0 (fst j) (fst (snd j)) = Inr (x0, ms, st) \<and> same_result (ce_build e) x0 x"
  using assms by (auto simp: job_outcome_def split: prod.splits bool.splits)

lemma job_outcome_Prefixes:
  "job_outcome e st0 j (Prefixes xs) \<Longrightarrow>
     prefix_results (ce_build e) (single_run e st0 (fst j)) (fst (snd j)) 0 (length (fst (snd j))) xs"
  by (auto simp: job_outcome_def split: prod.splits bool.splits)

lemma job_answer_unique:
  assumes "job_outcome e st0 j oc" and "job_outcome e st0 j oc'"
  shows "outcome_body (ce_build e) (fst j, oc) = outcome_body (ce_build e) (fst j, oc')"
proof (cases oc)
  case (One x)
  then obtain y where y: "oc' = One y" using assms by (cases oc') (auto simp: job_outcome_def split: prod.splits bool.splits)
  have x: "job_outcome e st0 j (One x)" "job_outcome e st0 j (One y)" using assms One y by simp_all
  obtain x0 ms st where x0: "single_run e st0 (fst j) (fst (snd j)) = Inr (x0, ms, st)" "same_result (ce_build e) x0 x"
    using job_outcome_One(2) [OF x(1)] by blast
  obtain y0 ms' st' where "single_run e st0 (fst j) (fst (snd j)) = Inr (y0, ms', st')" "same_result (ce_build e) y0 y"
    using job_outcome_One(2) [OF x(2)] by blast
  then have "same_result (ce_build e) x y"
    using x0(1) same_result_trans [OF same_result_sym [OF x0(2)]] by simp
  from same_result_packs [OF this x [THEN job_outcome_One(1)], of "fst j"] show ?thesis
    using One y by (simp add: outcome_body_def)
next
  case (Prefixes xs)
  then obtain ys where y: "oc' = Prefixes ys" using assms by (cases oc') (auto simp: job_outcome_def split: prod.splits bool.splits)
  note p = job_outcome_Prefixes [OF assms(1) [unfolded Prefixes]] job_outcome_Prefixes [OF assms(2) [unfolded y]]
  show ?thesis using prefix_results_packs(1) [OF p] prefix_results_packs(2) [OF p, of "fst j"] Prefixes y by (simp add: outcome_body_def)
qed

lemma answer_unique:
  "list_all2 (job_outcome e st0) js ocs \<Longrightarrow> list_all2 (job_outcome e st0) js ocs' \<Longrightarrow>
     answer (ce_build e) js ocs = answer (ce_build e) js ocs'"
proof (induction js arbitrary: ocs ocs')
  case (Cons j js)
  then obtain oc os oc' os' where o: "ocs = oc # os" "ocs' = oc' # os'" "job_outcome e st0 j oc" "job_outcome e st0 j oc'"
      "list_all2 (job_outcome e st0) js os" "list_all2 (job_outcome e st0) js os'"
    by (auto simp: list_all2_Cons1)
  then show ?case using job_answer_unique [OF o(3,4)] Cons.IH [OF o(5,6)] by simp
qed simp

lemma answer_bound:
  assumes "env_ok e st0" and "list_all (job_ok (ce_build e)) js" and "list_all2 (job_outcome e st0) js ocs"
  shows "length (answer (ce_build e) js ocs) \<le> length js * (UINT16_MAX + 2)"
  using assms(2,3)
proof (induction js arbitrary: ocs)
  case (Cons j js)
  then obtain oc os where o: "ocs = oc # os" "job_outcome e st0 j oc" "list_all2 (job_outcome e st0) js os"
    by (auto simp: list_all2_Cons1)
  have "length (outcome_body (ce_build e) (fst j, oc)) \<le> UINT16_MAX"
    using job_outcome_ok(2) [OF assms(1) _ o(2)] Cons.prems(1) by simp
  with Cons.IH [OF _ o(3)] Cons.prems(1) o(1) show ?case by (simp add: framed_def)
qed simp

section \<open>A batch\<close>

text \<open>
  A message \<open>y\<close> delivers \<open>x\<close>: as it is, or through \<^verbatim>\<open>inflate\<close> in the stream's state.
\<close>

definition delivers :: "bool \<Rightarrow> 'z coder \<Rightarrow> 'z connection_context \<Rightarrow> nat \<Rightarrow> u8 list \<Rightarrow> u8 list \<Rightarrow> bool" where
  "delivers compress_recv inflate conn cap y x \<longleftrightarrow>
     length y < 2 ^ 32 \<and>
     (if compress_recv
      then (case comp_inflate_buffer_size conn of None \<Rightarrow> False | Some k \<Rightarrow> length y \<le> k) \<and>
           (case inflate (comp_inflate_stream conn) y cap of (ret, out, z) \<Rightarrow> out = x \<and> ret \<noteq> Z_ERR)
      else y = x \<and> length x \<le> cap)"

lemma batch_received:
  assumes "delivers compress_recv inflate conn cap y x" and "stream (incoming sk) = frame y @ rest"
  shows "\<exists>segs zi. (if compress_recv then recv_msg_compressed inflate (conn\<lparr>socket := sk\<rparr>) cap
                 else res_bind (recv_msg sk cap) (\<lambda>(x, sk'). Inr (x, conn\<lparr>socket := sk'\<rparr>))) =
           Inr (x, conn\<lparr>socket := sk\<lparr>incoming := segs\<rparr>, comp_inflate_stream := zi\<rparr>) \<and> stream segs = rest"
proof (cases compress_recv)
  case True
  with assms(1) obtain k where k: "comp_inflate_buffer_size conn = Some k" "length y \<le> k" "length y < 2 ^ 32"
    by (auto simp: delivers_def split: option.splits)
  obtain ret z where z: "inflate (comp_inflate_stream conn) y cap = (ret, x, z)" "ret \<noteq> Z_ERR"
    using assms(1) True by (auto simp: delivers_def)
  obtain segs where "recv_msg sk k = Inr (y, sk\<lparr>incoming := segs\<rparr>)" "stream segs = rest"
    using recv_msg_frame [OF assms(2) k(2,3)] by blast
  with True k(1) z show ?thesis
    by (intro exI [of _ segs] exI [of _ z]) (cases ret, simp_all add: recv_msg_compressed_def)
next
  case False
  with assms(1) have y: "y = x" "length x \<le> cap" "length x < 2 ^ 32" by (auto simp: delivers_def)
  obtain segs where "recv_msg sk cap = Inr (x, sk\<lparr>incoming := segs\<rparr>)" "stream segs = rest"
    using recv_msg_frame [OF assms(2) [unfolded y(1)] y(2,3)] by blast
  with False show ?thesis
    by (intro exI [of _ segs] exI [of _ "comp_inflate_stream conn"]) simp
qed

text \<open>A socket with a batch of \<open>n\<close> inputs on it, and a client that can receive and answer it.\<close>

definition batch_waits ::
  "client_env \<Rightarrow> bool \<Rightarrow> 'z coder \<Rightarrow> nat \<Rightarrow> nat \<Rightarrow> u8 list \<Rightarrow> u8 list \<Rightarrow> 'z connection_context \<Rightarrow> u8 list \<Rightarrow> bool" where
  "batch_waits e compress_recv inflate max_batch_n n x rest conn buf \<longleftrightarrow>
     (\<exists>y. stream (incoming (socket conn)) = frame (le_store 4 n) @ frame y @ rest \<and>
          delivers compress_recv inflate conn (max_input_size (ce_build e) (ce_mode e) * n mod 2 ^ 32) y x) \<and>
     n \<le> max_batch_n \<and> n < 2 ^ 32 \<and> length x \<le> length buf \<and> accepts (socket conn) = []"

lemma serve_batch_received:
  assumes "batch_waits e compress_recv inflate max_batch_n n x rest conn buf"
  shows "\<exists>segs zi. stream segs = rest \<and>
     serve_batch e compress_recv inflate deflate max_batch_n (conn, buf, c) =
       res_bind (run_inputs e n (x @ drop (length x) buf) 0 c) (\<lambda>c1.
       res_bind (send_msg_compressed deflate (conn\<lparr>socket := (socket conn)\<lparr>incoming := segs\<rparr>, comp_inflate_stream := zi\<rparr>)
          (cl_out c1)) (\<lambda>conn2. Inr (conn2, x @ drop (length x) buf, c1\<lparr>cl_out := []\<rparr>)))"
proof -
  let ?cap = "max_input_size (ce_build e) (ce_mode e) * n mod 2 ^ 32"
  obtain y where y: "stream (incoming (socket conn)) = frame (le_store 4 n) @ frame y @ rest"
      "delivers compress_recv inflate conn ?cap y x"
    using assms by (auto simp: batch_waits_def)
  have n: "n \<le> max_batch_n" "le_load (le_store 4 n) = n" "length x \<le> length buf"
    using assms by (simp_all add: batch_waits_def le_load_store del: le_store.simps)
  obtain segs1 where "recv_msg (socket conn) 4 = Inr (le_store 4 n, (socket conn)\<lparr>incoming := segs1\<rparr>)"
      "stream segs1 = frame y @ rest"
    using recv_msg_frame [OF y(1), of 4] by auto
  then have hdr: "recv_msg_n (socket conn) 4 = Inr (le_store 4 n, (socket conn)\<lparr>incoming := segs1\<rparr>)"
    "stream (incoming ((socket conn)\<lparr>incoming := segs1\<rparr>)) = frame y @ rest"
    by (simp_all add: recv_msg_n_def del: le_store.simps)
  obtain segs zi where body: "(if compress_recv then recv_msg_compressed inflate (conn\<lparr>socket := (socket conn)\<lparr>incoming := segs1\<rparr>\<rparr>) ?cap
        else res_bind (recv_msg ((socket conn)\<lparr>incoming := segs1\<rparr>) ?cap) (\<lambda>(x, sk'). Inr (x, conn\<lparr>socket := sk'\<rparr>))) =
       Inr (x, conn\<lparr>socket := (socket conn)\<lparr>incoming := segs\<rparr>, comp_inflate_stream := zi\<rparr>)" "stream segs = rest"
    using batch_received [OF y(2) hdr(2)] by auto
  show ?thesis
    using body n(1,3)
    by (intro exI [of _ segs] exI [of _ zi]; cases compress_recv)
      (simp_all add: serve_batch_def Let_def hdr(1) n(2) del: le_store.simps)
qed

lemma map_res_list_all2: "map_res f xs = Inr ys \<longleftrightarrow> list_all2 (\<lambda>x y. f x = Inr y) xs ys"
  by (induction xs arbitrary: ys) (auto simp: res_bind_Inr_iff list_all2_Cons1)

section \<open>Properties\<close>



text \<open>
  C3. A batch is answered: when a batch of packed inputs waits on the socket, plain or compressed, one
  round of the client's loop runs every input it stands for in order, each with the outcome the
  sequence has when it is run alone, sends one message that deflates the packed outcomes, takes
  exactly the batch from the socket and is ready for the next one; the server reads from the message
  one result per run, in order, as the client measured them. The round fails only when the outcomes
  do not fit into the output buffer.
\<close>

theorem batch_answered:
  assumes "env_ok e st0" and "ready (ce_build e) st0 (cl_runner c)" and "cl_out c = []"
    and "list_all (\<lambda>inp. input_ok (ce_build e) (ce_mode e) inp \<and> fits_mode (ce_build e) inp) inps"
    and "map_res (pack_input (ce_build e)) inps = Inr bss"
    and "batch_jobs e inps (cl_generator c) (cl_regs c) = Inr (js, g, r)"
    and "list_all (job_ok (ce_build e)) js" and "js \<noteq> []"
    and "batch_waits e compress_recv inflate max_batch_n (length inps) (concat bss) rest conn buf"
    and "comp_deflate_buffer_size conn = Some cap" 
    and "\<And>x. length x < OUT_BIGBUFFER_SIZE \<Longrightarrow> fst (deflate (comp_deflate_stream conn) x cap) = Z_OK"
  shows "\<exists>ocs. list_all2 (job_outcome e st0) js ocs \<and>
    (if length (answer (ce_build e) js ocs) < OUT_BIGBUFFER_SIZE
     then \<exists>conn' buf' c' d.
       serve_batch e compress_recv inflate deflate max_batch_n (conn, buf, c) = Inr (conn', buf', c') \<and>
       outgoing (socket conn') = outgoing (socket conn) @
         frame (fst (snd (deflate (comp_deflate_stream conn) (answer (ce_build e) js ocs) cap))) \<and>
       stream (incoming (socket conn')) = rest \<and> ready (ce_build e) st0 (cl_runner c') \<and>
       cl_generator c' = g \<and> cl_regs c' = r \<and> cl_out c' = [] \<and> length buf' = length buf \<and>
       extract_results (length js) (answer (ce_build e) js ocs) 0 = Inr (d, length (answer (ce_build e) js ocs)) \<and>
       parse_results (ce_build e) d = Inr (map (outcome_view (ce_build e)) (zip (map fst js) ocs))
     else \<exists>err. serve_batch e compress_recv inflate deflate max_batch_n (conn, buf, c) = Inl err)"
proof -
  let ?b = "ce_build e" and ?buf = "concat bss @ drop (length (concat bss)) buf"
  have room: "length ?buf = length buf" "accepts (socket conn) = []"
    using assms(9) by (simp_all add: batch_waits_def)
  have "holds ?buf 0 (concat bss)" by (simp add: holds_def)
  from answers_run_inputs [OF assms(1,4,5) this assms(6,7,2)]
  obtain ocs st where ocs: "list_all2 (job_outcome e st0) js ocs" "ready ?b st0 st"
      "if length (answer ?b js ocs) < OUT_BIGBUFFER_SIZE
       then run_inputs e (length inps) ?buf 0 c =
              Inr \<lparr>cl_runner = st, cl_generator = g, cl_regs = r, cl_out = answer ?b js ocs\<rparr>
       else \<exists>err. run_inputs e (length inps) ?buf 0 c = Inl err"
    using assms(3,8) by (auto simp: answers_def)
  obtain segs zi where served: "stream segs = rest" "serve_batch e compress_recv inflate deflate max_batch_n (conn, buf, c) =
       res_bind (run_inputs e (length inps) ?buf 0 c) (\<lambda>c1.
       res_bind (send_msg_compressed deflate (conn\<lparr>socket := (socket conn)\<lparr>incoming := segs\<rparr>, comp_inflate_stream := zi\<rparr>)
          (cl_out c1)) (\<lambda>conn2. Inr (conn2, ?buf, c1\<lparr>cl_out := []\<rparr>)))"
    using serve_batch_received [OF assms(9), of deflate c] by blast
  obtain d where d: "extract_results (length js) (answer ?b js ocs) 0 = Inr (d, length (answer ?b js ocs))"
      "parse_results ?b d = Inr (map (outcome_view ?b) (zip (map fst js) ocs))"
    using answer_parsed [OF assms(1,7) ocs(1) assms(8)] by blast
  show ?thesis
    using ocs served d assms(10,11) room
    by (intro exI [of _ ocs]) (auto simp: send_msg_compressed_def send_msg_frame case_prod_unfold)
qed

text \<open>A client built for instructions only, two inputs for it, and the batch on its socket.\<close>

definition sample_env :: client_env where
  "sample_env = \<lparr>ce_build = riscv_vector_build, ce_mode = INSTRS_ONLY, ce_instructions = [], ce_hw = sample_hw,
     ce_os_mapped = (\<lambda>_. False), ce_garbage = replicate CHECK_MEM_CUT_AT 0\<rparr>"

definition sample_inputs :: "server_input list" where
  "sample_inputs = [FullInput [7] False, FullInput [7, 0] True]"

definition sample_packed :: "u8 list list" where
  "sample_packed = [[1, 0, 0, 0, 7, 0, 0, 0], [2, 1, 0, 0, 7, 0, 0, 0, 0, 0, 0, 0]]"

definition sample_client :: "u32 list \<Rightarrow> client" where
  "sample_client w = \<lparr>cl_runner = sample_runner w, cl_generator = sample_generator [],
     cl_regs = zero_regs riscv_vector_build, cl_out = []\<rparr>"

definition sample_conn :: "unit connection_context" where
  "sample_conn = \<lparr>socket = \<lparr>incoming = [Data (frame (le_store 4 2)), Data (frame (concat sample_packed))], accepts = [], outgoing = []\<rparr>,
     comp_deflate_stream = (), comp_deflate_buffer_size = Some OUT_BIGBUFFER_SIZE,
     comp_inflate_stream = (), comp_inflate_buffer_size = Some 100\<rparr>"

definition copy_coder :: "unit coder" where
  "copy_coder z x n = (Z_OK, take n x, z)"

lemma sample_packs: "map_res (pack_input riscv_vector_build) sample_inputs = Inr sample_packed"
  by code_simp

lemma sample_env_ok: "env_ok sample_env (sample_runner [1, 2, 3, 4, 5])"
  using sample_run_pre [of "[1, 2, 3, 4, 5]" "[]"] sample_hw_ok
  by (simp add: env_ok_def sample_env_def run_pre_def) (simp add: sample_runner_def valid_build_def riscv_vector_build_def)

lemma sample_ready:
  "length w = 5 \<Longrightarrow> ready (ce_build sample_env) (sample_runner [1, 2, 3, 4, 5]) (cl_runner (sample_client w))"
  using sample_run_pre [of "[1, 2, 3, 4, 5]" "[]"] sample_run_pre [of w "[]"]
  by (simp add: ready_def sample_env_def sample_client_def run_pre_def) (simp add: same_env_def sample_runner_def)

definition sample_jobs :: "job list" where
  "sample_jobs = (let r = zero_status riscv_vector_build (filler_regs riscv_vector_build (zero_regs riscv_vector_build))
     in [(r, [7], False), (r, [7, 0], True)])"

lemma filler_regs_again: "zero_status b (filler_regs b (zero_status b (filler_regs b r))) = zero_status b (filler_regs b r)"
  by (simp add: zero_status_def filler_regs_def split: arch.split)

lemma sample_batch_jobs:
  "batch_jobs sample_env sample_inputs (cl_generator (sample_client w)) (cl_regs (sample_client w)) =
     Inr (sample_jobs, sample_generator [], zero_status riscv_vector_build (filler_regs riscv_vector_build (zero_regs riscv_vector_build)))"
  by (simp add: sample_inputs_def sample_env_def sample_client_def sample_jobs_def Let_def filler_regs_again)

lemma sample_jobs_ok: "list_all (job_ok riscv_vector_build) sample_jobs"
  by (simp add: sample_jobs_def Let_def job_ok_def wf_regs_def zero_status_def filler_regs_def riscv_vector_build_def)

lemma sample_inputs_ok:
  "list_all (\<lambda>inp. input_ok riscv_vector_build INSTRS_ONLY inp \<and> fits_mode riscv_vector_build inp) sample_inputs"
  by (simp add: sample_inputs_def fits_mode_def)

theorem batch_answered_witness:
  "\<exists>ocs conn' buf' c' d.
     serve_batch sample_env False copy_coder copy_coder 5 (sample_conn, replicate 100 0, sample_client [9, 9, 9, 9, 9]) =
       Inr (conn', buf', c') \<and>
     outgoing (socket conn') = frame (answer riscv_vector_build sample_jobs ocs) \<and> stream (incoming (socket conn')) = [] \<and>
     extract_results 2 (answer riscv_vector_build sample_jobs ocs) 0 = Inr (d, length (answer riscv_vector_build sample_jobs ocs)) \<and>
     parse_results riscv_vector_build d = Inr (map (outcome_view riscv_vector_build) (zip (map fst sample_jobs) ocs))"
proof -
  let ?b = "riscv_vector_build" and ?c = "sample_client [9, 9, 9, 9, 9]"
  have b: "ce_build sample_env = ?b" "ce_mode sample_env = INSTRS_ONLY" by (simp_all add: sample_env_def)
  have js: "length sample_jobs = 2" "sample_jobs \<noteq> []" by (simp_all add: sample_jobs_def Let_def)
  have "length (concat sample_packed) = 20" "max_input_size ?b INSTRS_ONLY = 24" "length sample_inputs = 2" by code_simp+
  then have waits: "batch_waits sample_env False copy_coder 5 (length sample_inputs) (concat sample_packed) [] sample_conn (replicate 100 0)"
    unfolding batch_waits_def
    by (simp add: sample_conn_def delivers_def b)
  have coder: "fst (copy_coder (comp_deflate_stream sample_conn) x OUT_BIGBUFFER_SIZE) = Z_OK" for x
    by (simp add: copy_coder_def)
  have conn: "comp_deflate_buffer_size sample_conn = Some OUT_BIGBUFFER_SIZE" "cl_out ?c = []" "outgoing (socket sample_conn) = []"
    by (simp_all add: sample_conn_def sample_client_def)
  note ok = sample_inputs_ok [folded b] sample_packs [folded b(1)] sample_batch_jobs [of "[9, 9, 9, 9, 9]"] sample_jobs_ok [folded b(1)]
  have small: "length (answer ?b sample_jobs ocs) < OUT_BIGBUFFER_SIZE"
    if "list_all2 (job_outcome sample_env (sample_runner [1, 2, 3, 4, 5])) sample_jobs ocs" for ocs
    using answer_bound [OF sample_env_ok ok(4) that] by (simp add: js b OUT_BIGBUFFER_SIZE_def)
  have rdy: "ready (ce_build sample_env) (sample_runner [1, 2, 3, 4, 5]) (cl_runner ?c)" by (rule sample_ready) simp
  obtain ocs conn' buf' c' d where "length (answer ?b sample_jobs ocs) < OUT_BIGBUFFER_SIZE"
      "serve_batch sample_env False copy_coder copy_coder 5 (sample_conn, replicate 100 0, ?c) = Inr (conn', buf', c')"
      "outgoing (socket conn') =
         frame (fst (snd (copy_coder (comp_deflate_stream sample_conn) (answer ?b sample_jobs ocs) OUT_BIGBUFFER_SIZE)))"
      "stream (incoming (socket conn')) = []"
      "extract_results 2 (answer ?b sample_jobs ocs) 0 = Inr (d, length (answer ?b sample_jobs ocs))"
      "parse_results ?b d = Inr (map (outcome_view ?b) (zip (map fst sample_jobs) ocs))"
    using batch_answered [where deflate = copy_coder, OF sample_env_ok rdy conn(2) ok js(2) waits conn(1) coder]
    unfolding b js(1) conn(3) by - (elim exE conjE, frule small, simp only: if_True append_Nil, blast)
  then show ?thesis by (auto simp: copy_coder_def)
qed

text \<open>
  C4. No false differences: clients on processors that behave the same answer a batch with the same
  bytes, whatever they ran before and whatever an earlier batch left in their buffers. A difference
  the server sees between their answers is a difference between their processors.
\<close>

theorem same_processor_same_answer:
  assumes "env_ok e st0" and "ready (ce_build e) st0 (cl_runner c1)" and "ready (ce_build e) st0 (cl_runner c2)"
    and "cl_out c1 = cl_out c2" and "cl_generator c1 = cl_generator c2" and "cl_regs c1 = cl_regs c2"
    and "list_all (\<lambda>inp. input_ok (ce_build e) (ce_mode e) inp \<and> fits_mode (ce_build e) inp) inps"
    and "map_res (pack_input (ce_build e)) inps = Inr bss" and "holds buf1 0 (concat bss)" and "holds buf2 0 (concat bss)"
    and "batch_jobs e inps (cl_generator c1) (cl_regs c1) = Inr (js, g, r)" and "list_all (job_ok (ce_build e)) js"
    and "run_inputs e (length inps) buf1 0 c1 = Inr c1'"
  shows "\<exists>c2'. run_inputs e (length inps) buf2 0 c2 = Inr c2' \<and> cl_out c2' = cl_out c1' \<and>
           cl_generator c2' = cl_generator c1' \<and> cl_regs c2' = cl_regs c1'"
proof -
  have "answers e st0 js c1 g r (Inr c1')"
    using answers_run_inputs [OF assms(1,7,8,9,11,12,2)] unfolding assms(13) .
  then obtain ocs where 1: "list_all2 (job_outcome e st0) js ocs"
      "length (cl_out c1 @ answer (ce_build e) js ocs) < OUT_BIGBUFFER_SIZE \<or> js = []"
      "cl_generator c1' = g" "cl_regs c1' = r" "cl_out c1' = cl_out c1 @ answer (ce_build e) js ocs"
    by (auto simp: answers_def split: if_splits)
  have "answers e st0 js c2 g r (run_inputs e (length inps) buf2 0 c2)"
    using answers_run_inputs [OF assms(1,7,8,10) _ assms(12,3)] assms(5,6,11) by simp
  then obtain ocs' st' where 2: "list_all2 (job_outcome e st0) js ocs'"
      "if length (cl_out c2 @ answer (ce_build e) js ocs') < OUT_BIGBUFFER_SIZE \<or> js = []
       then run_inputs e (length inps) buf2 0 c2 =
         Inr \<lparr>cl_runner = st', cl_generator = g, cl_regs = r, cl_out = cl_out c2 @ answer (ce_build e) js ocs'\<rparr>
       else \<exists>err. run_inputs e (length inps) buf2 0 c2 = Inl err"
    unfolding answers_def by blast
  show ?thesis
    using 1(2-5) 2(2) assms(4) answer_unique [OF 1(1) 2(1)] by auto
qed

theorem same_processor_same_answer_witness:
  "\<exists>c1' c2'. run_inputs sample_env 2 (concat sample_packed) 0 (sample_client [1, 2, 3, 4, 5]) = Inr c1' \<and>
     run_inputs sample_env 2 (concat sample_packed @ [1, 2, 3]) 0 (sample_client [9, 9, 9, 9, 9]) = Inr c2' \<and>
     cl_out c2' = cl_out c1'"
proof -
  let ?c = "sample_client [1, 2, 3, 4, 5]" and ?c2 = "sample_client [9, 9, 9, 9, 9]"
  have b: "ce_build sample_env = riscv_vector_build" "ce_mode sample_env = INSTRS_ONLY" by (simp_all add: sample_env_def)
  have n: "length sample_inputs = 2" by (simp add: sample_inputs_def)
  have held: "holds (concat sample_packed) 0 (concat sample_packed)"
    "holds (concat sample_packed @ [1, 2, 3]) 0 (concat sample_packed)" by (simp_all add: holds_def)
  have c: "cl_out ?c = cl_out ?c2" "cl_generator ?c = cl_generator ?c2" "cl_regs ?c = cl_regs ?c2" by (simp_all add: sample_client_def)
  note rdy = sample_ready [of "[1, 2, 3, 4, 5]", simplified] sample_ready [of "[9, 9, 9, 9, 9]", simplified]
  note ok = sample_inputs_ok [folded b] sample_packs [folded b(1)]
  have "answers sample_env (sample_runner [1, 2, 3, 4, 5]) sample_jobs ?c (sample_generator [])
      (zero_status riscv_vector_build (filler_regs riscv_vector_build (zero_regs riscv_vector_build)))
      (run_inputs sample_env (length sample_inputs) (concat sample_packed) 0 ?c)"
    by (rule answers_run_inputs [OF sample_env_ok ok held(1) sample_batch_jobs sample_jobs_ok [folded b(1)] rdy(1)])
  then obtain ocs where "list_all2 (job_outcome sample_env (sample_runner [1, 2, 3, 4, 5])) sample_jobs ocs"
      "length (cl_out ?c @ answer (ce_build sample_env) sample_jobs ocs) < OUT_BIGBUFFER_SIZE \<Longrightarrow>
         \<exists>c1'. run_inputs sample_env 2 (concat sample_packed) 0 ?c = Inr c1'"
    unfolding answers_def n by meson
  moreover from answer_bound [OF sample_env_ok sample_jobs_ok [folded b(1)] this(1)]
  have "length (cl_out ?c @ answer (ce_build sample_env) sample_jobs ocs) < OUT_BIGBUFFER_SIZE"
    by (simp add: sample_client_def OUT_BIGBUFFER_SIZE_def sample_jobs_def Let_def)
  ultimately obtain c1' where c1: "run_inputs sample_env 2 (concat sample_packed) 0 ?c = Inr c1'" by blast
  from same_processor_same_answer [OF sample_env_ok rdy c ok held sample_batch_jobs sample_jobs_ok [folded b(1)] c1 [folded n]] c1
  show ?thesis unfolding n by blast
qed

text \<open>Different values in the first and the other floating-point registers.\<close>

definition riscv_float_build :: build where
  "riscv_float_build = riscv_vector_build\<lparr>flag_FLOATS := True, flag_VECTOR := False\<rparr>"

definition sample_values :: regs where
  "sample_values = (zero_regs riscv_float_build)\<lparr>gp := replicate 31 5, fp := 11 # replicate 31 12\<rparr>"

text \<open>
  C40. Given register values arrive shifted on riscv64: the server packs the status word behind the
  floating-point registers, the client expects it in front of them. The client takes \<open>f0\<close> for the
  status register, \<open>f1\<close> for \<open>f0\<close> and so on, and zero for \<open>f31\<close>.
\<close>

theorem full_regs_riscv_shifted:
  assumes "arch b = RISCV64" and "flag_FLOATS b" and "wf_regs b v" and "length instr_seq < 256"
    and "pack_input b (InputWithValues v instr_seq full_seq) = Inr bs" and "holds buf off bs"
  shows "read_input b WITH_FULL_REGS buf off r =
    Inr (Given (r\<lparr>gp := gp v, fcsr := fp v ! 0, fp := tl (fp v) @ [0], vec := (if flag_VECTOR b then vec v else vec r)\<rparr>)
               instr_seq full_seq, off + length bs)"
proof -
  let ?head = "le_words (gp v) @ le_words (fp v) @ le_store 8 0 @ (if flag_VECTOR b then concat (vec v) else [])"
  let ?r = "r\<lparr>gp := gp v, fcsr := fp v ! 0, fp := tl (fp v) @ [0], vec := (if flag_VECTOR b then vec v else vec r)\<rparr>"
  have wf: "length (gp v) = 31" "length (fp v) = 32"
    "flag_VECTOR b \<Longrightarrow> length (vec v) = 32 \<and> (\<forall>x \<in> set (vec v). length x = VEC_REG_SIZE)"
    using assms(1-3) by (auto simp: wf_regs_def)
  have bs: "bs = pack_instrs ?head instr_seq full_seq" using assms(1,2,5) by (simp add: pack_values_def)
  have len: "length ?head = sizeof_regs b"
    using wf assms(1,2) by (auto simp: sizeof_regs_def regs_members_def length_concat sum_list_triv cong: map_cong)
  obtain f fs where f: "fp v = f # fs" using wf(2) by (cases "fp v") auto
  have head: "?head = le_words (gp v) @ le_store 8 (unat f) @ le_words (fs @ [0]) @ (if flag_VECTOR b then concat (vec v) else [])"
    using f by (simp add: le_words_def del: le_store.simps)
  have parts: "words_at ?head 0 31 = gp v" "words_at ?head 248 1 ! 0 = f" "words_at ?head 256 32 = fs @ [0]"
    "flag_VECTOR b \<Longrightarrow> vecs_at ?head 512 = vec v"
    unfolding head using wf f words_at_holds [of _ 0 "gp v"] word_at_holds [of _ 248 f] words_at_holds [of _ 256 "fs @ [0]"]
      vecs_at_holds [of _ 512 "vec v"]
    by (auto simp: holds_def)
  have held: "holds buf off ?head" using read_instrs(1) [OF assms(6) [unfolded bs] assms(4)] .
  have "read_regs b WITH_FULL_REGS buf off r = Inr ?r"
    using held len parts assms(1,2) f by (auto simp: read_regs_def holds_def regs_of_image_def)
  from read_given [OF _ assms(6) [unfolded bs] assms(4) this] len show ?thesis
    unfolding bs by (simp add: head_size_def)
qed

theorem full_regs_riscv_shifted_witness:
  "\<exists>bs. pack_input riscv_float_build (InputWithValues sample_values [7] False) = Inr bs \<and>
     read_input riscv_float_build WITH_FULL_REGS bs 0 (zero_regs riscv_float_build) =
       Inr (Given ((zero_regs riscv_float_build)\<lparr>gp := replicate 31 5, fcsr := 11, fp := replicate 31 12 @ [0], vec := vec (zero_regs riscv_float_build)\<rparr>)
              [7] False, length bs)"
proof -
  have v: "arch riscv_float_build = RISCV64" "flag_FLOATS riscv_float_build" "\<not> flag_VECTOR riscv_float_build"
    by (simp_all add: riscv_float_build_def riscv_vector_build_def)
  have wf: "wf_regs riscv_float_build sample_values"
    using v by (simp add: wf_regs_def sample_values_def)
  obtain bs where bs: "pack_input riscv_float_build (InputWithValues sample_values [7] False) = Inr bs"
    using v by (simp add: pack_values_def)
  have "holds bs 0 bs" by (simp add: holds_def)
  from full_regs_riscv_shifted [OF v(1,2) wf _ bs this, of "zero_regs riscv_float_build"] bs v(3) show ?thesis
    by (simp add: sample_values_def)
qed

end
