(* ===== verification/C_Strings.thy ===== *)
theory C_Strings
  imports Util
begin

text \<open>
  What the text-processing parts of the client (cpuinfo.c, maps.c, \<open>load_repro\<close> of runner.c,
  repro-runner.c) use of the C library: character classes, number conversions of \<^verbatim>\<open>scanf\<close> and
  \<^verbatim>\<open>strtoul\<close>, \<^verbatim>\<open>fgets\<close>, \<^verbatim>\<open>strtok\<close> and \<^verbatim>\<open>strstr\<close>, with the lemmas that a printed number is read back.
  A string is the list of its characters without the terminating NUL.
\<close>

named_theorems scan_simps \<open>scanning text whose shape is known\<close>

section \<open>Characters\<close>

definition isspace :: "char \<Rightarrow> bool" where
  "isspace c = (let n = (of_char c :: nat) in n = 32 \<or> 9 \<le> n \<and> n \<le> 13)"

definition isxdigit :: "char \<Rightarrow> bool" where
  "isxdigit c = (hex_nibble c \<noteq> None)"

definition tolower :: "char \<Rightarrow> char" where
  "tolower c = (let n = (of_char c :: nat) in if 65 \<le> n \<and> n \<le> 90 then char_of (n + 32) else c)"

definition digit_val :: "nat \<Rightarrow> char \<Rightarrow> nat option" where
  "digit_val base c = (case hex_nibble c of Some d \<Rightarrow> if d < base then Some d else None | None \<Rightarrow> None)"

abbreviation isdigit :: "char \<Rightarrow> bool" where
  "isdigit c \<equiv> digit_val 10 c \<noteq> None"

abbreviation newline :: char where "newline \<equiv> CHR 0x0A"
abbreviation tab :: char where "tab \<equiv> CHR 0x09"
abbreviation quote :: char where "quote \<equiv> CHR 0x22"

section \<open>Numbers\<close>

text \<open>The digits from the front of a text.\<close>

fun scan_digits :: "nat \<Rightarrow> nat \<Rightarrow> string \<Rightarrow> nat \<times> string" where
  "scan_digits base acc [] = (acc, [])"
| "scan_digits base acc (c # cs) =
     (case digit_val base c of
        Some d \<Rightarrow> scan_digits base (base * acc + d) cs
      | None \<Rightarrow> (acc, c # cs))"

definition clamp :: "nat \<times> string \<Rightarrow> nat \<times> string" where
  "clamp r = (min (fst r) (2 ^ 64 - 1), snd r)"

definition scan_plain :: "nat \<Rightarrow> string \<Rightarrow> (nat \<times> string) option" where
  "scan_plain base s =
     (case s of [] \<Rightarrow> None
      | c # _ \<Rightarrow> if digit_val base c = None then None else Some (clamp (scan_digits base 0 s)))"

text \<open>Base 0 takes the base from the prefix, base 16 allows a prefix \<^verbatim>\<open>0x\<close>.\<close>

definition scan_unsigned :: "nat \<Rightarrow> string \<Rightarrow> (nat \<times> string) option" where
  "scan_unsigned base s =
     (case s of
        c0 # c1 # cs \<Rightarrow>
          if (base = 0 \<or> base = 16) \<and> c0 = CHR ''0'' \<and> (c1 = CHR ''x'' \<or> c1 = CHR ''X'')
          then scan_plain 16 cs
          else scan_plain (if base = 0 then (if c0 = CHR ''0'' then 8 else 10) else base) s
      | _ \<Rightarrow> scan_plain (if base = 0 then 10 else base) s)"

definition scan_int :: "nat \<Rightarrow> string \<Rightarrow> (int \<times> string) option" where
  "scan_int base s =
     (case dropWhile isspace s of
        [] \<Rightarrow> None
      | c # cs \<Rightarrow>
          if c = CHR ''-'' then map_option (\<lambda>(n, r). (- int n, r)) (scan_unsigned base cs)
          else if c = CHR ''+'' then map_option (\<lambda>(n, r). (int n, r)) (scan_unsigned base cs)
          else map_option (\<lambda>(n, r). (int n, r)) (scan_unsigned base (c # cs)))"

text \<open>\<^verbatim>\<open>strtoul(s, NULL, 0)\<close> and \<^verbatim>\<open>atoi\<close>; no number reads as 0.\<close>

definition strtoul :: "string \<Rightarrow> u64" where
  "strtoul s = (case scan_int 0 s of Some (v, _) \<Rightarrow> word_of_int v | None \<Rightarrow> 0)"

definition atoi :: "string \<Rightarrow> i32" where
  "atoi s = (case scan_int 10 s of Some (v, _) \<Rightarrow> word_of_int v | None \<Rightarrow> 0)"

section \<open>scanf\<close>

text \<open>
  A format: an ordinary character, white space, a suppressed non-empty scan set \<^verbatim>\<open>%*[...]\<close>, and an
  integer conversion of a base (10 for \<^verbatim>\<open>%d\<close>, 16 for \<^verbatim>\<open>%x\<close>, 0 for \<^verbatim>\<open>%i\<close>). \<open>scan\<close> gives the numbers
  converted before the first mismatch and, when all matched, the rest of the text.
\<close>

datatype directive = Lit char | Space | Skip "char \<Rightarrow> bool" | Conv nat

fun scan :: "directive list \<Rightarrow> string \<Rightarrow> int list \<times> string option" where
  "scan [] s = ([], Some s)"
| "scan (Lit c # ds) s = (case s of x # t \<Rightarrow> if x = c then scan ds t else ([], None) | [] \<Rightarrow> ([], None))"
| "scan (Space # ds) s = scan ds (dropWhile isspace s)"
| "scan (Skip P # ds) s =
     (case s of x # t \<Rightarrow> if P x then scan ds (dropWhile P s) else ([], None) | [] \<Rightarrow> ([], None))"
| "scan (Conv base # ds) s =
     (case scan_int base s of
        None \<Rightarrow> ([], None)
      | Some (v, t) \<Rightarrow> (v # fst (scan ds t), snd (scan ds t)))"

definition sscanf :: "directive list \<Rightarrow> string \<Rightarrow> int list" where
  "sscanf ds s = fst (scan ds s)"

definition lits :: "string \<Rightarrow> directive list" where
  "lits s = map (\<lambda>c. if c = CHR '' '' then Space else Lit c) s"

section \<open>Lines, tokens and searching\<close>

text \<open>\<^verbatim>\<open>fgets\<close> with a buffer of \<open>n + 1\<close> characters: up to and including the newline, at most \<open>n\<close>.\<close>

fun take_line :: "nat \<Rightarrow> string \<Rightarrow> string \<times> string" where
  "take_line 0 s = ([], s)"
| "take_line (Suc n) [] = ([], [])"
| "take_line (Suc n) (c # cs) =
     (if c = newline then ([c], cs) else (c # fst (take_line n cs), snd (take_line n cs)))"

lemma length_take_line: "length (snd (take_line n s)) \<le> length s"
  by (induction n s rule: take_line.induct) auto

lemma take_line_shorter: "s \<noteq> [] \<Longrightarrow> length (snd (take_line (Suc n) s)) < length s"
  by (cases s) (auto simp: less_Suc_eq_le length_take_line)

function fgets_lines :: "nat \<Rightarrow> string \<Rightarrow> string list" where
  "fgets_lines n s =
     (if s = [] then [] else fst (take_line (Suc n) s) # fgets_lines n (snd (take_line (Suc n) s)))"
  by pat_completeness auto
termination
  by (relation "measure (\<lambda>(n, s). length s)") (auto simp del: take_line.simps simp: take_line_shorter)

declare fgets_lines.simps [simp del]

text \<open>The tokens \<^verbatim>\<open>strtok\<close> gives with one delimiter: the maximal non-empty runs without it.\<close>

function tokens :: "char \<Rightarrow> string \<Rightarrow> string list" where
  "tokens d s =
     (let t = dropWhile (\<lambda>c. c = d) s
      in if t = [] then [] else takeWhile (\<lambda>c. c \<noteq> d) t # tokens d (dropWhile (\<lambda>c. c \<noteq> d) t))"
  by pat_completeness auto
termination
proof (relation "measure (\<lambda>(d, s). length s)")
  fix d :: char and s t :: string
  assume t: "t = dropWhile (\<lambda>c. c = d) s" "t \<noteq> []"
  then have "hd t \<noteq> d" using hd_dropWhile [of "\<lambda>c. c = d" s] by simp
  with t(2) have "dropWhile (\<lambda>c. c \<noteq> d) t = dropWhile (\<lambda>c. c \<noteq> d) (tl t)" by (cases t) simp_all
  then have "length (dropWhile (\<lambda>c. c \<noteq> d) t) < length t"
    using length_dropWhile_le [of "\<lambda>c. c \<noteq> d" "tl t"] t(2) by (cases t) simp_all
  also have "\<dots> \<le> length s" using length_dropWhile_le t(1) by simp
  finally show "((d, dropWhile (\<lambda>c. c \<noteq> d) t), d, s) \<in> measure (\<lambda>(d, s). length s)" by simp
qed simp

declare tokens.simps [simp del]

definition starts_with :: "string \<Rightarrow> string \<Rightarrow> bool" where
  "starts_with p s \<longleftrightarrow> take (length p) s = p"

fun strstr :: "string \<Rightarrow> string \<Rightarrow> string option" where
  "strstr [] needle = (if needle = [] then Some [] else None)"
| "strstr (c # cs) needle = (if starts_with needle (c # cs) then Some (c # cs) else strstr cs needle)"

definition lstrip_ws :: "string \<Rightarrow> string" where
  "lstrip_ws s = dropWhile isspace s"

section \<open>Printed numbers\<close>

fun digits_of :: "nat \<Rightarrow> nat \<Rightarrow> string" where
  "digits_of base n =
     (if n < base \<or> base < 2 then [hex_digit n] else digits_of base (n div base) @ [hex_digit (n mod base)])"

declare digits_of.simps [simp del]

text \<open>\<^verbatim>\<open>%d\<close> and \<^verbatim>\<open>%u\<close> of a number that is not negative.\<close>

definition fmt_d :: "nat \<Rightarrow> string" where
  "fmt_d n = digits_of 10 n"

lemma fmt_x_digits: "fmt_x n = digits_of 16 n"
  by (induction n rule: fmt_x.induct) (subst fmt_x.simps, subst digits_of.simps, simp)

definition no_digit :: "nat \<Rightarrow> string \<Rightarrow> bool" where
  "no_digit base s = (case s of [] \<Rightarrow> True | c # _ \<Rightarrow> digit_val base c = None)"

lemma digit_val_hex_digit [simp]: "d < base \<Longrightarrow> base \<le> 16 \<Longrightarrow> digit_val base (hex_digit d) = Some d"
  by (simp add: digit_val_def)

lemma scan_digits_stop: "no_digit base s \<Longrightarrow> scan_digits base acc s = (acc, s)"
  by (cases s) (simp_all add: no_digit_def)

lemma scan_digits_of:
  assumes "2 \<le> base" and "base \<le> 16"
  shows "scan_digits base acc (digits_of base n @ s) =
           scan_digits base (base ^ length (digits_of base n) * acc + n) s"
  using assms
proof (induction base n arbitrary: acc s rule: digits_of.induct)
  case (1 base n)
  show ?case
  proof (cases "n < base")
    case True
    with 1 show ?thesis by (subst (1 2) digits_of.simps) simp
  next
    case False
    have split: "digits_of base n = digits_of base (n div base) @ [hex_digit (n mod base)]"
      using False "1.prems" by (subst digits_of.simps) simp
    have "base * (base ^ length (digits_of base (n div base)) * acc + n div base) + n mod base =
        base ^ Suc (length (digits_of base (n div base))) * acc + n"
      by (simp add: algebra_simps)
    with 1 False show ?thesis by (simp add: split)
  qed
qed

lemma digits_of_Cons:
  assumes "2 \<le> base" and "base \<le> 16"
  obtains d cs where "digits_of base n = hex_digit d # cs" and "d < base" and "0 < n \<Longrightarrow> 0 < d"
    and "n = 0 \<Longrightarrow> d = 0 \<and> cs = []"
  using assms
proof (induction base n arbitrary: thesis rule: digits_of.induct)
  case (1 base n)
  show ?case
  proof (cases "n < base")
    case True
    then show ?thesis using 1 by (intro "1.prems"(1) [of n "[]"]) (subst digits_of.simps, simp_all)
  next
    case False
    then have pos: "0 < n div base" using "1.prems" by (simp add: div_greater_zero_iff)
    obtain d cs where d: "digits_of base (n div base) = hex_digit d # cs" "d < base" "0 < d"
      using "1.IH" "1.prems" False pos by (metis linorder_not_less)
    then show ?thesis using False "1.prems"
      by (intro "1.prems"(1) [of d "cs @ [hex_digit (n mod base)]"]) (subst digits_of.simps, simp_all)
  qed
qed

lemma hex_digit_plain [simp]:
  assumes "d < 16"
  shows "\<not> isspace (hex_digit d)" "hex_digit d \<noteq> CHR ''-''" "hex_digit d \<noteq> CHR ''+''"
    "hex_digit d \<noteq> CHR ''x''" "hex_digit d \<noteq> CHR ''X''" "hex_digit d \<noteq> newline" "hex_digit d \<noteq> quote"
    "isxdigit (hex_digit d)" "hex_digit d \<noteq> CHR '':''" "(hex_digit d = CHR ''0'') = (d = 0)"
proof -
  have "\<forall>i \<in> set [0..<16]. \<not> isspace (hex_digit i) \<and> hex_digit i \<noteq> CHR ''-'' \<and> hex_digit i \<noteq> CHR ''+'' \<and>
    hex_digit i \<noteq> CHR ''x'' \<and> hex_digit i \<noteq> CHR ''X'' \<and> hex_digit i \<noteq> newline \<and> hex_digit i \<noteq> quote \<and>
    isxdigit (hex_digit i) \<and> hex_digit i \<noteq> CHR '':'' \<and> (hex_digit i = CHR ''0'') = (i = 0)"
    by code_simp
  then show "\<not> isspace (hex_digit d)" "hex_digit d \<noteq> CHR ''-''" "hex_digit d \<noteq> CHR ''+''"
    "hex_digit d \<noteq> CHR ''x''" "hex_digit d \<noteq> CHR ''X''" "hex_digit d \<noteq> newline" "hex_digit d \<noteq> quote"
    "isxdigit (hex_digit d)" "hex_digit d \<noteq> CHR '':''" "(hex_digit d = CHR ''0'') = (d = 0)"
    using assms by simp_all
qed

lemma set_digits_of:
  "2 \<le> base \<Longrightarrow> base \<le> 16 \<Longrightarrow> c \<in> set (digits_of base n) \<Longrightarrow> \<exists>d < base. c = hex_digit d"
proof (induction base n rule: digits_of.induct)
  case (1 base n)
  then show ?case
    by (cases "n < base") (subst (asm) (2) digits_of.simps, force)+
qed

lemma length_digits_of:
  "2 \<le> base \<Longrightarrow> n < base ^ k \<Longrightarrow> 0 < k \<Longrightarrow> length (digits_of base n) \<le> k"
proof (induction base n arbitrary: k rule: digits_of.induct)
  case (1 base n)
  show ?case
  proof (cases "n < base")
    case True
    with 1 show ?thesis by (subst digits_of.simps) simp
  next
    case False
    then obtain j where j: "k = Suc j" "0 < j" using 1 by (cases k; cases "k - 1") auto
    then have "n div base < base ^ j" using "1.prems" by (simp add: less_mult_imp_div_less mult.commute)
    with 1 False j show ?thesis by (subst digits_of.simps) simp
  qed
qed

lemma scan_plain_digits:
  assumes "2 \<le> base" and "base \<le> 16" and "n < 2 ^ 64" and "no_digit base s"
  shows "scan_plain base (digits_of base n @ s) = Some (n, s)"
proof -
  obtain d cs where d: "digits_of base n = hex_digit d # cs" "d < base"
    using digits_of_Cons [OF assms(1,2)] by metis
  have "scan_digits base 0 (digits_of base n @ s) = (n, s)"
    using scan_digits_of [OF assms(1,2), of 0 n s] assms(4) by (simp add: scan_digits_stop)
  then show ?thesis using d assms by (simp add: scan_plain_def clamp_def)
qed

lemma no_digit_mono: "no_digit base s \<Longrightarrow> base' \<le> base \<Longrightarrow> no_digit base' s"
  by (cases s) (auto simp: no_digit_def digit_val_def split: option.splits if_splits)

lemma zero_is_digit [simp]: "0 < base \<Longrightarrow> digit_val base (CHR ''0'') = Some 0"
  by (simp add: digit_val_def hex_nibble_def)

lemma scan_digits_zeros: "0 < base \<Longrightarrow> scan_digits base 0 (replicate k (CHR ''0'') @ s) = scan_digits base 0 s"
  by (induction k) simp_all

lemma scan_plain_padded:
  assumes "n < 2 ^ 64" and "no_digit 16 s"
  shows "scan_plain 16 (fmt_0x w n @ s) = Some (n, s)"
proof -
  obtain c cs where c: "fmt_0x w n @ s = c # cs" and "digit_val 16 c \<noteq> None"
  proof -
    obtain d cs where d: "digits_of 16 n = hex_digit d # cs" "d < 16"
      by (rule digits_of_Cons [of 16 n]) simp_all
    show thesis
    proof (cases "w - length (fmt_x n)")
      case 0
      with d that show thesis by (simp add: fmt_0x_def fmt_x_digits)
    next
      case (Suc k)
      with that show thesis by (simp add: fmt_0x_def)
    qed
  qed
  moreover have "scan_digits 16 0 (fmt_0x w n @ s) = (n, s)"
    using scan_digits_of [of 16 0 n s] assms(2)
    by (simp add: fmt_0x_def fmt_x_digits scan_digits_zeros scan_digits_stop)
  ultimately show ?thesis using assms(1) by (simp add: scan_plain_def clamp_def)
qed

lemma fmt_0x_0: "fmt_0x 0 n = fmt_x n"
  by (simp add: fmt_0x_def)

lemma scan_hex [scan_simps]:
  assumes "base = 16 \<or> base = 0" and "n < 2 ^ 64" and "no_digit 16 s"
  shows "scan_int base (CHR ''0'' # CHR ''x'' # fmt_0x w n @ s) = Some (int n, s)"
    and "scan_int base (CHR ''0'' # CHR ''x'' # fmt_x n @ s) = Some (int n, s)"
  using assms scan_plain_padded [OF assms(2,3), of w] scan_plain_padded [OF assms(2,3), of 0]
  by (auto simp: scan_int_def scan_unsigned_def isspace_def fmt_0x_0)

lemma scan_dec [scan_simps]:
  assumes "n < 2 ^ 64" and "no_digit 10 s"
  shows "scan_int 10 (fmt_d n @ s) = Some (int n, s)"
proof -
  obtain d cs where d: "digits_of 10 n = hex_digit d # cs" "d < 10"
    by (rule digits_of_Cons [of 10 n]) simp_all
  moreover have "scan_unsigned 10 (digits_of 10 n @ s) = scan_plain 10 (digits_of 10 n @ s)"
    by (simp add: scan_unsigned_def split: list.split)
  ultimately show ?thesis using scan_plain_digits [of 10 n s] assms
    by (simp add: scan_int_def fmt_d_def)
qed

lemma scan_int_space [scan_simps]:
  "isspace c \<Longrightarrow> scan_int base (c # s) = scan_int base s"
  by (simp add: scan_int_def)

lemma no_digit_newline [scan_simps]: "no_digit base (newline # s)"
  by (simp add: no_digit_def digit_val_def hex_nibble_def)

lemma no_digit_Nil [scan_simps]: "no_digit base []"
  by (simp add: no_digit_def)

text \<open>\<^verbatim>\<open>%i\<close> of a decimal number: a leading zero only occurs for 0 itself.\<close>

lemma scan_i_dec [scan_simps]:
  assumes "n < 2 ^ 64" and "no_digit 10 s" and "starts_with ''x'' s = False" and "starts_with ''X'' s = False"
  shows "scan_int 0 (fmt_d n @ s) = Some (int n, s)"
proof -
  obtain d cs where d: "digits_of 10 n = hex_digit d # cs" "d < 10" "0 < n \<Longrightarrow> 0 < d"
    "n = 0 \<Longrightarrow> d = 0 \<and> cs = []"
    by (rule digits_of_Cons [of 10 n]) simp_all
  have "scan_unsigned 0 (digits_of 10 n @ s) = Some (n, s)"
  proof (cases "n = 0")
    case True
    have z: "digits_of 10 n = ''0''" using True by (simp add: digits_of.simps hex_digit_def hex_digits_def)
    have "scan_plain b (''0'' @ s) = Some (0, s)" if "b = 8 \<or> b = 10" for b
      using that scan_digits_stop [of b s 0] no_digit_mono [OF assms(2), of b]
      by (auto simp: scan_plain_def clamp_def)
    with True z assms(3,4) show ?thesis
      by (cases s) (auto simp: scan_unsigned_def starts_with_def)
  next
    case False
    with d have "hex_digit d \<noteq> CHR ''0''" by simp
    then have "scan_unsigned 0 (digits_of 10 n @ s) = scan_plain 10 (digits_of 10 n @ s)"
      using d(1) by (cases "cs @ s") (simp_all add: scan_unsigned_def)
    then show ?thesis using scan_plain_digits [of 10 n s] assms by simp
  qed
  with d show ?thesis by (simp add: scan_int_def fmt_d_def)
qed

lemma number_chars:
  "newline \<notin> set (fmt_d n)" "newline \<notin> set (fmt_x n)" "newline \<notin> set (fmt_0x w n)"
  using set_digits_of [of 10 newline n] set_digits_of [of 16 newline n]
  by (auto simp: fmt_d_def fmt_0x_def fmt_x_digits dest!: sym [of newline])

lemma length_fmt:
  "n < 2 ^ 32 \<Longrightarrow> length (fmt_d n) \<le> 10" "n < 2 ^ 32 \<Longrightarrow> length (fmt_0x w n) \<le> max w 8"
  using length_digits_of [of 10 n 10] length_digits_of [of 16 n 8]
  by (auto simp: fmt_d_def fmt_0x_def fmt_x_digits)

section \<open>Texts made of lines\<close>

definition unlines :: "string list \<Rightarrow> string" where
  "unlines ls = concat (map (\<lambda>l. l @ [newline]) ls)"

lemma unlines_simps [simp]:
  "unlines [] = []" "unlines (l # ls) = l @ newline # unlines ls" "unlines (ls @ ms) = unlines ls @ unlines ms"
  by (simp_all add: unlines_def)

lemma take_line_line:
  "newline \<notin> set l \<Longrightarrow> length l < n \<Longrightarrow> take_line n (l @ newline # s) = (l @ [newline], s)"
proof (induction l arbitrary: n)
  case Nil
  then show ?case by (cases n) simp_all
next
  case (Cons c l)
  then show ?case by (cases n) auto
qed

text \<open>\<^verbatim>\<open>fgets\<close> gives the lines of a text whose lines fit the buffer.\<close>

lemma fgets_lines_unlines:
  "(\<And>l. l \<in> set ls \<Longrightarrow> newline \<notin> set l \<and> length l \<le> n) \<Longrightarrow>
     fgets_lines n (unlines ls) = map (\<lambda>l. l @ [newline]) ls"
  by (induction ls) (simp_all add: fgets_lines.simps take_line_line less_Suc_eq_le)

text \<open>\<^verbatim>\<open>strtok\<close> gives the non-empty ones.\<close>

lemma tokens_line:
  assumes "newline \<notin> set l" and "l \<noteq> []"
  shows "tokens newline (l @ newline # s) = l # tokens newline s"
proof -
  have hd: "dropWhile (\<lambda>c. c = newline) (l @ newline # s) = l @ newline # s"
    using assms by (cases l) auto
  have "takeWhile (\<lambda>c. c \<noteq> newline) (l @ newline # s) = l"
    "dropWhile (\<lambda>c. c \<noteq> newline) (l @ newline # s) = newline # s"
    using assms(1) by (auto simp: takeWhile_append dropWhile_append)
  moreover have "tokens newline (newline # s) = tokens newline s"
    by (subst (1 2) tokens.simps) simp
  ultimately show ?thesis by (subst tokens.simps) (simp add: hd Let_def)
qed

lemma tokens_empty_line: "tokens newline (newline # s) = tokens newline s"
  by (subst (1 2) tokens.simps) simp

lemma tokens_unlines:
  "(\<And>l. l \<in> set ls \<Longrightarrow> newline \<notin> set l) \<Longrightarrow>
     tokens newline (unlines ls) = filter (\<lambda>l. l \<noteq> []) ls"
proof (induction ls)
  case Nil
  then show ?case by (simp add: tokens.simps)
next
  case (Cons l ls)
  then show ?case by (cases "l = []") (simp_all add: tokens_line tokens_empty_line)
qed

end
