(* ===== verification/Cpuinfo.thy ===== *)
theory Cpuinfo
  imports C_Strings
begin

text \<open>
  lib/cpuinfo.c: the processors of the machine. /proc/cpuinfo is parsed line by line into
  \<open>cpu_info\<close> records, the MIDR of each is put together from its fields, names are looked up in the
  tables of generated_midr_db.h (empty on riscv64) and processors with the same MIDR are grouped.
  The text of the file, the host name and SINGLE_THREAD are parameters. Theory \<open>Pinning\<close> has the
  operations that choose a core.
\<close>

section \<open>MIDR\<close>

record cpu_info =
  processor :: u32
  implementer :: u32
  architecture :: u32
  variant :: u32
  part :: u32
  revision :: u32
  midr :: u32

definition build_midr :: "cpu_info \<Rightarrow> u32" where
  "build_midr cpu =
     push_bit 24 (implementer cpu) OR push_bit 16 (architecture cpu) OR push_bit 20 (variant cpu) OR
     push_bit 4 (part cpu) OR push_bit 0 (revision cpu)"

definition midr_name_table :: "build \<Rightarrow> (u32 \<times> u32 \<times> string) list" where
  "midr_name_table b = (case arch b of
     RISCV64 \<Rightarrow> []
   | AARCH64 \<Rightarrow>
       [
         (0x00, 0xd02, ''Kunpeng-Pro''), (0x41, 0xd00, ''Foundation''), (0x41, 0xd03, ''Cortex-A53''),
         (0x41, 0xd04, ''Cortex-A35''), (0x41, 0xd05, ''Cortex-A55''), (0x41, 0xd07, ''Cortex-A57''),
         (0x41, 0xd08, ''Cortex-A72''), (0x41, 0xd09, ''Cortex-A73''), (0x41, 0xd0a, ''Cortex-A75''),
         (0x41, 0xd0b, ''Cortex-A76''), (0x41, 0xd0c, ''Neoverse-N1''), (0x41, 0xd0d, ''Cortex-A77''),
         (0x41, 0xd0e, ''Cortex-A76Ae''), (0x41, 0xd0f, ''Aem-V8''), (0x41, 0xd40, ''Neoverse-V1''),
         (0x41, 0xd41, ''Cortex-A78''), (0x41, 0xd42, ''Cortex-A78Ae''), (0x41, 0xd44, ''Cortex-X1''),
         (0x41, 0xd46, ''Cortex-A510''), (0x41, 0xd47, ''Cortex-A710''), (0x41, 0xd48, ''Cortex-X2''),
         (0x41, 0xd49, ''Neoverse-N2''), (0x41, 0xd4b, ''Cortex-A78C''), (0x41, 0xd4c, ''Cortex-X1C''),
         (0x41, 0xd4d, ''Cortex-A715''), (0x41, 0xd4e, ''Cortex-X3''), (0x41, 0xd4f, ''Neoverse-V2''),
         (0x41, 0xd80, ''Cortex-A520''), (0x41, 0xd81, ''Cortex-A720''), (0x41, 0xd82, ''Cortex-X4''),
         (0x41, 0xd84, ''Neoverse-V3''), (0x41, 0xd85, ''Cortex-X925''), (0x41, 0xd87, ''Cortex-A725''),
         (0x41, 0xd8e, ''Neoverse-N3''), (0x42, 0x100, ''Brahma-B53''), (0x42, 0x516, ''Vulcan''),
         (0x43, 0x0a1, ''ThunderX''), (0x43, 0x0a2, ''ThunderX-81XX''),
         (0x43, 0x0a3, ''ThunderX-83XX''), (0x43, 0x0af, ''ThunderX2''), (0x43, 0x0b1, ''Octx2-98XX''),
         (0x43, 0x0b2, ''Octx2-96XX''), (0x43, 0x0b3, ''Octx2-95XX''), (0x43, 0x0b4, ''Octx2-95XXN''),
         (0x43, 0x0b5, ''Octx2-95XXMM''), (0x43, 0x0b6, ''Octx2-95XXO''), (0x46, 0x001, ''A64FX''),
         (0x48, 0xd01, ''TSV110''), (0x48, 0xd02, ''HiP09''), (0x48, 0xd06, ''HiP12''),
         (0x4e, 0x003, ''Denver''), (0x4e, 0x004, ''Carmel''), (0x50, 0x000, ''XGene''),
         (0x51, 0x001, ''Oryon-X1''), (0x51, 0x200, ''Kryo''), (0x51, 0x201, ''Kryo''),
         (0x51, 0x205, ''Kryo''), (0x51, 0x211, ''Kryo''), (0x51, 0x800, ''Kryo-2XX-Gold''),
         (0x51, 0x801, ''Kryo-2XX-Silver''), (0x51, 0x802, ''Kryo-3XX-Gold''),
         (0x51, 0x803, ''Kryo-3XX-Silver''), (0x51, 0x804, ''Kryo-4XX-Gold''),
         (0x51, 0x805, ''Kryo-4XX-Silver''), (0x51, 0xc00, ''Falkor''), (0x53, 0x002, ''Exynos-M3''),
         (0x61, 0x022, ''M1-Icestorm''), (0x61, 0x023, ''M1-Firestorm''),
         (0x61, 0x024, ''M1-Icestorm-Pro''), (0x61, 0x025, ''M1-Firestorm-Pro''),
         (0x61, 0x028, ''M1-Icestorm-Max''), (0x61, 0x029, ''M1-Firestorm-Max''),
         (0x61, 0x032, ''M2-Blizzard''), (0x61, 0x033, ''M2-Avalanche''),
         (0x61, 0x034, ''M2-Blizzard-Pro''), (0x61, 0x035, ''M2-Avalanche-Pro''),
         (0x61, 0x038, ''M2-Blizzard-Max''), (0x61, 0x039, ''M2-Avalanche-Max''),
         (0x6d, 0xd49, ''Azure-Cobalt-100''), (0xc0, 0xac3, ''Ampere1''), (0xc0, 0xac4, ''Ampere1A'')])"

definition midr_vendor_table :: "build \<Rightarrow> (u32 \<times> string) list" where
  "midr_vendor_table b = (case arch b of
     RISCV64 \<Rightarrow> []
   | AARCH64 \<Rightarrow>
       [
         (0x00, ''Huawei''), (0x41, ''Arm''), (0x42, ''Broadcom''), (0x43, ''Cavium''),
         (0x46, ''Fujitsu''), (0x48, ''HiSilicon''), (0x4e, ''NVIDIA''), (0x50, ''APM''),
         (0x51, ''Qualcomm''), (0x53, ''Samsung''), (0x61, ''Apple''), (0x6d, ''Microsoft''),
         (0xc0, ''Ampere'')])"

definition midr_implementer :: "u32 \<Rightarrow> u32" where
  "midr_implementer m = drop_bit 24 m AND 0xFF"

definition midr_part :: "u32 \<Rightarrow> u32" where
  "midr_part m = drop_bit 4 m AND 0xFFF"

definition midr_to_microarch :: "build \<Rightarrow> u32 \<Rightarrow> string option" where
  "midr_to_microarch b m =
     map_option (\<lambda>(i, p, name). name)
       (List.find (\<lambda>(i, p, name). i = midr_implementer m \<and> p = midr_part m) (midr_name_table b))"

definition midr_to_vendor :: "build \<Rightarrow> u32 \<Rightarrow> string option" where
  "midr_to_vendor b m =
     map_option snd (List.find (\<lambda>(i, vendor). i = midr_implementer m) (midr_vendor_table b))"

section \<open>/sys/devices/system/cpu/possible\<close>

text \<open>
  The first line is cut at commas. A token with a dash is a range; anything else counts as one
  processor. The count is an \<^verbatim>\<open>unsigned\<close> and wraps.
\<close>

definition range_size :: "string \<Rightarrow> u32 res" where
  "range_size token =
     (case sscanf [Conv 10, Lit (CHR ''-''), Conv 10] token of
        [start, end] \<Rightarrow> Inr (word_of_int (end - start + 1))
      | _ \<Rightarrow> Inl (Exit EXIT_FAILURE ''Error parsing range''))"

fun count_tokens :: "string list \<Rightarrow> u32 \<Rightarrow> u32 res" where
  "count_tokens [] n = Inr n"
| "count_tokens (t # ts) n =
     (let token = dropWhile (\<lambda>c. c = CHR '' '' \<or> c = tab) t
      in if CHR ''-'' \<in> set token
         then res_bind (range_size token) (\<lambda>k. count_tokens ts (n + k))
         else count_tokens ts (n + 1))"

definition parse_cpu_possible :: "string option \<Rightarrow> u32 res" where
  "parse_cpu_possible file =
     (case file of
        None \<Rightarrow> Inl (Exit EXIT_FAILURE ''fopen'')
      | Some content \<Rightarrow>
          if content = [] then Inl (Exit EXIT_FAILURE ''fgets'')
          else count_tokens (tokens (CHR '','') (fst (take_line 255 content))) 0)"

section \<open>/proc/cpuinfo\<close>

definition MAX_CPUS :: nat where "MAX_CPUS = 256"

record cpuinfo_parse =
  ps_cpus :: "cpu_info list"
  cpu_count :: nat
  report_back_n :: nat
  in_block :: bool

definition processor_format :: "directive list" where
  "processor_format = lits ''processor'' @ [Skip (\<lambda>c. \<not> isdigit c), Conv 10]"

definition field_format :: "string \<Rightarrow> directive list" where
  "field_format key = lits key @ [Skip (\<lambda>c. c = CHR '' '' \<or> c = tab), Lit (CHR '':''), Space, Conv 0]"

text \<open>
  \<^verbatim>\<open>TRY_GET\<close>: a field is stored for the last \<open>report_back_n\<close> processors. The second, identical
  \<^verbatim>\<open>sscanf\<close> of the macro gives what the first gave.
\<close>

definition try_get :: "string \<Rightarrow> (u32 \<Rightarrow> cpu_info \<Rightarrow> cpu_info) \<Rightarrow> string \<Rightarrow> cpuinfo_parse \<Rightarrow> cpuinfo_parse" where
  "try_get key set_field line st =
     (case sscanf (field_format key) line of
        [v] \<Rightarrow> st\<lparr>ps_cpus := fold (\<lambda>l cs. cs[cpu_count st - l := set_field (word_of_int v) (cs ! (cpu_count st - l))])
                   [1..<report_back_n st + 1] (ps_cpus st)\<rparr>
      | _ \<Rightarrow> st)"

definition get_fields :: "string \<Rightarrow> cpuinfo_parse \<Rightarrow> cpuinfo_parse" where
  "get_fields line st =
     try_get ''CPU revision'' (\<lambda>v. revision_update (\<lambda>_. v)) line
       (try_get ''CPU part'' (\<lambda>v. part_update (\<lambda>_. v)) line
         (try_get ''CPU variant'' (\<lambda>v. variant_update (\<lambda>_. v)) line
           (try_get ''CPU architecture'' (\<lambda>v. architecture_update (\<lambda>_. v)) line
             (try_get ''CPU implementer'' (\<lambda>v. implementer_update (\<lambda>_. v)) line st))))"

definition add_processor :: "u32 \<Rightarrow> cpuinfo_parse \<Rightarrow> cpuinfo_parse res" where
  "add_processor v st =
     (if cpu_count st < length (ps_cpus st)
      then Inr (st\<lparr>ps_cpus := (ps_cpus st)[cpu_count st :=
                     (ps_cpus st ! cpu_count st)\<lparr>processor := v, architecture := 8\<rparr>],
                   cpu_count := cpu_count st + 1, report_back_n := report_back_n st + 1, in_block := True\<rparr>)
      else Inl (Undefined ''cpus[cpu_count]''))"

fun cpuinfo_lines :: "nat \<Rightarrow> string list \<Rightarrow> cpuinfo_parse \<Rightarrow> cpuinfo_parse res" where
  "cpuinfo_lines max_n [] st = Inr st"
| "cpuinfo_lines max_n (line # ls) st =
     (if starts_with [newline] line
      then if cpu_count st \<ge> max_n then Inr st else cpuinfo_lines max_n ls (st\<lparr>report_back_n := 0\<rparr>)
      else case sscanf processor_format line of
             [v] \<Rightarrow> res_bind (add_processor (word_of_int v) st) (cpuinfo_lines max_n ls)
           | _ \<Rightarrow> cpuinfo_lines max_n ls (if in_block st then get_fields line st else st))"

definition zero_cpu :: cpu_info where
  "zero_cpu = \<lparr>processor = 0, implementer = 0, architecture = 0, variant = 0, part = 0, revision = 0, midr = 0\<rparr>"

definition set_midrs :: "nat \<Rightarrow> cpu_info list \<Rightarrow> cpu_info list" where
  "set_midrs n cpus = map (\<lambda>c. c\<lparr>midr := build_midr c\<rparr>) (take n cpus) @ drop n cpus"

text \<open>The array and the number of entries that are reported.\<close>

definition parse_cpuinfo ::
  "bool \<Rightarrow> string option \<Rightarrow> string option \<Rightarrow> nat \<Rightarrow> (cpu_info list \<times> nat) res" where
  "parse_cpuinfo single_thread hostname file max_n =
     res_bind (c_assert (max_n \<le> MAX_CPUS) ''max_n <= MAX_CPUS'') (\<lambda>_.
       case file of
         None \<Rightarrow> Inl (Exit EXIT_FAILURE ''fopen'')
       | Some content \<Rightarrow>
           res_bind (cpuinfo_lines max_n (fgets_lines 254 content)
                       \<lparr>ps_cpus = replicate max_n zero_cpu, cpu_count = 0, report_back_n = 0, in_block = False\<rparr>)
             (\<lambda>st. if cpu_count st = 0 then Inl (Exit EXIT_FAILURE ''No CPU information found.'')
                   else Inr (set_midrs (cpu_count st) (ps_cpus st),
                             if single_thread then 1
                             else if hostname = Some ''lab71'' then cpu_count st - 1 else cpu_count st)))"

section \<open>The current processor\<close>

text \<open>\<open>get_current_cpu_info\<close> with its cache; \<open>cur\<close> is what \<^verbatim>\<open>sched_getcpu\<close> returns.\<close>

type_synonym cpu_cache = "(cpu_info list \<times> nat) option"

definition get_current_cpu_info ::
  "bool \<Rightarrow> string option \<Rightarrow> string option \<Rightarrow> int \<Rightarrow> cpu_cache \<Rightarrow> (cpu_info \<times> cpu_cache) res" where
  "get_current_cpu_info single_thread hostname file cur cache =
     res_bind (case cache of
                 Some c \<Rightarrow> Inr c
               | None \<Rightarrow> res_bind (parse_cpuinfo single_thread hostname file MAX_CPUS) (\<lambda>c.
                   if snd c = 0 then Inl (Exit EXIT_FAILURE ''failed to parse /proc/cpuinfo'') else Inr c))
       (\<lambda>c. if cur < 0 then Inl (Exit EXIT_FAILURE ''sched_getcpu'')
            else case List.find (\<lambda>cpu. sint (processor cpu) = cur) (take (snd c) (fst c)) of
                   Some cpu \<Rightarrow> Inr (cpu, Some c)
                 | None \<Rightarrow> Inl (Exit EXIT_FAILURE ''current CPU not found''))"

section \<open>Core types\<close>

text \<open>A group of processors; its \<^verbatim>\<open>count\<close> is the length of the list.\<close>

record core_type =
  ct_midr :: u32
  ct_cpus :: "cpu_info list"

fun add_core :: "core_type list \<Rightarrow> cpu_info \<Rightarrow> core_type list" where
  "add_core [] cpu = [\<lparr>ct_midr = midr cpu, ct_cpus = [cpu]\<rparr>]"
| "add_core (t # ts) cpu =
     (if midr cpu = ct_midr t then t\<lparr>ct_cpus := ct_cpus t @ [cpu]\<rparr> # ts else t # add_core ts cpu)"

definition group_core_types :: "cpu_info list \<Rightarrow> core_type list" where
  "group_core_types cpus = foldl add_core [] cpus"

section \<open>Names\<close>

fun str_ieq :: "string \<Rightarrow> string \<Rightarrow> bool" where
  "str_ieq (a # as) (b # bs) = (if tolower a \<noteq> tolower b then False else str_ieq as bs)"
| "str_ieq as bs = (as = [] \<and> bs = [])"

section \<open>Lemmas\<close>

lemma bit_small_word:
  fixes w :: u32
  assumes "unat w < 2 ^ k" and "bit w n"
  shows "n < k"
proof (rule ccontr)
  assume "\<not> n < k"
  have "take_bit k (unat w) = unat w" using assms(1) by (rule take_bit_nat_eq_self)
  then have "\<not> bit (unat w) n" using \<open>\<not> n < k\<close> by (metis bit_take_bit_iff)
  then show False using assms(2) by (simp add: bit_unsigned_iff)
qed

text \<open>A processor whose fields have the widths of the MIDR register.\<close>

definition midr_fields_ok :: "cpu_info \<Rightarrow> bool" where
  "midr_fields_ok c \<longleftrightarrow>
     unat (implementer c) < 2 ^ 8 \<and> unat (variant c) < 2 ^ 4 \<and> unat (architecture c) < 2 ^ 4 \<and>
     unat (part c) < 2 ^ 12 \<and> unat (revision c) < 2 ^ 4"

lemma midr_fields_bits:
  assumes "midr_fields_ok c"
  shows "bit (implementer c) n \<Longrightarrow> n < 8" "bit (variant c) n \<Longrightarrow> n < 4" "bit (architecture c) n \<Longrightarrow> n < 4"
    "bit (part c) n \<Longrightarrow> n < 12" "bit (revision c) n \<Longrightarrow> n < 4"
  using assms bit_small_word unfolding midr_fields_ok_def by blast+

lemma build_midr_decode:
  assumes "midr_fields_ok c"
  shows "midr_implementer (build_midr c) = implementer c" "midr_part (build_midr c) = part c"
    "drop_bit 20 (build_midr c) AND 0xF = variant c" "drop_bit 16 (build_midr c) AND 0xF = architecture c"
    "build_midr c AND 0xF = revision c"
proof -
  note bits = midr_fields_bits [OF assms]
  have masks: "(0xFF :: u32) = mask 8" "(0xFFF :: u32) = mask 12" "(0xF :: u32) = mask 4"
    by (simp_all add: mask_eq_exp_minus_1)
  show "midr_implementer (build_midr c) = implementer c" "midr_part (build_midr c) = part c"
    "drop_bit 20 (build_midr c) AND 0xF = variant c" "drop_bit 16 (build_midr c) AND 0xF = architecture c"
    "build_midr c AND 0xF = revision c"
    unfolding masks midr_implementer_def midr_part_def build_midr_def
    by (rule bit_word_eqI; auto simp: bit_simps dest: bits)+
qed

text \<open>The keys of the name table are distinct and every implementer has a vendor.\<close>

lemma midr_tables:
  "distinct (map (\<lambda>(i, p, name). (i, p)) (midr_name_table b))"
  "distinct (map fst (midr_vendor_table b))"
  "list_all (\<lambda>(i, p, name). list_ex (\<lambda>(j, v). j = i) (midr_vendor_table b)) (midr_name_table b)"
  by (simp_all add: midr_name_table_def midr_vendor_table_def split: arch.split)

lemma find_key:
  assumes "distinct (map f xs)" and "x \<in> set xs" and "\<And>y. P y \<longleftrightarrow> f y = f x"
  shows "List.find P xs = Some x"
  using assms by (induction xs) (auto simp: rev_image_eqI)

lemma microarch_lookup:
  assumes "(i, p, name) \<in> set (midr_name_table b)" and "midr_implementer m = i" and "midr_part m = p"
  shows "midr_to_microarch b m = Some name" and "\<exists>v. midr_to_vendor b m = Some v"
proof -
  have "List.find (\<lambda>(i, p, name). i = midr_implementer m \<and> p = midr_part m) (midr_name_table b) = Some (i, p, name)"
    using assms by (intro find_key [OF midr_tables(1)]) auto
  then show "midr_to_microarch b m = Some name" by (simp add: midr_to_microarch_def)
  obtain v where v: "(i, v) \<in> set (midr_vendor_table b)"
    using midr_tables(3) assms(1) by (force simp: list_all_iff list_ex_iff)
  have "List.find (\<lambda>(i, vendor). i = midr_implementer m) (midr_vendor_table b) = Some (i, v)"
    using assms(2) v by (intro find_key [OF midr_tables(2)]) auto
  then show "\<exists>v. midr_to_vendor b m = Some v" by (simp add: midr_to_vendor_def)
qed

section \<open>Grouping\<close>

definition first_occurrences :: "'a list \<Rightarrow> 'a list" where
  "first_occurrences xs = rev (remdups (rev xs))"

lemma first_occurrences_snoc:
  "first_occurrences (xs @ [x]) = (if x \<in> set xs then first_occurrences xs else first_occurrences xs @ [x])"
  by (simp add: first_occurrences_def)

lemma set_first_occurrences [simp]: "set (first_occurrences xs) = set xs"
  by (simp add: first_occurrences_def)

lemma distinct_first_occurrences: "distinct (first_occurrences xs)"
  by (simp add: first_occurrences_def)

abbreviation group_of :: "cpu_info list \<Rightarrow> u32 \<Rightarrow> core_type" where
  "group_of cpus m \<equiv> \<lparr>ct_midr = m, ct_cpus = filter (\<lambda>c. midr c = m) cpus\<rparr>"

lemma add_core_new:
  "midr cpu \<notin> set ms \<Longrightarrow> add_core (map (group_of cpus) ms) cpu =
     map (group_of (cpus @ [cpu])) ms @ [\<lparr>ct_midr = midr cpu, ct_cpus = [cpu]\<rparr>]"
  by (induction ms) auto

lemma add_core_old:
  "midr cpu \<in> set ms \<Longrightarrow> distinct ms \<Longrightarrow>
     add_core (map (group_of cpus) ms) cpu = map (group_of (cpus @ [cpu])) ms"
proof (induction ms)
  case (Cons m ms)
  show ?case
  proof (cases "midr cpu = m")
    case True
    moreover have "group_of (cpus @ [cpu]) m' = group_of cpus m'" if "m' \<in> set ms" for m'
      using that True Cons.prems(2) by auto
    ultimately show ?thesis by simp
  qed (use Cons in simp)
qed simp

lemma group_core_types_eq:
  "group_core_types cpus = map (group_of cpus) (first_occurrences (map midr cpus))"
proof (induction cpus rule: rev_induct)
  case (snoc cpu cpus)
  have step: "group_core_types (cpus @ [cpu]) = add_core (group_core_types cpus) cpu"
    by (simp add: group_core_types_def)
  show ?case
  proof (cases "midr cpu \<in> set (map midr cpus)")
    case True
    with step snoc show ?thesis
      by (simp add: first_occurrences_snoc add_core_old distinct_first_occurrences del: filter_append)
  next
    case False
    then have "filter (\<lambda>c. midr c = midr cpu) cpus = []" by (metis (mono_tags) filter_False imageI set_map)
    with False step snoc show ?thesis by (simp add: first_occurrences_snoc add_core_new)
  qed
qed (simp add: group_core_types_def first_occurrences_def)

lemma str_ieq_iff: "str_ieq as bs \<longleftrightarrow> map tolower as = map tolower bs"
  by (induction as bs rule: str_ieq.induct) auto

section \<open>The text the kernel prints\<close>

text \<open>
  A block of /proc/cpuinfo as arm64 Linux prints it. Between the processor line and the fields are
  lines for BogoMIPS and Features; a line must fit the buffer of 256 characters. There is no blank
  before the colon of the architecture.
\<close>

definition other_line :: "string \<Rightarrow> bool" where
  "other_line l \<longleftrightarrow> l \<noteq> [] \<and> newline \<notin> set l \<and> length l \<le> 254 \<and> hd l \<noteq> CHR ''p'' \<and> hd l \<noteq> CHR ''C''"

definition processor_line :: "u32 \<Rightarrow> string" where
  "processor_line w = ''processor'' @ tab # '': '' @ fmt_d (unat w)"

definition hex_line :: "string \<Rightarrow> nat \<Rightarrow> u32 \<Rightarrow> string" where
  "hex_line key width w = key @ tab # '': 0x'' @ fmt_0x width (unat w)"

definition revision_line :: "u32 \<Rightarrow> string" where
  "revision_line w = ''CPU revision'' @ tab # '': '' @ fmt_d (unat w)"

definition architecture_line :: string where
  "architecture_line = ''CPU architecture: 8''"

definition kernel_block :: "cpu_info \<Rightarrow> string list \<Rightarrow> string list" where
  "kernel_block cpu others =
     processor_line (processor cpu) # others @
     [hex_line ''CPU implementer'' 2 (implementer cpu), architecture_line,
      hex_line ''CPU variant'' 0 (variant cpu), hex_line ''CPU part'' 3 (part cpu),
      revision_line (revision cpu), []]"

abbreviation terminated :: "string list \<Rightarrow> string list" where
  "terminated ls \<equiv> map (\<lambda>l. l @ [newline]) ls"

lemma isspace_chars [simp]:
  "isspace (CHR '' '')" "isspace tab" "isspace newline" "\<not> isspace (CHR ''i'')" "\<not> isspace (CHR ''a'')"
  "\<not> isspace (CHR ''v'')" "\<not> isspace (CHR ''p'')" "\<not> isspace (CHR ''r'')" "\<not> isspace (CHR ''0'')"
  "\<not> isspace (CHR ''8'')"
  by (simp_all add: isspace_def)

lemma fmt_d_Cons:
  obtains c cs where "fmt_d n = c # cs" and "isdigit c" and "\<not> isspace c"
proof -
  obtain d cs where "digits_of 10 n = hex_digit d # cs" "d < 10"
    by (rule digits_of_Cons [of 10 n]) simp_all
  then show thesis using that by (simp add: fmt_d_def)
qed

lemma unat_u32_bound: "unat (w :: u32) < 2 ^ 64"
  using unat_bounds(3) [of w] by simp

lemma not_digit_chars [simp]:
  "digit_val base tab = None" "digit_val base (CHR '':'') = None" "digit_val base (CHR '' '') = None"
  "digit_val base newline = None"
  by (simp_all add: digit_val_def hex_nibble_def)

lemma scan_processor:
  "sscanf processor_format ((''processor'' @ tab # '': '' @ fmt_d (unat (w :: u32))) @ [newline]) = [int (unat w)]"
proof -
  obtain c cs where c: "fmt_d (unat w) = c # cs" "isdigit c" by (rule fmt_d_Cons)
  have "scan_int 10 (fmt_d (unat w) @ [newline]) = Some (int (unat w), [newline])"
    by (intro scan_dec unat_u32_bound scan_simps)
  with c show ?thesis
    by (auto simp: sscanf_def processor_format_def lits_def)
qed

lemma scan_processor_other:
  "l \<noteq> [] \<Longrightarrow> hd l \<noteq> CHR ''p'' \<Longrightarrow> sscanf processor_format (l @ [newline]) = []"
  by (cases l) (simp_all add: sscanf_def processor_format_def lits_def)

lemma scan_field_other:
  "l \<noteq> [] \<Longrightarrow> hd l \<noteq> CHR ''C'' \<Longrightarrow> sscanf (field_format (''CPU '' @ key)) (l @ [newline]) = []"
  by (cases l) (simp_all add: sscanf_def field_format_def lits_def)

text \<open>The value of a field line, and that no other field reads it.\<close>

lemma word_of_unat: "word_of_int (int (unat (w :: u32))) = w"
  by simp

lemma scan_field_hex:
  "sscanf (field_format key) (key @ tab # '': 0x'' @ fmt_0x k (unat (w :: u32)) @ [newline]) = [int (unat w)]"
  if "key \<in> set [''CPU implementer'', ''CPU variant'', ''CPU part'']"
proof -
  have "scan_int 0 (CHR ''0'' # CHR ''x'' # fmt_0x k (unat w) @ [newline]) = Some (int (unat w), [newline])"
    by (intro scan_hex unat_u32_bound scan_simps) simp
  with that show ?thesis
    by (auto simp: sscanf_def field_format_def lits_def)
qed

lemma scan_field_dec:
  "sscanf (field_format ''CPU revision'') (''CPU revision'' @ tab # '': '' @ fmt_d (unat (w :: u32)) @ [newline]) =
     [int (unat w)]"
proof -
  obtain c cs where c: "fmt_d (unat w) = c # cs" "\<not> isspace c" by (rule fmt_d_Cons)
  have "scan_int 0 (fmt_d (unat w) @ [newline]) = Some (int (unat w), [newline])"
    by (intro scan_i_dec unat_u32_bound scan_simps) (simp_all add: starts_with_def)
  with c show ?thesis
    by (simp add: sscanf_def field_format_def lits_def)
qed

lemma scan_field_miss:
  assumes "key \<in> set [''CPU implementer'', ''CPU architecture'', ''CPU variant'', ''CPU part'', ''CPU revision'']"
    and "key' \<in> set [''CPU implementer'', ''CPU architecture'', ''CPU variant'', ''CPU part'', ''CPU revision'']"
    and "key \<noteq> key'"
  shows "sscanf (field_format key) (key' @ l) = []"
  using assms by (auto simp: sscanf_def field_format_def lits_def)

lemma scan_architecture_miss:
  "sscanf (field_format ''CPU architecture'') (''CPU architecture: 8'' @ l) = []"
  by (simp add: sscanf_def field_format_def lits_def)

text \<open>The state of the parser after some blocks, and inside the block of one more processor.\<close>

definition between :: "cpu_info list \<Rightarrow> cpu_info list \<Rightarrow> bool \<Rightarrow> cpuinfo_parse" where
  "between dn rest blk = \<lparr>ps_cpus = dn @ rest, cpu_count = length dn, report_back_n = 0, in_block = blk\<rparr>"

definition inside :: "cpu_info list \<Rightarrow> cpu_info \<Rightarrow> cpu_info list \<Rightarrow> cpuinfo_parse" where
  "inside dn c rest = \<lparr>ps_cpus = dn @ c # rest, cpu_count = Suc (length dn), report_back_n = 1, in_block = True\<rparr>"

lemma try_get_hit:
  "sscanf (field_format key) line = [v] \<Longrightarrow>
     try_get key f line (inside dn c rest) = inside dn (f (word_of_int v) c) rest"
  by (simp add: try_get_def inside_def)

lemma try_get_miss: "sscanf (field_format key) line = [] \<Longrightarrow> try_get key f line st = st"
  by (simp add: try_get_def)

lemma get_fields_kernel:
  "get_fields (''CPU implementer'' @ tab # '': 0x'' @ fmt_0x 2 (unat w) @ [newline]) (inside dn c rest) =
     inside dn (c\<lparr>implementer := w\<rparr>) rest"
  "get_fields (''CPU variant'' @ tab # '': 0x'' @ fmt_0x 0 (unat w) @ [newline]) (inside dn c rest) =
     inside dn (c\<lparr>variant := w\<rparr>) rest"
  "get_fields (''CPU part'' @ tab # '': 0x'' @ fmt_0x 3 (unat w) @ [newline]) (inside dn c rest) =
     inside dn (c\<lparr>part := w\<rparr>) rest"
  "get_fields (''CPU revision'' @ tab # '': '' @ fmt_d (unat w) @ [newline]) (inside dn c rest) =
     inside dn (c\<lparr>revision := w\<rparr>) rest"
  "get_fields (''CPU architecture: 8'' @ [newline]) st = st"
proof -
  note hit = try_get_hit [OF scan_field_hex] and dec = try_get_hit [OF scan_field_dec]
  note miss = try_get_miss [OF scan_field_miss]
  show "get_fields (''CPU implementer'' @ tab # '': 0x'' @ fmt_0x 2 (unat w) @ [newline]) (inside dn c rest) =
      inside dn (c\<lparr>implementer := w\<rparr>) rest"
    unfolding get_fields_def by (subst hit, simp, (subst miss, simp, simp, simp)+, simp)
  show "get_fields (''CPU variant'' @ tab # '': 0x'' @ fmt_0x 0 (unat w) @ [newline]) (inside dn c rest) =
      inside dn (c\<lparr>variant := w\<rparr>) rest"
    unfolding get_fields_def by ((subst miss, simp, simp, simp)+, subst hit, simp, simp)
  show "get_fields (''CPU part'' @ tab # '': 0x'' @ fmt_0x 3 (unat w) @ [newline]) (inside dn c rest) =
      inside dn (c\<lparr>part := w\<rparr>) rest"
    unfolding get_fields_def by ((subst miss, simp, simp, simp)+, subst hit, simp, simp)
  show "get_fields (''CPU revision'' @ tab # '': '' @ fmt_d (unat w) @ [newline]) (inside dn c rest) =
      inside dn (c\<lparr>revision := w\<rparr>) rest"
    unfolding get_fields_def by ((subst miss, simp, simp, simp)+, subst dec, simp)
  show "get_fields (''CPU architecture: 8'' @ [newline]) st = st"
    using scan_field_miss [of _ "''CPU architecture''" "'': 8'' @ [newline]"] scan_architecture_miss [of "[newline]"]
    by (simp add: get_fields_def try_get_miss)
qed

lemma not_blank: "l \<noteq> [] \<Longrightarrow> newline \<notin> set l \<Longrightarrow> \<not> starts_with [newline] (l @ s)"
  by (cases l) (auto simp: starts_with_def)

lemma cpuinfo_field_line:
  assumes "l = CHR ''C'' # l'"
  shows "cpuinfo_lines max_n ((l @ [newline]) # ls) (inside dn c rest) =
           cpuinfo_lines max_n ls (get_fields (l @ [newline]) (inside dn c rest))"
  using assms scan_processor_other [of l] by (simp add: starts_with_def inside_def)

lemma cpuinfo_field_lines:
  "cpuinfo_lines max_n ((hex_line ''CPU implementer'' 2 w @ [newline]) # ls) (inside dn c rest) =
     cpuinfo_lines max_n ls (inside dn (c\<lparr>implementer := w\<rparr>) rest)"
  "cpuinfo_lines max_n ((hex_line ''CPU variant'' 0 w @ [newline]) # ls) (inside dn c rest) =
     cpuinfo_lines max_n ls (inside dn (c\<lparr>variant := w\<rparr>) rest)"
  "cpuinfo_lines max_n ((hex_line ''CPU part'' 3 w @ [newline]) # ls) (inside dn c rest) =
     cpuinfo_lines max_n ls (inside dn (c\<lparr>part := w\<rparr>) rest)"
  "cpuinfo_lines max_n ((revision_line w @ [newline]) # ls) (inside dn c rest) =
     cpuinfo_lines max_n ls (inside dn (c\<lparr>revision := w\<rparr>) rest)"
  "cpuinfo_lines max_n ((architecture_line @ [newline]) # ls) (inside dn c rest) =
     cpuinfo_lines max_n ls (inside dn c rest)"
  using get_fields_kernel
  by (subst cpuinfo_field_line, simp add: hex_line_def revision_line_def architecture_line_def,
      simp add: hex_line_def revision_line_def architecture_line_def)+

lemma get_fields_other:
  assumes "other_line l"
  shows "get_fields (l @ [newline]) st = st"
  using assms scan_field_other [of l]
  by (simp add: get_fields_def other_line_def try_get_miss)

lemma cpuinfo_other_lines:
  "list_all other_line others \<Longrightarrow>
     cpuinfo_lines max_n (terminated others @ ls) (inside dn c rest) = cpuinfo_lines max_n ls (inside dn c rest)"
proof (induction others)
  case (Cons l others)
  then have "other_line l" by simp
  then have "\<not> starts_with [newline] (l @ [newline])" "sscanf processor_format (l @ [newline]) = []"
    using not_blank [of l "[newline]"] scan_processor_other [of l] by (auto simp: other_line_def)
  with Cons \<open>other_line l\<close> show ?case by (simp add: get_fields_other)
qed simp

lemma cpuinfo_processor_line:
  "cpuinfo_lines max_n ((processor_line w @ [newline]) # ls) (between dn (c # rest) blk) =
     cpuinfo_lines max_n ls (inside dn (c\<lparr>processor := w, architecture := 8\<rparr>) rest)"
proof -
  have "\<not> starts_with [newline] (processor_line w @ [newline])"
    by (simp add: starts_with_def processor_line_def)
  moreover have "sscanf processor_format (processor_line w @ [newline]) = [int (unat w)]"
    unfolding processor_line_def by (rule scan_processor)
  moreover have "add_processor w (between dn (c # rest) blk) = Inr (inside dn (c\<lparr>processor := w, architecture := 8\<rparr>) rest)"
    by (simp add: add_processor_def between_def inside_def)
  ultimately show ?thesis by simp
qed

lemma cpuinfo_blank_line:
  "cpuinfo_lines max_n ([newline] # ls) (inside dn c rest) =
     (if Suc (length dn) \<ge> max_n then Inr (inside dn c rest) else cpuinfo_lines max_n ls (between (dn @ [c]) rest True))"
  by (simp add: starts_with_def inside_def between_def)

definition parsed :: "cpu_info \<Rightarrow> bool" where
  "parsed cpu \<longleftrightarrow> architecture cpu = 8 \<and> midr cpu = build_midr cpu"

lemma cpuinfo_block:
  assumes "list_all other_line others" and "architecture cpu = 8"
  shows "cpuinfo_lines max_n (terminated (kernel_block cpu others) @ ls) (between dn (zero_cpu # rest) blk) =
           (if Suc (length dn) \<ge> max_n then Inr (inside dn (cpu\<lparr>midr := 0\<rparr>) rest)
            else cpuinfo_lines max_n ls (between (dn @ [cpu\<lparr>midr := 0\<rparr>]) rest True))"
proof -
  have "zero_cpu\<lparr>processor := processor cpu, architecture := 8, implementer := implementer cpu,
      variant := variant cpu, part := part cpu, revision := revision cpu\<rparr> = cpu\<lparr>midr := 0\<rparr>"
    using assms(2) by (cases cpu) (simp add: zero_cpu_def)
  then show ?thesis
    using cpuinfo_blank_line
    by (simp add: kernel_block_def cpuinfo_processor_line cpuinfo_other_lines [OF assms(1)] cpuinfo_field_lines
        del: cpuinfo_lines.simps)
qed

lemma cpuinfo_blocks:
  assumes "list_all (\<lambda>(cpu, others). list_all other_line others \<and> architecture cpu = 8) blocks"
    and "length dn + length blocks \<le> max_n" and "rest = replicate (max_n - length dn) zero_cpu"
  shows "\<exists>st. cpuinfo_lines max_n (concat (map (\<lambda>(cpu, others). terminated (kernel_block cpu others)) blocks))
              (between dn rest blk) = Inr st \<and>
           cpu_count st = length dn + length blocks \<and>
           take (cpu_count st) (ps_cpus st) = dn @ map (\<lambda>(cpu, others). cpu\<lparr>midr := 0\<rparr>) blocks"
  using assms
proof (induction blocks arbitrary: dn rest blk)
  case Nil
  then show ?case by (simp add: between_def)
next
  case (Cons block blocks)
  obtain cpu others where b: "block = (cpu, others)" by (cases block)
  have rest: "rest = zero_cpu # replicate (max_n - length (dn @ [cpu\<lparr>midr := 0\<rparr>])) zero_cpu"
    using Cons.prems by (simp add: Suc_diff_Suc [symmetric])
  note step = cpuinfo_block [where others = others and cpu = cpu and max_n = max_n and dn = dn and blk = blk]
  show ?case
  proof (cases "max_n \<le> Suc (length dn)")
    case True
    then have "length blocks = 0" using Cons.prems(2) by (simp del: length_0_conv)
    then have "blocks = []" by simp
    with True b Cons.prems(1) rest step [where ls = "[]"] show ?thesis
      by (simp add: inside_def del: cpuinfo_lines.simps)
  next
    case False
    with Cons.IH [of "dn @ [cpu\<lparr>midr := 0\<rparr>]" "tl rest" True] b Cons.prems(1,2) rest step show ?thesis
      by (simp del: cpuinfo_lines.simps)
  qed
qed

lemma kernel_block_lines:
  assumes "list_all other_line others" and "l \<in> set (kernel_block cpu others)"
  shows "newline \<notin> set l \<and> length l \<le> 254"
proof -
  have dec: "length (fmt_d (unat (w :: u32))) \<le> 10" for w
    using length_fmt(1) unat_bounds(3) by blast
  have hex: "length (fmt_0x k (unat (w :: u32))) \<le> max k 8" for w k
    using length_fmt(2) unat_bounds(3) by blast
  have "newline \<notin> set (processor_line w) \<and> length (processor_line w) \<le> 254" for w
    using dec [of w] by (simp add: processor_line_def number_chars)
  moreover have "newline \<notin> set (revision_line w) \<and> length (revision_line w) \<le> 254" for w
    using dec [of w] by (simp add: revision_line_def number_chars)
  moreover have "newline \<notin> set (hex_line key k w) \<and> length (hex_line key k w) \<le> 254"
    if "newline \<notin> set key" "length key \<le> 20" "k \<le> 8" for key k w
    using hex [of k w] that by (simp add: hex_line_def number_chars)
  moreover have "newline \<notin> set architecture_line \<and> length architecture_line \<le> 254"
    by (simp add: architecture_line_def)
  moreover have "newline \<notin> set l \<and> length l \<le> 254" if "l \<in> set others"
    using assms(1) that by (auto simp: list_all_iff other_line_def)
  ultimately show ?thesis using assms(2) by (auto simp: kernel_block_def)
qed

definition kernel_cpuinfo :: "(cpu_info \<times> string list) list \<Rightarrow> string" where
  "kernel_cpuinfo blocks = unlines (concat (map (\<lambda>(cpu, others). kernel_block cpu others) blocks))"

lemma fgets_kernel_cpuinfo:
  assumes "list_all (\<lambda>(cpu, others). list_all other_line others) blocks"
  shows "fgets_lines 254 (kernel_cpuinfo blocks) =
           concat (map (\<lambda>(cpu, others). terminated (kernel_block cpu others)) blocks)"
proof -
  have "fgets_lines 254 (kernel_cpuinfo blocks) = terminated (concat (map (\<lambda>(cpu, others). kernel_block cpu others) blocks))"
    unfolding kernel_cpuinfo_def
    by (rule fgets_lines_unlines) (use assms kernel_block_lines in \<open>fastforce simp: list_all_iff\<close>)
  then show ?thesis by (simp add: map_concat comp_def case_prod_unfold)
qed

lemma parse_kernel_cpuinfo:
  assumes "blocks \<noteq> []" and "length blocks \<le> max_n" and "max_n \<le> MAX_CPUS"
    and "list_all (\<lambda>(cpu, others). list_all other_line others \<and> parsed cpu) blocks"
    and "hostname \<noteq> Some ''lab71''"
  shows "\<exists>arr. parse_cpuinfo False hostname (Some (kernel_cpuinfo blocks)) max_n = Inr (arr, length blocks) \<and>
           take (length blocks) arr = map fst blocks"
proof -
  have "list_all (\<lambda>(cpu, others). list_all other_line others \<and> architecture cpu = 8) blocks"
    "list_all (\<lambda>(cpu, others). list_all other_line others) blocks"
    using assms(4) by (auto simp: list_all_iff parsed_def)
  from cpuinfo_blocks [OF this(1), of "[]" max_n _ False] fgets_kernel_cpuinfo [OF this(2)] assms(2)
  obtain st where st: "cpuinfo_lines max_n (fgets_lines 254 (kernel_cpuinfo blocks))
      \<lparr>ps_cpus = replicate max_n zero_cpu, cpu_count = 0, report_back_n = 0, in_block = False\<rparr> = Inr st"
    "cpu_count st = length blocks"
    "take (cpu_count st) (ps_cpus st) = map (\<lambda>(cpu, others). cpu\<lparr>midr := 0\<rparr>) blocks"
    by (auto simp: between_def)
  have len: "length (take (cpu_count st) (ps_cpus st)) = length blocks" by (simp only: st(3) length_map)
  have "(cpu\<lparr>midr := 0\<rparr>)\<lparr>midr := build_midr (cpu\<lparr>midr := 0\<rparr>)\<rparr> = cpu" if "parsed cpu" for cpu
    using that by (cases cpu) (simp add: parsed_def build_midr_def)
  then have "map (\<lambda>c. c\<lparr>midr := build_midr c\<rparr>) (take (cpu_count st) (ps_cpus st)) = map fst blocks"
    unfolding st(3) using assms(4) by (auto simp: list_all_iff)
  then have "take (length blocks) (set_midrs (cpu_count st) (ps_cpus st)) = map fst blocks"
    using len by (simp add: set_midrs_def)
  then show ?thesis using assms(1,3,5) st(1,2) by (simp add: parse_cpuinfo_def)
qed

section \<open>Properties\<close>

text \<open>
  C32. Parsing /proc/cpuinfo inverts the kernel's printing. For a file in the format of arm64 Linux,
  with one block per processor and at most \<open>max_n\<close> of them, \<open>parse_cpuinfo\<close> returns the number of
  processors and exactly their records, the MIDR put together from the fields included; lines it
  does not know are skipped, and the architecture, whose line has no blank before the colon and is
  never matched, has the default 8.
\<close>

theorem parse_cpuinfo_inverts_kernel:
  assumes "blocks \<noteq> []" and "length blocks \<le> max_n" and "max_n \<le> MAX_CPUS"
    and "list_all (\<lambda>(cpu, others). list_all other_line others \<and> parsed cpu) blocks"
    and "hostname \<noteq> Some ''lab71''"
  shows "\<exists>arr. parse_cpuinfo False hostname (Some (kernel_cpuinfo blocks)) max_n = Inr (arr, length blocks) \<and>
           take (length blocks) arr = map fst blocks"
  by (rule parse_kernel_cpuinfo [OF assms])

text \<open>
  C34. Grouping partitions the processors. There is one group per MIDR, in the order in which the
  MIDRs first occur, and each group has exactly the processors with its MIDR, in the order of the
  file; in particular no group is empty, so that the random choice of a member never divides by zero.
\<close>

theorem group_core_types_partition:
  "map ct_midr (group_core_types cpus) = first_occurrences (map midr cpus) \<and>
   (\<forall>t \<in> set (group_core_types cpus).
      ct_cpus t = filter (\<lambda>c. midr c = ct_midr t) cpus \<and> ct_cpus t \<noteq> []) \<and>
   (\<forall>c \<in> set cpus. \<exists>t \<in> set (group_core_types cpus). c \<in> set (ct_cpus t))"
  by (auto simp: group_core_types_eq comp_def filter_empty_conv)

text \<open>
  The MIDR keeps the fields apart. When the five fields have the widths of the register, every
  field can be read back from the MIDR that \<open>build_midr\<close> puts together, and a processor whose
  implementer and part are in the name table gets its name and a vendor.
\<close>

lemma build_midr_fields:
  assumes "midr_fields_ok c"
  shows "midr_implementer (build_midr c) = implementer c \<and> midr_part (build_midr c) = part c \<and>
         drop_bit 20 (build_midr c) AND 0xF = variant c \<and> drop_bit 16 (build_midr c) AND 0xF = architecture c \<and>
         build_midr c AND 0xF = revision c \<and>
         ((implementer c, part c, name) \<in> set (midr_name_table b) \<longrightarrow>
            midr_to_microarch b (build_midr c) = Some name \<and> (\<exists>v. midr_to_vendor b (build_midr c) = Some v))"
  using build_midr_decode [OF assms] microarch_lookup by blast

definition sample_cpu :: "u32 \<Rightarrow> u32 \<Rightarrow> u32 \<Rightarrow> cpu_info" where
  "sample_cpu n p r =
     (let c = \<lparr>processor = n, implementer = 0x41, architecture = 8, variant = 1, part = p, revision = r, midr = 0\<rparr>
      in c\<lparr>midr := build_midr c\<rparr>)"

lemma parsed_sample_cpu: "parsed (sample_cpu n p r)"
  by (simp add: parsed_def sample_cpu_def build_midr_def Let_def)

theorem parse_cpuinfo_inverts_kernel_witness:
  "\<exists>arr. parse_cpuinfo False (Some ''lab39'')
       (Some (kernel_cpuinfo [(sample_cpu 0 0xd05 2, [''BogoMIPS: 48.00'']), (sample_cpu 1 0xd0b 0, [])])) MAX_CPUS =
       Inr (arr, 2) \<and> take 2 arr = [sample_cpu 0 0xd05 2, sample_cpu 1 0xd0b 0]"
  using parse_cpuinfo_inverts_kernel
    [of "[(sample_cpu 0 0xd05 2, [''BogoMIPS: 48.00'']), (sample_cpu 1 0xd0b 0, [])]" MAX_CPUS "Some ''lab39''"]
  by (simp add: MAX_CPUS_def parsed_sample_cpu other_line_def numeral_2_eq_2)

theorem group_core_types_partition_witness:
  "\<exists>t \<in> set (group_core_types [sample_cpu 0 0xd05 2, sample_cpu 1 0xd0b 0, sample_cpu 2 0xd05 2]).
     sample_cpu 2 0xd05 2 \<in> set (ct_cpus t)"
  using group_core_types_partition [of "[sample_cpu 0 0xd05 2, sample_cpu 1 0xd0b 0, sample_cpu 2 0xd05 2]"]
  by (meson list.set_intros)

end
