(* ===== verification/Pinning.thy ===== *)
theory Pinning
  imports Cpuinfo
begin

text \<open>
  Choosing the core a process runs on: the \<open>pin_*\<close> functions of lib/cpuinfo.c, the policy
  \<open>common_pin\<close> of lib/runner.c and the command line of repro-runner.c. The operating system is the
  record \<open>os\<close>: the files and the host name, the outcome of each call of \<^verbatim>\<open>sched_setaffinity\<close> and the
  numbers \<^verbatim>\<open>rand\<close> returns; \<open>pin_state\<close> counts the calls and has the core that was set last.
\<close>

section \<open>The operating system\<close>

record os =
  cpuinfo_file :: "string option"
  hostname :: "string option"
  single_thread :: bool
  setaffinity :: "nat \<Rightarrow> int \<Rightarrow> bool"
  rand_value :: "nat \<Rightarrow> nat"

record pin_state =
  rand_calls :: nat
  affinity_calls :: nat
  pinned :: "int option"

definition rand :: "os \<Rightarrow> pin_state \<Rightarrow> nat \<times> pin_state" where
  "rand s st = (rand_value s (rand_calls st), st\<lparr>rand_calls := rand_calls st + 1\<rparr>)"

definition get_cpus :: "os \<Rightarrow> cpu_info list res" where
  "get_cpus s =
     res_bind (parse_cpuinfo (single_thread s) (hostname s) (cpuinfo_file s) MAX_CPUS) (\<lambda>(arr, n). Inr (take n arr))"

definition get_num_cpus :: "os \<Rightarrow> nat res" where
  "get_num_cpus s =
     res_bind (parse_cpuinfo (single_thread s) (hostname s) (cpuinfo_file s) MAX_CPUS) (\<lambda>(arr, n). Inr n)"

section \<open>Pinning to a core\<close>

definition try_pin_to_cpu :: "os \<Rightarrow> pin_state \<Rightarrow> int \<Rightarrow> bool \<times> pin_state" where
  "try_pin_to_cpu s st cpu =
     (let ok = setaffinity s (affinity_calls st) cpu
      in (ok, st\<lparr>affinity_calls := affinity_calls st + 1, pinned := (if ok then Some cpu else pinned st)\<rparr>))"

fun pin_tries :: "nat \<Rightarrow> os \<Rightarrow> pin_state \<Rightarrow> int \<Rightarrow> pin_state res" where
  "pin_tries 0 s st cpu = Inr st"
| "pin_tries (Suc k) s st cpu =
     (let (ok, st') = try_pin_to_cpu s st cpu
      in if ok then Inr st'
         else if k > 0 then pin_tries k s st' cpu
         else Inl (Exit EXIT_FAILURE ''sched_setaffinity failed''))"

definition pin_to_cpu :: "os \<Rightarrow> pin_state \<Rightarrow> int \<Rightarrow> pin_state res" where
  "pin_to_cpu s st cpu = pin_tries 10 s st cpu"

definition pin_to_core_verbose :: "os \<Rightarrow> pin_state \<Rightarrow> u32 \<Rightarrow> pin_state res" where
  "pin_to_core_verbose s st core =
     res_bind (get_cpus s) (\<lambda>cpus.
       if unat core \<ge> length cpus then Inl (Exit EXIT_FAILURE ''Requested core out of range'')
       else pin_to_cpu s st (sint core))"

text \<open>A draw \<^verbatim>\<open>rand() % n\<close>; a division by zero has no defined result.\<close>

definition rand_below :: "os \<Rightarrow> pin_state \<Rightarrow> nat \<Rightarrow> (nat \<times> pin_state) res" where
  "rand_below s st n =
     (if n = 0 then Inl (Undefined ''rand() % 0'')
      else let (r, st') = rand s st in Inr (r mod n, st'))"

definition pin_to_random_core :: "os \<Rightarrow> pin_state \<Rightarrow> (nat \<times> pin_state) res" where
  "pin_to_random_core s st =
     res_bind (get_cpus s) (\<lambda>cpus.
     res_bind (rand_below s st (length cpus)) (\<lambda>(core, st1).
     res_bind (pin_to_cpu s st1 (int core)) (\<lambda>st2. Inr (core, st2))))"

text \<open>A random member of a core type is pinned.\<close>

definition pin_member :: "os \<Rightarrow> pin_state \<Rightarrow> core_type \<Rightarrow> (int \<times> pin_state) res" where
  "pin_member s st t =
     res_bind (rand_below s st (length (ct_cpus t))) (\<lambda>(i, st1).
       let core = sint (processor (ct_cpus t ! i))
       in res_bind (pin_to_cpu s st1 core) (\<lambda>st2. Inr (core, st2)))"

definition same_but_revision :: "u32 \<Rightarrow> u32 \<Rightarrow> bool" where
  "same_but_revision m1 m2 \<longleftrightarrow> m1 AND NOT (push_bit 4 1 - 1) = m2 AND NOT (push_bit 4 1 - 1)"

definition pin_to_midr :: "os \<Rightarrow> pin_state \<Rightarrow> u32 \<Rightarrow> (int \<times> pin_state) res" where
  "pin_to_midr s st m =
     res_bind (get_cpus s) (\<lambda>cpus.
       let types = group_core_types cpus
       in case List.find (\<lambda>t. ct_midr t = m) types of
            Some t \<Rightarrow> pin_member s st t
          | None \<Rightarrow>
              (case List.find (\<lambda>t. same_but_revision (ct_midr t) m) types of
                 Some t \<Rightarrow> pin_member s st t
               | None \<Rightarrow> Inl (Exit EXIT_FAILURE ''No core with MIDR found'')))"

text \<open>\<open>pin_core_type\<close>: up to 30 random members, without the ten retries of \<open>pin_to_cpu\<close>.\<close>

fun pin_core_type_tries :: "nat \<Rightarrow> os \<Rightarrow> pin_state \<Rightarrow> core_type \<Rightarrow> (int \<times> pin_state) res" where
  "pin_core_type_tries 0 s st t = Inl (Exit EXIT_FAILURE ''Couldn't pin to a core for MIDR'')"
| "pin_core_type_tries (Suc k) s st t =
     res_bind (rand_below s st (length (ct_cpus t))) (\<lambda>(i, st1).
       let core = sint (processor (ct_cpus t ! i));
           (ok, st2) = try_pin_to_cpu s st1 core
       in if ok then Inr (core, st2) else pin_core_type_tries k s st2 t)"

definition pin_core_type :: "os \<Rightarrow> pin_state \<Rightarrow> core_type \<Rightarrow> (int \<times> pin_state) res" where
  "pin_core_type s st t = pin_core_type_tries 30 s st t"

definition name_matches :: "build \<Rightarrow> string \<Rightarrow> core_type \<Rightarrow> bool" where
  "name_matches b name t = (case midr_to_microarch b (ct_midr t) of Some m \<Rightarrow> str_ieq m name | None \<Rightarrow> False)"

definition pin_to_microarch_name :: "build \<Rightarrow> os \<Rightarrow> pin_state \<Rightarrow> string \<Rightarrow> (int \<times> pin_state) res" where
  "pin_to_microarch_name b s st name =
     res_bind (get_cpus s) (\<lambda>cpus.
       if name = [] then res_bind (pin_to_random_core s st) (\<lambda>(core, st'). Inr (int core, st'))
       else case List.find (name_matches b name) (group_core_types cpus) of
              Some t \<Rightarrow> pin_member s st t
            | None \<Rightarrow>
                res_bind (rand_below s st (length cpus)) (\<lambda>(core, st1).
                res_bind (pin_to_cpu s st1 (int core)) (\<lambda>st2. Inr (int core, st2))))"

definition resolve_uarch_to_core_strict :: "build \<Rightarrow> os \<Rightarrow> string \<Rightarrow> int res" where
  "resolve_uarch_to_core_strict b s name =
     (if name = [] then Inr (- 1)
      else res_bind (get_cpus s) (\<lambda>cpus.
        case List.find (name_matches b name) (group_core_types cpus) of
          Some t \<Rightarrow> Inr (sint (processor (ct_cpus t ! 0)))
        | None \<Rightarrow> Inr (- 1)))"

text \<open>\<open>pin_to_midr_list\<close>: an exact match first, then one up to the revision; \<open>None\<close> is \<^verbatim>\<open>UINT_MAX\<close>.\<close>

fun find_midr :: "(u32 \<Rightarrow> u32 \<Rightarrow> bool) \<Rightarrow> core_type list \<Rightarrow> u32 list \<Rightarrow> core_type option" where
  "find_midr same types [] = None"
| "find_midr same types (m # ms) =
     (case List.find (\<lambda>t. same (ct_midr t) m) types of Some t \<Rightarrow> Some t | None \<Rightarrow> find_midr same types ms)"

definition pin_to_midr_list :: "os \<Rightarrow> pin_state \<Rightarrow> u32 list \<Rightarrow> (int option \<times> pin_state) res" where
  "pin_to_midr_list s st midrs =
     (if midrs = [] then Inr (None, st)
      else res_bind (get_cpus s) (\<lambda>cpus.
        let types = group_core_types cpus
        in case find_midr (=) types midrs of
             Some t \<Rightarrow> res_bind (pin_member s st t) (\<lambda>(core, st'). Inr (Some core, st'))
           | None \<Rightarrow>
               (case find_midr same_but_revision types midrs of
                  Some t \<Rightarrow> res_bind (pin_member s st t) (\<lambda>(core, st'). Inr (Some core, st'))
                | None \<Rightarrow> Inr (None, st))))"

definition common_pin :: "build \<Rightarrow> os \<Rightarrow> pin_state \<Rightarrow> i32 \<Rightarrow> u32 list \<Rightarrow> u32 \<Rightarrow> string \<Rightarrow> pin_state res" where
  "common_pin b s st core midrs midr_override uarch_override =
     (if 0 \<le> sint core then pin_to_core_verbose s st core
      else if uarch_override \<noteq> [] then
        res_bind (resolve_uarch_to_core_strict b s uarch_override) (\<lambda>resolved.
          if resolved < 0 then Inl (Exit EXIT_FAILURE ''Requested uarch not found on this machine'')
          else pin_to_core_verbose s st (word_of_int resolved))
      else if midr_override \<noteq> 0 then res_bind (pin_to_midr s st midr_override) (\<lambda>(_, st'). Inr st')
      else if midrs \<noteq> [] then
        res_bind (pin_to_midr_list s st midrs) (\<lambda>(pinned_core, st').
          if pinned_core = None then res_bind (pin_to_random_core s st') (\<lambda>(_, st''). Inr st'') else Inr st')
      else res_bind (pin_to_random_core s st) (\<lambda>(_, st'). Inr st'))"

section \<open>The command line of repro-runner\<close>

text \<open>\<^verbatim>\<open>INT32_MIN\<close>, 0 and the empty text stand for options that were not given.\<close>

record cli =
  yaml_path :: string
  cli_core :: i32
  cli_midr :: u32
  cli_uarch :: string

abbreviation INT32_MIN :: i32 where "INT32_MIN \<equiv> 0x80000000"

fun parse_options :: "string list \<Rightarrow> cli \<Rightarrow> nat + cli" where
  "parse_options [] c = Inr c"
| "parse_options (a # as) c =
     (if a = ''core'' then (case as of [] \<Rightarrow> Inl 1 | v # vs \<Rightarrow> parse_options vs (c\<lparr>cli_core := atoi v\<rparr>))
      else if a = ''midr'' then
        (case as of [] \<Rightarrow> Inl 1 | v # vs \<Rightarrow> parse_options vs (c\<lparr>cli_midr := ucast (strtoul v)\<rparr>))
      else if a = ''uarch'' then
        (case as of [] \<Rightarrow> Inl 1 | v # vs \<Rightarrow> parse_options vs (c\<lparr>cli_uarch := take 127 v\<rparr>))
      else if a = ''-h'' \<or> a = ''--help'' then Inl 0
      else Inl 1)"

definition is_yaml :: "string \<Rightarrow> bool" where
  "is_yaml path \<longleftrightarrow> 5 \<le> length path \<and> drop (length path - 5) path = ''.yaml''"

definition specified :: "cli \<Rightarrow> nat" where
  "specified c = (if cli_core c \<noteq> INT32_MIN then 1 else 0) + (if cli_midr c \<noteq> 0 then 1 else 0) +
                 (if cli_uarch c \<noteq> [] then 1 else 0)"

text \<open>\<open>main\<close> up to the switch of the stack: a return code or the options.\<close>

definition repro_runner_main :: "string list \<Rightarrow> nat + cli" where
  "repro_runner_main args =
     (case args of
        [] \<Rightarrow> Inl 1
      | path # opts \<Rightarrow>
          if path = ''-h'' \<or> path = ''--help'' then Inl 0
          else if \<not> is_yaml (take 1023 path) then Inl 1
          else (case parse_options opts
                       \<lparr>yaml_path = take 1023 path, cli_core = INT32_MIN, cli_midr = 0, cli_uarch = []\<rparr> of
                  Inl code \<Rightarrow> Inl code
                | Inr c \<Rightarrow> if specified c > 1 then Inl 1 else Inr c))"

section \<open>Lemmas\<close>

text \<open>The kernel lets every request through within ten attempts.\<close>

definition grants :: "os \<Rightarrow> bool" where
  "grants s \<longleftrightarrow> (\<forall>k c. \<exists>j < 10. setaffinity s (k + j) c)"

lemma pin_tries_ok:
  "j < k \<Longrightarrow> setaffinity s (affinity_calls st + j) c \<Longrightarrow>
     \<exists>st'. pin_tries k s st c = Inr st' \<and> pinned st' = Some c"
proof (induction k arbitrary: j st)
  case (Suc k)
  show ?case
  proof (cases "setaffinity s (affinity_calls st) c")
    case True
    then show ?thesis by (simp add: try_pin_to_cpu_def Let_def)
  next
    case False
    with Suc.prems obtain i where i: "j = Suc i" "i < k" by (cases j) auto
    with Suc.IH [of i "st\<lparr>affinity_calls := affinity_calls st + 1\<rparr>"] Suc.prems(2) False show ?thesis
      by (simp add: try_pin_to_cpu_def Let_def)
  qed
qed simp

lemma pin_to_cpu_ok: "grants s \<Longrightarrow> \<exists>st'. pin_to_cpu s st c = Inr st' \<and> pinned st' = Some c"
  unfolding grants_def pin_to_cpu_def using pin_tries_ok by blast

lemma rand_below_ok: "0 < n \<Longrightarrow> \<exists>i st'. rand_below s st n = Inr (i, st') \<and> i < n"
  by (simp add: rand_below_def rand_def)

abbreviation cpu_id :: "cpu_info \<Rightarrow> int" where
  "cpu_id c \<equiv> sint (processor c)"

lemma pin_member_ok:
  assumes "grants s" and "ct_cpus t \<noteq> []"
  shows "\<exists>c st'. pin_member s st t = Inr (c, st') \<and> pinned st' = Some c \<and> c \<in> cpu_id ` set (ct_cpus t)"
proof -
  obtain i st1 where i: "rand_below s st (length (ct_cpus t)) = Inr (i, st1)" "i < length (ct_cpus t)"
    using rand_below_ok assms(2) by blast
  moreover obtain st2 where "pin_to_cpu s st1 (cpu_id (ct_cpus t ! i)) = Inr st2"
    "pinned st2 = Some (cpu_id (ct_cpus t ! i))"
    using pin_to_cpu_ok [OF assms(1)] by blast
  ultimately show ?thesis by (simp add: pin_member_def Let_def)
qed

lemma pin_to_random_core_ok:
  assumes "grants s" and "get_cpus s = Inr cpus" and "cpus \<noteq> []"
  shows "\<exists>c st'. pin_to_random_core s st = Inr (c, st') \<and> pinned st' = Some (int c) \<and> c < length cpus"
proof -
  obtain i st1 where i: "rand_below s st (length cpus) = Inr (i, st1)" "i < length cpus"
    using rand_below_ok assms(3) by blast
  moreover obtain st2 where "pin_to_cpu s st1 (int i) = Inr st2" "pinned st2 = Some (int i)"
    using pin_to_cpu_ok [OF assms(1)] by blast
  ultimately show ?thesis using assms(2) by (simp add: pin_to_random_core_def)
qed

text \<open>Searching the groups is searching the processors.\<close>

lemma find_group_None:
  "List.find (\<lambda>t. Q (ct_midr t)) (group_core_types cpus) = None \<longleftrightarrow> (\<forall>c \<in> set cpus. \<not> Q (midr c))"
  by (auto simp: find_None_iff group_core_types_eq)

lemma find_group_Some:
  assumes "List.find (\<lambda>t. Q (ct_midr t)) (group_core_types cpus) = Some t"
  shows "Q (ct_midr t) \<and> ct_cpus t = filter (\<lambda>c. midr c = ct_midr t) cpus \<and> ct_cpus t \<noteq> []"
proof -
  have "t \<in> set (group_core_types cpus)" "Q (ct_midr t)"
    using assms by (auto simp: find_Some_iff in_set_conv_nth)
  then show ?thesis by (auto simp: group_core_types_eq filter_empty_conv)
qed

definition first_match :: "(u32 \<Rightarrow> u32 \<Rightarrow> bool) \<Rightarrow> cpu_info list \<Rightarrow> u32 list \<Rightarrow> u32 option" where
  "first_match same cpus midrs = List.find (\<lambda>m. \<exists>c \<in> set cpus. same (midr c) m) midrs"

lemma find_midr_first_match:
  "case first_match same cpus midrs of
     None \<Rightarrow> find_midr same (group_core_types cpus) midrs = None
   | Some m \<Rightarrow> \<exists>t. find_midr same (group_core_types cpus) midrs = Some t \<and> same (ct_midr t) m \<and>
       ct_cpus t = filter (\<lambda>c. midr c = ct_midr t) cpus \<and> ct_cpus t \<noteq> []"
proof (induction midrs)
  case (Cons m ms)
  show ?case
  proof (cases "List.find (\<lambda>t. same (ct_midr t) m) (group_core_types cpus)")
    case None
    with Cons find_group_None [of "\<lambda>x. same x m" cpus] show ?thesis
      by (simp add: first_match_def split: option.splits)
  next
    case (Some t)
    then have "\<exists>c \<in> set cpus. same (midr c) m" using find_group_None [of "\<lambda>x. same x m" cpus] by auto
    with Some find_group_Some [OF Some] show ?thesis by (auto simp: first_match_def)
  qed
qed (simp add: first_match_def)

section \<open>The policy\<close>

text \<open>The processors each preference admits.\<close>

definition midr_targets :: "(u32 \<Rightarrow> u32 \<Rightarrow> bool) \<Rightarrow> cpu_info list \<Rightarrow> u32 \<Rightarrow> int set" where
  "midr_targets same cpus m = cpu_id ` {c \<in> set cpus. same (midr c) m}"

definition uarch_targets :: "build \<Rightarrow> cpu_info list \<Rightarrow> string \<Rightarrow> int set" where
  "uarch_targets b cpus name =
     cpu_id ` {c \<in> set cpus. \<exists>m. midr_to_microarch b (midr c) = Some m \<and> map tolower m = map tolower name}"

definition pin_targets :: "build \<Rightarrow> cpu_info list \<Rightarrow> i32 \<Rightarrow> u32 list \<Rightarrow> u32 \<Rightarrow> string \<Rightarrow> int set" where
  "pin_targets b cpus core midrs midr_override uarch_override =
     (if 0 \<le> sint core then (if sint core < int (length cpus) then {sint core} else {})
      else if uarch_override \<noteq> [] then uarch_targets b cpus uarch_override
      else if midr_override \<noteq> 0 then
        (if midr_targets (=) cpus midr_override \<noteq> {} then midr_targets (=) cpus midr_override
         else midr_targets same_but_revision cpus midr_override)
      else case first_match (=) cpus midrs of
             Some m \<Rightarrow> midr_targets (=) cpus m
           | None \<Rightarrow> (case first_match same_but_revision cpus midrs of
                        Some m \<Rightarrow> midr_targets same_but_revision cpus m
                      | None \<Rightarrow> {0..<int (length cpus)}))"

lemma member_target:
  assumes "same (ct_midr t) m" and "ct_cpus t = filter (\<lambda>c. midr c = ct_midr t) cpus" and "c \<in> cpu_id ` set (ct_cpus t)"
  shows "c \<in> midr_targets same cpus m"
  using assms by (auto simp: midr_targets_def)

lemma pin_to_midr_ok:
  fixes m :: u32
  assumes "grants s" and "get_cpus s = Inr cpus"
  defines "targets \<equiv> (if midr_targets (=) cpus m \<noteq> {} then midr_targets (=) cpus m
                      else midr_targets same_but_revision cpus m)"
  shows "if targets = {} then \<exists>why. pin_to_midr s st m = Inl (Exit EXIT_FAILURE why)
         else \<exists>c st'. pin_to_midr s st m = Inr (c, st') \<and> pinned st' = Some c \<and> c \<in> targets"
proof -
  have empty: "midr_targets same cpus m = {} \<longleftrightarrow> List.find (\<lambda>t. same (ct_midr t) m) (group_core_types cpus) = None" for same
    using find_group_None [of "\<lambda>x. same x m" cpus] by (auto simp: midr_targets_def)
  have hit: "\<exists>c st'. pin_member s st t = Inr (c, st') \<and> pinned st' = Some c \<and> c \<in> midr_targets same cpus m"
    if "List.find (\<lambda>t. same (ct_midr t) m) (group_core_types cpus) = Some t" for same t
    using find_group_Some [OF that] pin_member_ok [OF assms(1), of t st] member_target by metis
  show ?thesis
  proof (cases "List.find (\<lambda>t. ct_midr t = m) (group_core_types cpus)")
    case (Some t)
    with hit [of "(=)"] empty [of "(=)"] assms(2) show ?thesis by (simp add: targets_def pin_to_midr_def)
  next
    case exact: None
    show ?thesis
    proof (cases "List.find (\<lambda>t. same_but_revision (ct_midr t) m) (group_core_types cpus)")
      case (Some t)
      with exact hit [of same_but_revision] empty [of "(=)"] empty [of same_but_revision] assms(2) show ?thesis
        by (simp add: targets_def pin_to_midr_def)
    next
      case None
      with exact empty [of "(=)"] empty [of same_but_revision] assms(2) show ?thesis
        by (simp add: targets_def pin_to_midr_def)
    qed
  qed
qed

lemma pin_to_midr_list_ok:
  assumes "grants s" and "get_cpus s = Inr cpus" and "midrs \<noteq> []"
  shows "case first_match (=) cpus midrs of
           Some m \<Rightarrow> \<exists>c st'. pin_to_midr_list s st midrs = Inr (Some c, st') \<and> pinned st' = Some c \<and>
                       c \<in> midr_targets (=) cpus m
         | None \<Rightarrow> (case first_match same_but_revision cpus midrs of
             Some m \<Rightarrow> \<exists>c st'. pin_to_midr_list s st midrs = Inr (Some c, st') \<and> pinned st' = Some c \<and>
                         c \<in> midr_targets same_but_revision cpus m
           | None \<Rightarrow> pin_to_midr_list s st midrs = Inr (None, st))"
proof -
  have hit: "\<exists>t c st'. find_midr same (group_core_types cpus) midrs = Some t \<and>
      pin_member s st t = Inr (c, st') \<and> pinned st' = Some c \<and> c \<in> midr_targets same cpus m"
    if fm: "first_match same cpus midrs = Some m" for same m
  proof -
    obtain t where t: "find_midr same (group_core_types cpus) midrs = Some t" "same (ct_midr t) m"
      "ct_cpus t = filter (\<lambda>c. midr c = ct_midr t) cpus" "ct_cpus t \<noteq> []"
      using find_midr_first_match [of same cpus midrs] fm by auto
    from pin_member_ok [OF assms(1) t(4)] obtain c st' where
      c: "pin_member s st t = Inr (c, st')" "pinned st' = Some c" "c \<in> cpu_id ` set (ct_cpus t)" by blast
    from t(1) c(1,2) member_target [where same = same, OF t(2,3) c(3)] show ?thesis by blast
  qed
  have miss: "find_midr same (group_core_types cpus) midrs = None"
    if "first_match same cpus midrs = None" for same
    using that find_midr_first_match [of same cpus midrs] by simp
  show ?thesis
  proof (cases "first_match (=) cpus midrs")
    case (Some m)
    with hit [OF Some] assms(2,3) show ?thesis by (auto simp: pin_to_midr_list_def Let_def)
  next
    case None
    note exact = this miss [OF this]
    show ?thesis
    proof (cases "first_match same_but_revision cpus midrs")
      case (Some m)
      with exact hit [OF Some] assms(2,3) show ?thesis by (auto simp: pin_to_midr_list_def Let_def)
    next
      case None
      with exact miss [OF None] assms(2,3) show ?thesis by (simp add: pin_to_midr_list_def Let_def)
    qed
  qed
qed

text \<open>All processors are online: entry \<open>i\<close> of the file is processor \<open>i\<close>.\<close>

definition all_online :: "cpu_info list \<Rightarrow> bool" where
  "all_online cpus \<longleftrightarrow> length cpus \<le> MAX_CPUS \<and> (\<forall>i < length cpus. processor (cpus ! i) = of_nat i)"

lemma small_word:
  assumes "n < 256"
  shows "unat (of_nat n :: u32) = n" "sint (of_nat n :: u32) = int n"
  using assms by (simp_all add: unat_of_nat signed_of_nat signed_take_bit_int_eq_self)

lemma nonneg_sint: "0 \<le> sint (w :: i32) \<Longrightarrow> sint w = int (unat w)"
  using sint_lt [of w] by (simp add: uint_sint take_bit_int_eq_self)

lemma online_id:
  assumes "all_online cpus" and "c \<in> set cpus"
  shows "\<exists>i < length cpus. cpu_id c = int i"
  using assms small_word(2) by (fastforce simp: all_online_def MAX_CPUS_def in_set_conv_nth)

lemma pin_to_core_verbose_ok:
  assumes "grants s" and "get_cpus s = Inr cpus" and "unat core < length cpus"
  shows "\<exists>st'. pin_to_core_verbose s st core = Inr st' \<and> pinned st' = Some (sint core)"
  using assms pin_to_cpu_ok [OF assms(1)] by (simp add: pin_to_core_verbose_def)

lemma name_matches_iff:
  "name_matches b name t \<longleftrightarrow>
     (\<exists>m. midr_to_microarch b (ct_midr t) = Some m \<and> map tolower m = map tolower name)"
  by (auto simp: name_matches_def str_ieq_iff split: option.split)

lemma resolve_uarch_ok:
  assumes "get_cpus s = Inr cpus" and "name \<noteq> []"
  shows "if uarch_targets b cpus name = {} then resolve_uarch_to_core_strict b s name = Inr (- 1)
         else \<exists>c \<in> set cpus. resolve_uarch_to_core_strict b s name = Inr (cpu_id c) \<and>
                cpu_id c \<in> uarch_targets b cpus name"
proof -
  let ?Q = "\<lambda>m. \<exists>n. midr_to_microarch b m = Some n \<and> map tolower n = map tolower name"
  have f: "List.find (name_matches b name) (group_core_types cpus) = List.find (\<lambda>t. ?Q (ct_midr t)) (group_core_types cpus)"
    by (simp add: name_matches_iff [abs_def])
  show ?thesis
  proof (cases "List.find (\<lambda>t. ?Q (ct_midr t)) (group_core_types cpus)")
    case None
    then have "uarch_targets b cpus name = {}"
      using find_group_None [of ?Q cpus] by (simp add: uarch_targets_def)
    with None f assms show ?thesis by (simp add: resolve_uarch_to_core_strict_def)
  next
    case (Some t)
    note t = find_group_Some [OF Some]
    then have "ct_cpus t ! 0 \<in> set (ct_cpus t)" by (metis length_greater_0_conv nth_mem)
    moreover have "set (ct_cpus t) = {c \<in> set cpus. midr c = ct_midr t}" using t by (metis set_filter)
    ultimately have "ct_cpus t ! 0 \<in> set cpus" "midr (ct_cpus t ! 0) = ct_midr t" by auto
    with t have "cpu_id (ct_cpus t ! 0) \<in> uarch_targets b cpus name" by (auto simp: uarch_targets_def)
    with Some f assms \<open>ct_cpus t ! 0 \<in> set cpus\<close> show ?thesis
      by (auto simp: resolve_uarch_to_core_strict_def)
  qed
qed

lemma uarch_pin_ok:
  assumes "grants s" and "get_cpus s = Inr cpus" and "all_online cpus" and "sint core < 0" and "uarch \<noteq> []"
  shows "if uarch_targets b cpus uarch = {} then \<exists>why. common_pin b s st core midrs m uarch = Inl (Exit EXIT_FAILURE why)
         else \<exists>st' c. common_pin b s st core midrs m uarch = Inr st' \<and> pinned st' = Some c \<and>
                c \<in> uarch_targets b cpus uarch"
proof (cases "uarch_targets b cpus uarch = {}")
  case True
  with resolve_uarch_ok [OF assms(2,5), of b] assms(4,5) show ?thesis by (simp add: common_pin_def)
next
  case False
  then obtain c where c: "c \<in> set cpus" "resolve_uarch_to_core_strict b s uarch = Inr (cpu_id c)"
    "cpu_id c \<in> uarch_targets b cpus uarch"
    using resolve_uarch_ok [OF assms(2,5), of b] by auto
  obtain i where i: "i < length cpus" "cpu_id c = int i" using online_id [OF assms(3) c(1)] by blast
  have "i < 256" using i(1) assms(3) by (simp add: all_online_def MAX_CPUS_def)
  then have "unat (word_of_int (int i) :: u32) < length cpus" "sint (word_of_int (int i) :: u32) = int i"
    using i(1) small_word [of i] by simp_all
  from pin_to_core_verbose_ok [OF assms(1,2) this(1), of st] this(2) c i assms(4,5) False show ?thesis
    by (auto simp: common_pin_def)
qed

section \<open>The command line\<close>

abbreviation bare_cli :: "string \<Rightarrow> cli" where
  "bare_cli path \<equiv> \<lparr>yaml_path = path, cli_core = INT32_MIN, cli_midr = 0, cli_uarch = []\<rparr>"

lemma atoi_fmt_d: "n < 2 ^ 64 \<Longrightarrow> atoi (fmt_d n) = of_nat n"
  using scan_dec [of n "[]"] by (simp add: atoi_def no_digit_Nil)

lemma scan_unsigned_dec: "scan_unsigned 10 s = scan_plain 10 s"
  by (simp add: scan_unsigned_def split: list.split)

lemma atoi_negative: "n < 2 ^ 64 \<Longrightarrow> atoi (CHR ''-'' # fmt_d n) = - of_nat n"
  using scan_plain_digits [of 10 n "[]"]
  by (simp add: atoi_def scan_int_def scan_unsigned_dec isspace_def fmt_d_def no_digit_Nil)

lemma strtoul_hex: "n < 2 ^ 64 \<Longrightarrow> strtoul (''0x'' @ fmt_x n) = of_nat n"
  using scan_hex(2) [of 0 n "[]"] by (simp add: strtoul_def no_digit_Nil)

lemma yaml_not_help: "is_yaml path \<Longrightarrow> path \<noteq> ''-h'' \<and> path \<noteq> ''--help''"
  by (auto simp: is_yaml_def)

section \<open>Properties\<close>

text \<open>
  C33. The pinning policy is kept. When the kernel grants an affinity within ten attempts and all
  processors are online, \<open>common_pin\<close> pins the process to a processor its first applicable
  preference admits: the given core; a core of the named microarchitecture; a core with the given
  MIDR or, when there is none, one that differs in the revision only; a core with the first MIDR of
  the list that any core has, exact matches before revisions; any core. It exits exactly when the
  preference admits no processor.
\<close>

theorem common_pin_policy:
  assumes "grants s" and "get_cpus s = Inr cpus" and "cpus \<noteq> []" and "all_online cpus"
  shows "if pin_targets b cpus core midrs m uarch = {}
         then \<exists>why. common_pin b s st core midrs m uarch = Inl (Exit EXIT_FAILURE why)
         else \<exists>st' c. common_pin b s st core midrs m uarch = Inr st' \<and> pinned st' = Some c \<and>
                c \<in> pin_targets b cpus core midrs m uarch"
proof -
  have random: "\<exists>st' c. res_bind (pin_to_random_core s st) (\<lambda>(_, st'). Inr st') = Inr st' \<and> pinned st' = Some c \<and>
      c \<in> {0..<int (length cpus)}" for st
    using pin_to_random_core_ok [OF assms(1-3), of st] by auto
  have some_core: "{0..<int (length cpus)} \<noteq> {}" using assms(3) by auto
  have in_core: "(unat core < length cpus) = (sint core < int (length cpus))" if "0 \<le> sint core"
    using nonneg_sint [OF that] by (metis of_nat_less_iff)
  consider "0 \<le> sint core" | "sint core < 0" "uarch \<noteq> []" | "sint core < 0" "uarch = []" "m \<noteq> 0"
    | "sint core < 0" "uarch = []" "m = 0" "midrs \<noteq> []" | "sint core < 0" "uarch = []" "m = 0" "midrs = []"
    by fastforce
  then show ?thesis
  proof cases
    case 1
    with pin_to_core_verbose_ok [OF assms(1,2), of core st] in_core assms(2) show ?thesis
      by (auto simp: pin_targets_def common_pin_def pin_to_core_verbose_def)
  next
    case 2
    with uarch_pin_ok [OF assms(1,2,4), of core uarch b st midrs m] show ?thesis
      by (auto simp: pin_targets_def split: if_splits)
  next
    case 3
    with pin_to_midr_ok [OF assms(1,2), of m st] show ?thesis
      by (auto simp: pin_targets_def common_pin_def split: if_splits)
  next
    case 4
    with pin_to_midr_list_ok [OF assms(1,2), of midrs st] random some_core show ?thesis
      by (auto simp: pin_targets_def common_pin_def split: option.splits)
  next
    case 5
    with random some_core show ?thesis by (simp add: pin_targets_def common_pin_def first_match_def)
  qed
qed

text \<open>
  C35. A microarchitecture whose cores have high numbers is refused. \<open>resolve_uarch_to_core_strict\<close>
  gives the number of a processor, \<open>pin_to_core_verbose\<close> takes an index into the parsed list. With
  processors offline the two differ: when every core of the requested microarchitecture has a number
  not below the count of listed processors, \<open>common_pin\<close> exits although such a core is there.
\<close>

theorem uarch_with_offline_cores_refused:
  assumes "get_cpus s = Inr cpus" and "sint core < 0" and "uarch \<noteq> []" and "uarch_targets b cpus uarch \<noteq> {}"
    and "\<forall>t \<in> uarch_targets b cpus uarch. int (length cpus) \<le> t"
  shows "\<exists>why. common_pin b s st core midrs m uarch = Inl (Exit EXIT_FAILURE why)"
proof -
  obtain c where c: "resolve_uarch_to_core_strict b s uarch = Inr (cpu_id c)" "int (length cpus) \<le> cpu_id c"
    using resolve_uarch_ok [OF assms(1,3), of b] assms(4,5) by auto
  have "length cpus \<le> unat (processor c)"
    using c(2) nonneg_sint [of "processor c"] by (metis of_nat_0_le_iff of_nat_le_iff order_trans)
  with c assms(1-3) show ?thesis by (auto simp: common_pin_def pin_to_core_verbose_def)
qed

text \<open>
  The command line selects what it names. A reproducer path with one of the options \<^verbatim>\<open>core N\<close>,
  \<^verbatim>\<open>midr 0x...\<close> or \<^verbatim>\<open>uarch NAME\<close> is accepted and the option has the given value; two options of
  different kinds are refused with status 1.
\<close>

lemma cli_options_read:
  assumes "is_yaml path" and "length path < 1024" and "n < 2 ^ 31" and "m \<noteq> 0" and "length name < 128" and "name \<noteq> []"
  shows "repro_runner_main [path] = Inr (bare_cli path) \<and>
         repro_runner_main [path, ''core'', fmt_d n] = Inr ((bare_cli path)\<lparr>cli_core := of_nat n\<rparr>) \<and>
         repro_runner_main [path, ''midr'', ''0x'' @ fmt_x (unat m)] = Inr ((bare_cli path)\<lparr>cli_midr := m\<rparr>) \<and>
         repro_runner_main [path, ''uarch'', name] = Inr ((bare_cli path)\<lparr>cli_uarch := name\<rparr>) \<and>
         repro_runner_main [path, ''core'', fmt_d n, ''midr'', ''0x'' @ fmt_x (unat m)] = Inl 1 \<and>
         repro_runner_main [path, ''midr'', ''0x'' @ fmt_x (unat m), ''uarch'', name] = Inl 1 \<and>
         repro_runner_main [path, ''uarch'', name, ''core'', fmt_d n] = Inl 1"
proof -
  have c: "atoi (fmt_d n) = of_nat n" using assms(3) by (simp add: atoi_fmt_d)
  have "sint (of_nat n :: i32) \<noteq> sint INT32_MIN"
    using assms(3) by (simp add: signed_of_nat signed_take_bit_int_eq_self)
  then have n: "(of_nat n :: i32) \<noteq> INT32_MIN" by metis
  have m: "strtoul (''0x'' @ fmt_x (unat m)) = of_nat (unat m)"
    using unat_bounds(3) [of m] by (intro strtoul_hex) simp
  have m': "ucast (of_nat (unat m) :: u64) = m"
    by (simp add: ucast_up_ucast_id is_up unat_ucast_up)
  show ?thesis
    using yaml_not_help [OF assms(1)] assms c n m m' by (simp add: repro_runner_main_def specified_def)
qed

text \<open>
  C36. A negative core number is accepted and then ignored. \<^verbatim>\<open>core -N\<close> counts as a given option, so that
  \<^verbatim>\<open>midr\<close> and \<^verbatim>\<open>uarch\<close> may not be given with it, yet the process is pinned as if no option was given.
\<close>

theorem negative_core_ignored:
  assumes "is_yaml path" and "length path < 1024" and "0 < n" and "n < 2 ^ 31"
  shows "\<exists>c. repro_runner_main [path, ''core'', CHR ''-'' # fmt_d n] = Inr c \<and> specified c = 1 \<and>
           common_pin b s st (cli_core c) midrs (cli_midr c) (cli_uarch c) =
           common_pin b s st INT32_MIN midrs 0 []"
proof -
  have "(- of_nat n :: i32) = word_of_int (- int n)" by simp
  moreover have "sint (word_of_int (- int n) :: i32) = signed_take_bit 31 (- int n)"
    by (subst signed_of_int) simp
  moreover have "signed_take_bit 31 (- int n) = - int n"
    using assms(4) by (intro signed_take_bit_int_eq_self) simp_all
  ultimately have sn: "sint (- of_nat n :: i32) = - int n" by (simp only:)
  then have "sint (- of_nat n :: i32) \<noteq> sint INT32_MIN" using assms(4) by simp
  then have "(- of_nat n :: i32) \<noteq> INT32_MIN" by metis
  moreover have "atoi (CHR ''-'' # fmt_d n) = - of_nat n" using assms(4) by (simp add: atoi_negative)
  ultimately show ?thesis
    using yaml_not_help [OF assms(1)] assms sn by (simp add: repro_runner_main_def specified_def common_pin_def)
qed

section \<open>A sample machine\<close>

definition arm_build :: build where
  "arm_build = \<lparr>arch = AARCH64, flag_VECTOR = False, flag_FLOATS = True, flag_CHECK_MEM = True,
     flag_AUTO_MAP_MEM = True, flag_AUTO_MAP_MEM_RW_PROT = False, flag_META = False, MAX_SEQ_LEN = 5\<rparr>"

text \<open>An efficiency core and a performance core with the given number; every other call is granted.\<close>

definition sample_os :: "u32 \<Rightarrow> os" where
  "sample_os n =
     \<lparr>cpuinfo_file = Some (kernel_cpuinfo [(sample_cpu 0 0xd05 2, []), (sample_cpu n 0xd82 0, [])]),
      hostname = None, single_thread = False, setaffinity = (\<lambda>k c. odd k), rand_value = (\<lambda>k. 7 * k)\<rparr>"

definition sample_pin :: pin_state where
  "sample_pin = \<lparr>rand_calls = 0, affinity_calls = 0, pinned = None\<rparr>"

lemma get_cpus_sample: "get_cpus (sample_os n) = Inr [sample_cpu 0 0xd05 2, sample_cpu n 0xd82 0]"
  using parse_kernel_cpuinfo [of "[(sample_cpu 0 0xd05 2, []), (sample_cpu n 0xd82 0, [])]" MAX_CPUS None]
  by (auto simp: get_cpus_def sample_os_def MAX_CPUS_def parsed_sample_cpu)

lemma grants_sample: "grants (sample_os n)"
proof -
  have "\<exists>j < 10. odd (k + j)" for k :: nat by (rule exI [of _ "if odd k then 0 else 1"]) simp
  then show ?thesis by (simp add: grants_def sample_os_def)
qed

lemma sample_midrs:
  "midr_to_microarch arm_build (midr (sample_cpu k 0xd05 2)) = Some ''Cortex-A55''"
  "midr_to_microarch arm_build (midr (sample_cpu k 0xd82 0)) = Some ''Cortex-X4''"
  by (simp_all add: midr_to_microarch_def midr_implementer_def midr_part_def midr_name_table_def arm_build_def
      sample_cpu_def build_midr_def Let_def)

lemma sample_targets:
  "uarch_targets arm_build [sample_cpu 0 0xd05 2, sample_cpu n 0xd82 0] ''cortex-x4'' = {sint n}"
proof -
  let ?ok = "\<lambda>c. \<exists>m. midr_to_microarch arm_build (midr c) = Some m \<and> map tolower m = map tolower ''cortex-x4''"
  have "map tolower ''Cortex-X4'' = map tolower ''cortex-x4''"
    "map tolower ''Cortex-A55'' \<noteq> map tolower ''cortex-x4''"
    by code_simp+
  then have "?ok (sample_cpu n 0xd82 0)" "\<not> ?ok (sample_cpu 0 0xd05 2)" by (simp_all only: sample_midrs) auto
  then have "{c \<in> set [sample_cpu 0 0xd05 2, sample_cpu n 0xd82 0]. ?ok c} = {sample_cpu n 0xd82 0}"
    by (simp del: list.map) blast
  then show ?thesis unfolding uarch_targets_def by (simp add: sample_cpu_def Let_def del: list.map)
qed

theorem common_pin_policy_witness:
  "\<exists>st'. common_pin arm_build (sample_os 1) sample_pin INT32_MIN [] 0 ''cortex-x4'' = Inr st' \<and> pinned st' = Some 1"
proof -
  have "all_online [sample_cpu 0 0xd05 2, sample_cpu 1 0xd82 0]"
    by (auto simp: all_online_def MAX_CPUS_def less_Suc_eq sample_cpu_def Let_def numeral_2_eq_2)
  from common_pin_policy [OF grants_sample get_cpus_sample _ this, of arm_build INT32_MIN "[]" 0 "''cortex-x4''" sample_pin]
  show ?thesis by (simp add: pin_targets_def sample_targets)
qed

theorem uarch_with_offline_cores_refused_witness:
  "\<exists>why. common_pin arm_build (sample_os 4) sample_pin INT32_MIN [] 0 ''cortex-x4'' = Inl (Exit EXIT_FAILURE why)"
  by (rule uarch_with_offline_cores_refused [OF get_cpus_sample]) (simp_all add: sample_targets)

theorem negative_core_ignored_witness:
  "\<exists>c. repro_runner_main [''r.yaml'', ''core'', CHR ''-'' # fmt_d 1] = Inr c \<and>
     common_pin arm_build (sample_os 1) sample_pin (cli_core c) [] (cli_midr c) (cli_uarch c) =
     common_pin arm_build (sample_os 1) sample_pin INT32_MIN [] 0 []"
  using negative_core_ignored [of "''r.yaml''" 1 arm_build "sample_os 1" sample_pin "[]"] by (auto simp: is_yaml_def)

end
