(* ===== verification/Repro_Log.thy ===== *)
theory Repro_Log
  imports Results Pinning
begin

text \<open>
  Writing a reproducer file: \<open>log_input\<close>, \<open>log_result\<close>, the client blocks and the YAML part of
  \<open>log_repro\<close> of lib/runner.c, and \<open>detect_preferred_hostname\<close> of lib/util.c. A printer returns the
  lines it writes, without their newlines. The disassembler (libopcodes) is a parameter, as are the
  texts the kernel and Android report.
\<close>

section \<open>The input\<close>

definition reg_line :: "string \<Rightarrow> string res \<Rightarrow> u64 \<Rightarrow> string res" where
  "reg_line prefix name v = res_bind name (\<lambda>n. Inr (prefix @ n @ '': 0x'' @ fmt_x (unat v)))"

definition vec_line :: "string \<Rightarrow> string res \<Rightarrow> u8 list \<Rightarrow> string res" where
  "vec_line prefix name v = res_bind name (\<lambda>n. Inr (prefix @ n @ '': '' @ fprint_vec v))"

definition log_regs :: "build \<Rightarrow> regs \<Rightarrow> string list res" where
  "log_regs b r =
     res_bind (map_res (\<lambda>(i, v). reg_line ''      '' (get_abi_name b i) v) (loop_over_gp b r)) (\<lambda>gps.
     res_bind (if flag_FLOATS b
               then map_res (\<lambda>(i, v). reg_line ''      '' (get_abi_name_float b i) v) (loop_over_fp b r)
               else Inr []) (\<lambda>fps.
     res_bind (if flag_VECTOR b
               then map_res (\<lambda>(i, v). vec_line ''      '' (get_abi_name b i) v) (loop_over_vector_regs b r)
               else Inr []) (\<lambda>vecs.
       Inr (''  regs:'' # ''    gp:'' # gps
            @ (if flag_FLOATS b then ''    fp:'' # fps else [])
            @ (if flag_VECTOR b then ''    vec:'' # vecs else [])))))"

definition mapping_words :: "mapping \<Rightarrow> string" where
  "mapping_words m =
     concat (map (\<lambda>j. fmt_0x 16 (le_load (take 8 (drop (8 * j) (map_val m))))) [0..<map_n m div 8])"

definition log_mapping :: "mapping \<Rightarrow> string list" where
  "log_mapping m =
     [''- start: 0x'' @ fmt_x (unat (map_start m)),
      ''  n: 0x'' @ fmt_x (map_n m),
      ''  prot: 0x'' @ fmt_x (unat (map_prot m)),
      ''  val: '' @ quote # mapping_words m @ [quote]]"

definition log_mappings :: "mapping list \<Rightarrow> string list" where
  "log_mappings ms =
     (if ms \<noteq> [] then ''mappings:'' # concat (map log_mapping ms) else [''mappings: []''])"

definition log_input :: "build \<Rightarrow> (u32 \<Rightarrow> string option) \<Rightarrow> u32 list \<Rightarrow> regs \<Rightarrow> mapping list \<Rightarrow> string list res" where
  "log_input b disasm_opcodes instr_seq regs_before ms =
     res_bind (map_res (\<lambda>i. case disasm_opcodes i of
                              None \<Rightarrow> Inl (Exit EXIT_FAILURE ''dis'')
                            | Some d \<Rightarrow> Inr (''  - '' @ CHR 0x27 # d @ [CHR 0x27])) instr_seq) (\<lambda>dis.
     res_bind (log_regs b regs_before) (\<lambda>rs.
       Inr ([''input:'', ''  instr_seq:'']
            @ map (\<lambda>i. ''  - 0x'' @ fmt_0x 8 (unat i)) instr_seq
            @ [''  dis_opcodes:''] @ dis @ rs @ log_mappings ms)))"

section \<open>The device\<close>

text \<open>What the system reports; an unset text is empty, a failed call is \<open>None\<close>.\<close>

record host_env =
  he_hostname :: "string option"
  he_serialno :: string
  he_model :: string
  he_product :: string
  he_HOST :: "string option"
  he_nodename :: string
  he_asimd :: bool

definition detect_preferred_hostname :: "host_env \<Rightarrow> string \<Rightarrow> string" where
  "detect_preferred_hostname h override =
     (if override \<noteq> [] then take 255 override
      else case he_hostname h of
        None \<Rightarrow> ''unknown''
      | Some buf \<Rightarrow>
          if buf \<noteq> ''localhost'' then take 255 buf
          else take 255
            (case he_HOST h of
               Some e \<Rightarrow> if e \<noteq> ''localhost'' then e
                         else if he_product h \<noteq> [] \<and> he_serialno h \<noteq> [] then he_product h @ ''_'' @ he_serialno h
                         else if he_model h \<noteq> [] then he_model h
                         else if he_nodename h \<noteq> [] then he_nodename h else ''localhost''
             | None \<Rightarrow> if he_product h \<noteq> [] \<and> he_serialno h \<noteq> [] then he_product h @ ''_'' @ he_serialno h
                       else if he_model h \<noteq> [] then he_model h
                       else if he_nodename h \<noteq> [] then he_nodename h else ''localhost''))"

definition get_vec_size :: "build \<Rightarrow> host_env \<Rightarrow> nat" where
  "get_vec_size b h = (case arch b of
     RISCV64 \<Rightarrow> if flag_VECTOR b then VEC_REG_SIZE else 0
   | AARCH64 \<Rightarrow> if he_asimd h then 16 else 0)"

definition build_vec_suffix :: "build \<Rightarrow> string" where
  "build_vec_suffix b = (if flag_VECTOR b then '' VEC='' @ fmt_d VEC_REG_SIZE else [])"

definition or_unknown :: "string option \<Rightarrow> string" where
  "or_unknown x = (case x of Some s \<Rightarrow> s | None \<Rightarrow> ''unknown'')"

definition log_microarchitecture_block :: "build \<Rightarrow> string \<Rightarrow> cpu_info \<Rightarrow> bool \<Rightarrow> string list" where
  "log_microarchitecture_block b ind cpu item =
     (let nested = ind @ ''  ''
      in [ind @ (if item then ''- '' else ''  '') @ ''vendor: '' @ or_unknown (midr_to_vendor b (midr cpu)),
          nested @ ''model_name: '' @ or_unknown (midr_to_microarch b (midr cpu)),
          nested @ ''midr: 0x'' @ fmt_x (unat (midr cpu)),
          nested @ ''implementer: 0x'' @ fmt_x (unat (implementer cpu)),
          nested @ ''part: 0x'' @ fmt_x (unat (part cpu)),
          nested @ ''variant: 0x'' @ fmt_x (unat (variant cpu)),
          nested @ ''revision: 0x'' @ fmt_x (unat (revision cpu)),
          nested @ ''flags: []''])"

text \<open>The first line continues the line the caller began with \<open>start\<close>.\<close>

definition log_device_block :: "build \<Rightarrow> host_env \<Rightarrow> nat \<Rightarrow> string \<Rightarrow> string \<Rightarrow> string list" where
  "log_device_block b h num_cpus start ind =
     (let host = detect_preferred_hostname h []
      in [start @ ''hostname: '' @ (if host \<noteq> [] then host else ''unknown''),
          ind @ ''num_cpus: '' @ fmt_d num_cpus]
         @ (if get_vec_size b h > 0 then [ind @ ''vec_size: '' @ fmt_d (get_vec_size b h)] else [])
         @ (if he_product h \<noteq> [] then [ind @ ''android_product: '' @ he_product h] else [])
         @ (if he_model h \<noteq> [] then [ind @ ''android_model: '' @ he_model h] else [])
         @ (if he_serialno h \<noteq> [] then [ind @ ''android_serialno: '' @ he_serialno h] else []))"

definition log_client_block_yaml :: "build \<Rightarrow> host_env \<Rightarrow> nat \<Rightarrow> string \<Rightarrow> cpu_info \<Rightarrow> string list" where
  "log_client_block_yaml b h num_cpus prefix cpu =
     (let item_indent = take 63 (prefix @ ''    '')
      in [prefix @ ''  clients:'']
         @ log_device_block b h num_cpus (prefix @ ''  - '') item_indent
         @ [item_indent @ ''n_core: '' @ fmt_d (unat (processor cpu)), item_indent @ ''microarchitecture:'']
         @ log_microarchitecture_block b item_indent cpu False)"

definition log_client_info_yaml :: "build \<Rightarrow> host_env \<Rightarrow> os \<Rightarrow> string list res" where
  "log_client_info_yaml b h s =
     res_bind (get_num_cpus s) (\<lambda>n.
     res_bind (get_cpus s) (\<lambda>cpus.
       Inr (log_device_block b h n [] []
            @ (if group_core_types cpus = [] then [''microarchitectures: []'']
               else ''microarchitectures:'' #
                    concat (map (\<lambda>t. log_microarchitecture_block b [] (ct_cpus t ! 0) True) (group_core_types cpus))))))"

section \<open>A result\<close>

text \<open>The registers that differ: the general purpose ones, the status register, then the others.\<close>

definition log_regs_after :: "build \<Rightarrow> string \<Rightarrow> regs \<Rightarrow> regs \<Rightarrow> string list res" where
  "log_regs_after b prefix before after =
     (let ind = prefix @ ''      ''
      in res_bind (map_res (\<lambda>(i, _, v). reg_line ind (get_abi_name b i) v) (loop_over_gp_diff b before after)) (\<lambda>gps.
         res_bind (case arch b of
             AARCH64 \<Rightarrow>
               res_bind (if pstate before \<noteq> pstate after
                         then Inr [ind @ ''pstate: 0x'' @ fmt_x (unat (pstate after))] else Inr []) (\<lambda>ps.
               res_bind (if (flag_FLOATS b \<or> flag_VECTOR b) \<and> fpsr before \<noteq> fpsr after
                         then map_res (\<lambda>v. reg_line ind (get_abi_name b (getabiindex b ''fpsr'')) v) [fpsr after]
                         else Inr []) (\<lambda>fs. Inr (ps @ fs)))
           | RISCV64 \<Rightarrow>
               (if flag_FLOATS b \<and> fcsr before \<noteq> fcsr after
                then map_res (\<lambda>v. reg_line ind (get_abi_name b (getabiindex b ''fcsr'')) v) [fcsr after]
                else Inr [])) (\<lambda>status.
         res_bind (if flag_FLOATS b
                   then map_res (\<lambda>(i, _, v). reg_line ind (get_abi_name_float b i) v) (loop_over_fp_diff b before after)
                   else Inr []) (\<lambda>fps.
         res_bind (if flag_VECTOR b
                   then map_res (\<lambda>(i, _, v). vec_line ind (get_abi_name b i) v) (loop_over_vector_regs_diff b before after)
                   else Inr []) (\<lambda>vecs.
           Inr (gps @ status @ fps @ vecs))))))"

definition log_mem_change :: "string \<Rightarrow> mem_change \<Rightarrow> string list" where
  "log_mem_change prefix c =
     (let n_full = unat (mc_n c); n_cap = (if n_full < CHECK_MEM_CUT_AT then n_full else CHECK_MEM_CUT_AT)
      in [prefix @ ''    - start: 0x'' @ fmt_0x 16 (unat (mc_start c)),
          prefix @ ''      n: 0x'' @ fmt_x n_full,
          prefix @ ''      val: '' @ fprint_hex (take n_cap (mc_val c))]
         @ (if n_full > CHECK_MEM_CUT_AT then [prefix @ ''      cut_at: 0x'' @ fmt_x CHECK_MEM_CUT_AT] else [])
         @ [prefix @ ''      checksum: 0x'' @ fmt_0x 8 (unat (mc_checksum c))])"

definition log_mem :: "build \<Rightarrow> string \<Rightarrow> mem_change list \<Rightarrow> string list" where
  "log_mem b prefix cs =
     (if \<not> flag_CHECK_MEM b then []
      else if cs = [] then [prefix @ ''    mem_diffs: []'']
      else (if length cs \<ge> CHECK_MEM_MAX_NUMBER_MEM_CHANGES b
            then [prefix @ ''    mem_diffs_capped_at: '' @ fmt_d (CHECK_MEM_MAX_NUMBER_MEM_CHANGES b)] else [])
           @ [prefix @ ''    mem_diffs:''] @ concat (map (log_mem_change prefix) cs))"

definition log_result ::
  "build \<Rightarrow> host_env \<Rightarrow> nat \<Rightarrow> result \<Rightarrow> regs \<Rightarrow> string \<Rightarrow> cpu_info option \<Rightarrow> string list res" where
  "log_result b h num_cpus r regs_before prefix cpu =
     res_bind (log_regs_after b prefix regs_before (regs_result r)) (\<lambda>diffs.
       Inr ([prefix @ ''- result:'', prefix @ ''    signum: 0x'' @ fmt_x (unat (signum r))]
            @ (if signum r \<noteq> 0
               then [prefix @ ''    si_addr: 0x'' @ fmt_x (unat (si_addrr r)),
                     prefix @ ''    si_pc: 0x'' @ fmt_x (unat (si_pc r)),
                     prefix @ ''    si_code: 0x'' @ fmt_x (unat (si_code r))]
                    @ (if instr_idx r \<noteq> 0 then [prefix @ ''    instr_idx: '' @ fmt_d (unat (instr_idx r))] else [])
               else [])
            @ (if diffs = [] then [prefix @ ''    regs_after: []''] else (prefix @ ''    regs_after:'') # diffs)
            @ log_mem b prefix (mem_changes r)
            @ (if flag_META b
               then [prefix @ ''    meta:'', prefix @ ''      cycle: '' @ fmt_d (unat (meta_cycle r)),
                     prefix @ ''      instret: '' @ fmt_d (unat (meta_instret r))]
               else [])
            @ (case cpu of None \<Rightarrow> [] | Some c \<Rightarrow> log_client_block_yaml b h num_cpus prefix c)))"

section \<open>The file\<close>

definition log_flags :: "build \<Rightarrow> string list" where
  "log_flags b =
     (if \<not> flag_VECTOR b \<and> \<not> flag_FLOATS b \<and> \<not> flag_CHECK_MEM b \<and> \<not> flag_AUTO_MAP_MEM b \<and> \<not> flag_META b
      then [''flags: []'']
      else [''flags:'']
           @ (if flag_VECTOR b then [''- -DVECTOR''] else [])
           @ (if flag_FLOATS b then [''- -DFLOATS''] else [])
           @ (if flag_CHECK_MEM b then [''- -DCHECK_MEM''] else [])
           @ (if flag_AUTO_MAP_MEM b then [''- -DAUTO_MAP_MEM''] else [])
           @ (if flag_AUTO_MAP_MEM_RW_PROT b then [''- -DAUTO_MAP_MEM_RW_PROT''] else [])
           @ (if flag_META b then [''- -DMETA''] else []))"

text \<open>The YAML section of \<open>log_repro\<close>, behind the commented summaries.\<close>

definition log_repro_yaml ::
  "build \<Rightarrow> (u32 \<Rightarrow> string option) \<Rightarrow> host_env \<Rightarrow> nat \<Rightarrow> string \<Rightarrow> (result \<times> cpu_info option) list \<Rightarrow>
     u32 list \<Rightarrow> regs \<Rightarrow> mapping list \<Rightarrow> string list res" where
  "log_repro_yaml b disasm_opcodes h num_cpus git_commit items instr_seq regs_before ms =
     res_bind (log_input b disasm_opcodes instr_seq regs_before ms) (\<lambda>input.
     res_bind (map_res (\<lambda>(r, cpu). log_result b h num_cpus r regs_before [] cpu) items) (\<lambda>results.
       Inr (input @ ''results:'' # concat results @ log_flags b
            @ [case arch b of AARCH64 \<Rightarrow> ''arch: aarch64'' | RISCV64 \<Rightarrow> ''arch: riscv64'',
               ''git_commit: '' @ git_commit])))"

end
