(* ===== verification/Repro_Load.thy ===== *)
theory Repro_Load
  imports Repro_Log
begin

text \<open>
  Reading a reproducer file: \<open>load_repro\<close> of lib/runner.c. The text is cut into lines with
  \<^verbatim>\<open>strtok_r\<close>, so blank lines disappear; the loops walk over the list of lines and return what is
  left. The outer loop is \<open>load_lines\<close> with fuel, because it does not end on every file. An index
  outside an array, or reading a line that is not there, is \<open>Undefined\<close>; \<open>malloced n\<close> is the content of
  fresh memory.
\<close>

section \<open>Instructions\<close>

fun load_instrs :: "build \<Rightarrow> string list \<Rightarrow> u32 list \<Rightarrow> (u32 list \<times> string list) res" where
  "load_instrs b [] instrs = Inr (instrs, [])"
| "load_instrs b (line # ls) instrs =
     (let t = lstrip_ws line
      in if \<not> starts_with ''-'' t then Inr (instrs, line # ls)
         else case sscanf (lits ''- '' @ [Conv 16]) t of
                [v] \<Rightarrow> if length instrs \<ge> MAX_SEQ_LEN b then Inl (Exit EXIT_FAILURE ''MAX_SEQ_LEN'')
                       else load_instrs b ls (instrs @ [word_of_int v])
              | _ \<Rightarrow> Inl (Exit EXIT_FAILURE ''res == 1''))"

section \<open>Registers\<close>

definition named_value :: "directive list" where
  "named_value = [Skip (\<lambda>c. c \<noteq> CHR '':''), Lit (CHR '':''), Space, Conv 16]"

definition ends_gp :: "string \<Rightarrow> bool" where
  "ends_gp u \<longleftrightarrow> starts_with ''vec:'' u \<or> starts_with ''fp:'' u \<or> starts_with ''dis_'' u \<or>
     starts_with ''instr_seq:'' u \<or> starts_with ''mappings:'' u"

fun load_gp :: "string list \<Rightarrow> nat \<Rightarrow> u64 list \<Rightarrow> (u64 list \<times> string list) res" where
  "load_gp [] i g = Inr (g, [])"
| "load_gp (line # ls) i g =
     (let u = lstrip_ws line
      in if u = [] then load_gp ls i g
         else if ends_gp u then Inr (g, line # ls)
         else case sscanf named_value u of
                [v] \<Rightarrow> if i < length g then load_gp ls (i + 1) (g[i := word_of_int v])
                       else Inl (Undefined ''gp[i]'')
              | _ \<Rightarrow> load_gp ls i g)"

fun load_fp :: "string list \<Rightarrow> nat \<Rightarrow> u64 list \<Rightarrow> (u64 list \<times> string list) res" where
  "load_fp [] i f = Inr (f, [])"
| "load_fp (line # ls) i f =
     (let u = lstrip_ws line
      in if u = [] then load_fp ls i f
         else if hd u \<noteq> CHR ''f'' \<and> hd u \<noteq> CHR ''d'' then Inr (f, line # ls)
         else case sscanf named_value u of
                [v] \<Rightarrow> if i < length f then load_fp ls (i + 1) (f[i := word_of_int v])
                       else Inl (Undefined ''fp[i]'')
              | _ \<Rightarrow> load_fp ls i f)"

definition vec_value :: "string \<Rightarrow> u8 list" where
  "vec_value u =
     (case strstr u ''0x'' of
        None \<Rightarrow> replicate VEC_REG_SIZE 0
      | Some p \<Rightarrow>
          let hex = take (2 * VEC_REG_SIZE) (takeWhile isxdigit (drop 2 p))
          in if hex = [] then replicate VEC_REG_SIZE 0 else parse_hex_le_bytes hex VEC_REG_SIZE)"

fun load_vec :: "string list \<Rightarrow> nat \<Rightarrow> u8 list list \<Rightarrow> (u8 list list \<times> string list) res" where
  "load_vec [] i vs = Inr (vs, [])"
| "load_vec (line # ls) i vs =
     (let u = lstrip_ws line
      in if u = [] then load_vec ls i vs
         else if hd u \<noteq> CHR ''v'' then Inr (vs, line # ls)
         else if i < length vs then load_vec ls (i + 1) (vs[i := vec_value u])
         else Inl (Undefined ''vec[i]''))"

lemma load_gp_length: "load_gp ls i g = Inr (g', ls') \<Longrightarrow> length ls' \<le> length ls"
  by (induction ls arbitrary: i g) (auto simp: Let_def intro: le_SucI split: if_splits list.splits)

lemma load_fp_length: "load_fp ls i f = Inr (f', ls') \<Longrightarrow> length ls' \<le> length ls"
  by (induction ls arbitrary: i f) (auto simp: Let_def intro: le_SucI split: if_splits list.splits)

lemma load_vec_length: "load_vec ls i vs = Inr (vs', ls') \<Longrightarrow> length ls' \<le> length ls"
  by (induction ls arbitrary: i vs) (auto simp: Let_def intro: le_SucI split: if_splits list.splits)

function load_regs :: "build \<Rightarrow> string list \<Rightarrow> regs \<Rightarrow> (regs \<times> string list) res" where
  "load_regs b [] r = Inr (r, [])"
| "load_regs b (line # ls) r =
     (let t = lstrip_ws line
      in if starts_with ''gp:'' t
         then (case load_gp ls 0 (gp r) of Inl e \<Rightarrow> Inl e | Inr (g, ls') \<Rightarrow> load_regs b ls' (r\<lparr>gp := g\<rparr>))
         else if flag_VECTOR b \<and> starts_with ''vec:'' t
         then (case load_vec ls 0 (vec r) of Inl e \<Rightarrow> Inl e | Inr (vs, ls') \<Rightarrow> load_regs b ls' (r\<lparr>vec := vs\<rparr>))
         else if flag_FLOATS b \<and> starts_with ''fp:'' t
         then (case load_fp ls 0 (fp r) of Inl e \<Rightarrow> Inl e | Inr (f, ls') \<Rightarrow> load_regs b ls' (r\<lparr>fp := f\<rparr>))
         else Inr (r, line # ls))"
  by pat_completeness auto
termination
  by (relation "measure (\<lambda>(b, ls, r). length ls)")
    (auto simp: less_Suc_eq_le dest!: load_gp_length load_fp_length load_vec_length)

section \<open>Mappings\<close>

text \<open>A word of 16 digits, highest byte first, as the 8 bytes of its memory.\<close>

definition hex_byte :: "char \<Rightarrow> char \<Rightarrow> u8" where
  "hex_byte hi lo = of_nat (16 * the (hex_nibble hi) + the (hex_nibble lo))"

definition decode_word :: "string \<Rightarrow> u8 list" where
  "decode_word w = map (\<lambda>p. hex_byte (w ! (2 * p)) (w ! (2 * p + 1))) (rev [0..<8])"

definition decode_words :: "string \<Rightarrow> nat \<Rightarrow> u8 list" where
  "decode_words hex k = concat (map (\<lambda>j. decode_word (take 16 (drop (16 * j) hex))) [0..<k div 16])"

definition mapping_hex :: "string \<Rightarrow> string" where
  "mapping_hex valp =
     (let v1 = dropWhile isspace valp;
          v2 = (if starts_with [quote] v1 then drop 1 v1 else v1);
          v3 = (if starts_with ''0x'' v2 \<or> starts_with ''0X'' v2 then drop 2 v2 else v2)
      in takeWhile (\<lambda>c. c \<noteq> quote \<and> isxdigit c) v3)"

definition mapping_val :: "(nat \<Rightarrow> u8 list) \<Rightarrow> nat \<Rightarrow> string \<Rightarrow> u8 list res" where
  "mapping_val malloced n t =
     (case strstr t ''val:'' of
        None \<Rightarrow> Inr (malloced n)
      | Some valp \<Rightarrow>
          let hex = mapping_hex (drop 4 valp)
          in res_bind (c_assert (n mod 8 = 0) ''mapping->n % 8 == 0'') (\<lambda>_.
             res_bind (c_assert (length hex = (2 * n) mod 2 ^ 64) ''k == mapping->n * 2'') (\<lambda>_.
               Inr (decode_words hex (length hex)))))"

definition scan_one :: "directive list \<Rightarrow> string \<Rightarrow> int res" where
  "scan_one fmt t = (case sscanf fmt t of [v] \<Rightarrow> Inr v | _ \<Rightarrow> Inl (Exit EXIT_FAILURE ''res == 1''))"

text \<open>The lines end inside a mapping: those that are there are read, then a null pointer is.\<close>

definition incomplete_mapping :: "string \<Rightarrow> string list \<Rightarrow> 'a res" where
  "incomplete_mapping l1 rest =
     res_bind (scan_one (lits ''- start: '' @ [Conv 16]) (lstrip_ws l1)) (\<lambda>_.
       case rest of [] \<Rightarrow> Inl (Undefined ''lstrip_ws(NULL)'')
       | l2 # rest' \<Rightarrow>
           res_bind (scan_one (lits ''n: '' @ [Conv 16]) (lstrip_ws l2)) (\<lambda>_.
             case rest' of [] \<Rightarrow> Inl (Undefined ''lstrip_ws(NULL)'')
             | l3 # _ \<Rightarrow>
                 res_bind (scan_one (lits ''prot: '' @ [Conv 16]) (lstrip_ws l3)) (\<lambda>_.
                   Inl (Undefined ''lstrip_ws(NULL)''))))"

fun load_mappings :: "(nat \<Rightarrow> u8 list) \<Rightarrow> string list \<Rightarrow> mapping list \<Rightarrow> (mapping list \<times> string list) res" where
  "load_mappings malloced (l1 # l2 # l3 # l4 # ls) ms =
     (if \<not> starts_with ''-'' (lstrip_ws l1) then Inr (ms, l1 # l2 # l3 # l4 # ls)
      else res_bind (scan_one (lits ''- start: '' @ [Conv 16]) (lstrip_ws l1)) (\<lambda>start.
           res_bind (scan_one (lits ''n: '' @ [Conv 16]) (lstrip_ws l2)) (\<lambda>n.
           res_bind (scan_one (lits ''prot: '' @ [Conv 16]) (lstrip_ws l3)) (\<lambda>prot.
           res_bind (mapping_val malloced (unat (word_of_int n :: u64)) (lstrip_ws l4)) (\<lambda>val.
             load_mappings malloced ls
               (ms @ [\<lparr>map_start = word_of_int start, map_n = unat (word_of_int n :: u64),
                       map_prot = word_of_int prot, map_val = val, map_rw = []\<rparr>]))))))"
| "load_mappings malloced [] ms = Inr (ms, [])"
| "load_mappings malloced (l1 # ls) ms =
     (if \<not> starts_with ''-'' (lstrip_ws l1) then Inr (ms, l1 # ls) else incomplete_mapping l1 ls)"

section \<open>Flags\<close>

definition expected_mask :: "build \<Rightarrow> u32" where
  "expected_mask b =
     (if flag_VECTOR b then 1 else 0) OR (if flag_FLOATS b then 2 else 0) OR (if flag_CHECK_MEM b then 4 else 0) OR
     (if flag_AUTO_MAP_MEM b then 8 else 0) OR (if flag_AUTO_MAP_MEM_RW_PROT b then 16 else 0) OR
     (if flag_META b then 32 else 0)"

definition flag_bit :: "string \<Rightarrow> u32 res" where
  "flag_bit name =
     (if name = ''VECTOR'' then Inr 1 else if name = ''FLOATS'' then Inr 2
      else if name = ''CHECK_MEM'' then Inr 4 else if name = ''AUTO_MAP_MEM'' then Inr 8
      else if name = ''AUTO_MAP_MEM_RW_PROT'' then Inr 16 else if name = ''META'' then Inr 32
      else if name = ''VERBOSE'' then Inr 0
      else Inl (Exit EXIT_FAILURE ''Unknown flag in YAML''))"

definition flag_name :: "string \<Rightarrow> string res" where
  "flag_name t =
     (case snd (scan (lits ''- -D'') t) of
        None \<Rightarrow> Inl (Exit EXIT_FAILURE ''res == 1'')
      | Some rest \<Rightarrow>
          let name = take 63 (takeWhile (\<lambda>c. \<not> isspace c) (dropWhile isspace rest))
          in if name = [] then Inl (Exit EXIT_FAILURE ''res == 1'')
             else Inr (if last name = CHR '','' \<or> last name = CHR 0x0D then butlast name else name))"

fun load_flags :: "string list \<Rightarrow> u32 \<Rightarrow> (u32 \<times> string list) res" where
  "load_flags [] fl = Inr (fl, [])"
| "load_flags (line # ls) fl =
     (let t = lstrip_ws line
      in if \<not> starts_with ''-'' t then Inr (fl, line # ls)
         else res_bind (flag_name t) (\<lambda>name.
              res_bind (flag_bit name) (\<lambda>v. load_flags ls (fl OR v))))"

text \<open>
  The whole branch for a line \<^verbatim>\<open>flags:\<close>. With \<^verbatim>\<open>[]\<close> in it the line is not consumed.
\<close>

definition check_flags :: "build \<Rightarrow> string \<Rightarrow> string list \<Rightarrow> string list res" where
  "check_flags b line ls =
     res_bind (if strstr line ''[]'' = None then load_flags ls 0 else Inr (0, line # ls)) (\<lambda>(parsed_mask, ls').
       if parsed_mask \<noteq> expected_mask b then Inl (Exit EXIT_FAILURE ''Reproducer flags mismatch with current build.'')
       else Inr ls')"

section \<open>The file\<close>

record repro =
  rp_regs :: regs
  rp_instr_seq :: "u32 list"
  rp_mappings :: "mapping list"

definition skipped :: "string \<Rightarrow> bool" where
  "skipped s \<longleftrightarrow> s = [] \<or> starts_with ''#'' s \<or> starts_with ''input:'' s \<or> starts_with ''results:'' s"

text \<open>One iteration of the outer loop.\<close>

definition load_step ::
  "build \<Rightarrow> (nat \<Rightarrow> u8 list) \<Rightarrow> string \<Rightarrow> string list \<Rightarrow> repro \<Rightarrow> (repro \<times> string list) res" where
  "load_step b malloced line ls rp =
     (let s = lstrip_ws line
      in if skipped s then Inr (rp, ls)
         else if starts_with ''instr_seq:'' s then
           res_bind (load_instrs b ls (rp_instr_seq rp)) (\<lambda>(is, ls'). Inr (rp\<lparr>rp_instr_seq := is\<rparr>, ls'))
         else if starts_with ''regs:'' s then
           res_bind (load_regs b ls (rp_regs rp)) (\<lambda>(r, ls'). Inr (rp\<lparr>rp_regs := r\<rparr>, ls'))
         else if starts_with ''mappings:'' s then
           res_bind (load_mappings malloced ls (rp_mappings rp)) (\<lambda>(ms, ls'). Inr (rp\<lparr>rp_mappings := ms\<rparr>, ls'))
         else if line = s \<and> starts_with ''flags:'' s then
           res_bind (check_flags b line ls) (\<lambda>ls'. Inr (rp, ls'))
         else Inr (rp, ls))"

primrec load_lines :: "nat \<Rightarrow> build \<Rightarrow> (nat \<Rightarrow> u8 list) \<Rightarrow> string list \<Rightarrow> repro \<Rightarrow> repro res option" where
  "load_lines 0 b malloced lines rp = None"
| "load_lines (Suc k) b malloced lines rp =
     (case lines of
        [] \<Rightarrow> Some (Inr rp)
      | line # ls \<Rightarrow>
          (case load_step b malloced line ls rp of
             Inl e \<Rightarrow> Some (Inl e)
           | Inr (rp', ls') \<Rightarrow> load_lines k b malloced ls' rp'))"

text \<open>The second pass: every MIDR of the file, once.\<close>

definition line_midr :: "string \<Rightarrow> u32 option" where
  "line_midr line =
     (let t = lstrip_ws line
      in if starts_with ''#'' t then None
         else case strstr t ''midr:'' of
                None \<Rightarrow> None
              | Some pos \<Rightarrow>
                  let v = strtoul (dropWhile (\<lambda>c. c = CHR '' '' \<or> c = tab) (drop 5 pos))
                  in if v = 0 then None else Some (ucast v))"

fun collect_midrs :: "string list \<Rightarrow> u32 list \<Rightarrow> u32 list" where
  "collect_midrs [] midrs = midrs"
| "collect_midrs (line # ls) midrs =
     (case line_midr line of
        None \<Rightarrow> collect_midrs ls midrs
      | Some v \<Rightarrow> collect_midrs ls (if v \<in> set midrs then midrs else midrs @ [v]))"

definition load_repro :: "nat \<Rightarrow> build \<Rightarrow> (nat \<Rightarrow> u8 list) \<Rightarrow> string \<Rightarrow> regs \<Rightarrow> (repro \<times> u32 list) res option" where
  "load_repro fuel b malloced content regs_before =
     (case load_lines fuel b malloced (tokens newline content)
             \<lparr>rp_regs = regs_before, rp_instr_seq = [], rp_mappings = []\<rparr> of
        None \<Rightarrow> None
      | Some (Inl e) \<Rightarrow> Some (Inl e)
      | Some (Inr rp) \<Rightarrow> Some (Inr (rp, collect_midrs (tokens newline content) [])))"

section \<open>Reading back the instructions\<close>

lemma lstrip_chars [simp]:
  "lstrip_ws (CHR '' '' # s) = lstrip_ws s" "lstrip_ws (CHR ''-'' # s) = CHR ''-'' # s"
  by (simp_all add: lstrip_ws_def isspace_def)

lemma unat_u64_bound: "unat (w :: u64) < 2 ^ 64"
  by (rule unat_bounds(4))

definition stops :: "string list \<Rightarrow> bool" where
  "stops ls \<longleftrightarrow> (case ls of [] \<Rightarrow> True | l # _ \<Rightarrow> \<not> starts_with ''-'' (lstrip_ws l))"

lemma load_instrs_printed:
  "length acc + length is \<le> MAX_SEQ_LEN b \<Longrightarrow> stops rest \<Longrightarrow>
     load_instrs b (map (\<lambda>i. ''  - 0x'' @ fmt_0x 8 (unat i)) is @ rest) acc = Inr (acc @ is, rest)"
proof (induction "is" arbitrary: acc)
  case Nil
  then show ?case by (cases rest) (simp_all add: stops_def Let_def)
next
  case (Cons i "is")
  have "scan_int 16 (CHR ''0'' # CHR ''x'' # fmt_0x 8 (unat i) @ []) = Some (int (unat i), [])"
    by (intro scan_hex unat_u32_bound scan_simps) simp
  then have "sscanf (lits ''- '' @ [Conv 16]) (''- 0x'' @ fmt_0x 8 (unat i)) = [int (unat i)]"
    by (simp add: sscanf_def lits_def isspace_def)
  with Cons show ?case by (simp add: Let_def starts_with_def)
qed

section \<open>Reading back the registers\<close>

lemma takeWhile_until: "c \<notin> set q \<Longrightarrow> takeWhile (\<lambda>x. x \<noteq> c) (q @ c # s) = q"
  by (induction q) auto

lemma dropWhile_until: "c \<notin> set q \<Longrightarrow> dropWhile (\<lambda>x. x \<noteq> c) (q @ c # s) = c # s"
  by (induction q) auto

lemma starts_with_append: "starts_with p s \<longleftrightarrow> (\<exists>r. s = p @ r)"
  by (metis append_eq_conv_conj append_take_drop_id starts_with_def)

lemma starts_with_colon:
  assumes "c \<notin> set q" and "c \<notin> set n"
  shows "starts_with (q @ [c]) (n @ c # r) \<longleftrightarrow> q = n"
proof
  assume "starts_with (q @ [c]) (n @ c # r)"
  then obtain s where "n @ c # r = q @ c # s" by (auto simp: starts_with_append)
  then show "q = n" using takeWhile_until assms by metis
qed (simp add: starts_with_def)

text \<open>The names of general purpose, floating-point and vector registers.\<close>

definition plain_name :: "string \<Rightarrow> bool" where
  "plain_name n \<longleftrightarrow> n \<noteq> [] \<and> CHR '':'' \<notin> set n \<and> list_all (\<lambda>c. \<not> isspace c) n"

definition gp_name :: "string \<Rightarrow> bool" where
  "gp_name n \<longleftrightarrow> plain_name n \<and> n \<noteq> ''vec'' \<and> n \<noteq> ''fp'' \<and> n \<noteq> ''instr_seq'' \<and> n \<noteq> ''mappings'' \<and>
     \<not> starts_with ''dis_'' n \<and> length n < 4"

lemma scan_named_value:
  assumes "plain_name n" and "no_digit 16 s"
  shows "sscanf named_value (n @ '': 0x'' @ fmt_x (unat (v :: u64)) @ s) = [int (unat v)]"
proof -
  have "scan_int 16 (CHR ''0'' # CHR ''x'' # fmt_x (unat v) @ s) = Some (int (unat v), s)"
    using assms(2) by (intro scan_hex unat_u64_bound) simp
  then show ?thesis
    using assms(1) by (cases n) (auto simp: sscanf_def named_value_def plain_name_def dropWhile_until)
qed

lemma lstrip_named:
  assumes "plain_name n"
  shows "lstrip_ws (''      '' @ n @ r) = n @ r" and "n @ r \<noteq> []"
  using assms by (cases n; simp add: plain_name_def lstrip_ws_def)+

lemma not_ends_gp:
  assumes "gp_name n"
  shows "\<not> ends_gp (n @ CHR '':'' # r)"
proof -
  have c: "CHR '':'' \<notin> set n" using assms by (simp add: gp_name_def plain_name_def)
  have "starts_with ''dis_'' (n @ CHR '':'' # r) = False"
    using assms by (cases n; cases "tl n"; cases "tl (tl n)"; cases "tl (tl (tl n))")
      (auto simp: starts_with_def gp_name_def)
  moreover have "starts_with ''vec:'' (n @ CHR '':'' # r) = False" "starts_with ''fp:'' (n @ CHR '':'' # r) = False"
    "starts_with ''instr_seq:'' (n @ CHR '':'' # r) = False" "starts_with ''mappings:'' (n @ CHR '':'' # r) = False"
    using starts_with_colon [of "CHR '':''" "''vec''" n r] starts_with_colon [of "CHR '':''" "''fp''" n r]
      starts_with_colon [of "CHR '':''" "''instr_seq''" n r] starts_with_colon [of "CHR '':''" "''mappings''" n r]
      c assms by (auto simp: gp_name_def)
  ultimately show ?thesis by (simp add: ends_gp_def)
qed

abbreviation value_line :: "string \<Rightarrow> u64 \<Rightarrow> string" where
  "value_line n v \<equiv> ''      '' @ n @ '': 0x'' @ fmt_x (unat v)"

abbreviation vector_line :: "string \<Rightarrow> u8 list \<Rightarrow> string" where
  "vector_line n v \<equiv> ''      '' @ n @ '': '' @ fprint_vec v"

lemma load_gp_printed:
  "list_all gp_name names \<Longrightarrow> length vs = length names \<Longrightarrow> i + length names = length g \<Longrightarrow>
     load_gp (map2 value_line names vs @ rest) i g = load_gp rest (i + length names) (take i g @ vs)"
proof (induction names arbitrary: vs i g)
  case (Cons n names)
  then obtain v vs' where vs: "vs = v # vs'" by (cases vs) simp_all
  have n: "gp_name n" "plain_name n" using Cons.prems(1) by (simp_all add: gp_name_def)
  have "load_gp (map2 value_line names vs' @ rest) (Suc i) (g[i := v]) =
      load_gp rest (Suc i + length names) (take (Suc i) (g[i := v]) @ vs')"
    using Cons.prems vs by (intro Cons.IH) simp_all
  moreover have "take (Suc i) (g[i := v]) = take i g @ [v]"
    using Cons.prems(3) by (simp add: take_Suc_conv_app_nth)
  ultimately show ?case
    using lstrip_named [OF n(2)] not_ends_gp [OF n(1)] scan_named_value [OF n(2) no_digit_Nil, of v] Cons.prems(3)
    by (simp add: vs Let_def)
qed simp

lemma load_fp_printed:
  "list_all (\<lambda>n. plain_name n \<and> (hd n = CHR ''f'' \<or> hd n = CHR ''d'')) names \<Longrightarrow> length vs = length names \<Longrightarrow>
     i + length names = length g \<Longrightarrow>
     load_fp (map2 value_line names vs @ rest) i g = load_fp rest (i + length names) (take i g @ vs)"
proof (induction names arbitrary: vs i g)
  case (Cons n names)
  then obtain v vs' where vs: "vs = v # vs'" by (cases vs) simp_all
  have n: "plain_name n" "hd n = CHR ''f'' \<or> hd n = CHR ''d''" "n \<noteq> []"
    using Cons.prems(1) by (simp_all add: plain_name_def)
  have "load_fp (map2 value_line names vs' @ rest) (Suc i) (g[i := v]) =
      load_fp rest (Suc i + length names) (take (Suc i) (g[i := v]) @ vs')"
    using Cons.prems vs by (intro Cons.IH) simp_all
  moreover have "take (Suc i) (g[i := v]) = take i g @ [v]"
    using Cons.prems(3) by (simp add: take_Suc_conv_app_nth)
  ultimately show ?case
    using lstrip_named [OF n(1)] n scan_named_value [OF n(1) no_digit_Nil, of v] Cons.prems(3)
    by (auto simp: vs Let_def)
qed simp

lemma takeWhile_isxdigit_fmt: "takeWhile isxdigit (concat (map fmt_02x bs)) = concat (map fmt_02x bs)"
  by (intro takeWhile_eq_all_conv [THEN iffD2]) (auto simp: fmt_02x_def)

lemma length_fmt_02x: "length (concat (map fmt_02x bs)) = 2 * length bs"
  by (induction bs) (simp_all add: fmt_02x_def)

lemma strstr_0x: "CHR ''x'' \<notin> set q \<Longrightarrow> strstr (q @ ''0x'' @ r) ''0x'' = Some (''0x'' @ r)"
proof (induction q)
  case (Cons c q)
  then show ?case by (cases q) (auto simp: starts_with_def)
qed (simp add: starts_with_def)

lemma vec_value_printed:
  assumes "CHR ''x'' \<notin> set n" and "length v = VEC_REG_SIZE"
  shows "vec_value (n @ '': '' @ fprint_vec v) = v"
proof -
  define hex where "hex = concat (map fmt_02x (rev v))"
  have "strstr (n @ '': '' @ fprint_vec v) ''0x'' = Some (''0x'' @ hex)"
    using strstr_0x [of "n @ '': ''" hex] assms(1) by (simp add: fprint_vec_def hex_def)
  moreover have len: "length hex = 2 * VEC_REG_SIZE" using length_fmt_02x [of "rev v"] assms(2) by (simp add: hex_def)
  moreover have "parse_hex_le_bytes hex VEC_REG_SIZE = v"
    using parse_hex_rev_fmt [of v] assms(2) by (simp add: parse_hex_le_bytes_def hex_def rev_concat rev_map o_def)
  moreover have "takeWhile isxdigit hex = hex" unfolding hex_def by (rule takeWhile_isxdigit_fmt)
  moreover have "hex \<noteq> []" using len by auto
  ultimately show ?thesis by (simp add: vec_value_def Let_def del: takeWhile_eq_all_conv)
qed

lemma load_vec_printed:
  "list_all (\<lambda>n. plain_name n \<and> hd n = CHR ''v'' \<and> CHR ''x'' \<notin> set n) names \<Longrightarrow> length vs = length names \<Longrightarrow>
     list_all (\<lambda>v. length v = VEC_REG_SIZE) vs \<Longrightarrow> i + length names = length g \<Longrightarrow>
     load_vec (map2 vector_line names vs @ rest) i g = load_vec rest (i + length names) (take i g @ vs)"
proof (induction names arbitrary: vs i g)
  case (Cons n names)
  then obtain v vs' where vs: "vs = v # vs'" by (cases vs) simp_all
  have n: "plain_name n" "hd n = CHR ''v''" "CHR ''x'' \<notin> set n" "n \<noteq> []" "length v = VEC_REG_SIZE"
    using Cons.prems(1,3) by (simp_all add: plain_name_def vs)
  have "load_vec (map2 vector_line names vs' @ rest) (Suc i) (g[i := v]) =
      load_vec rest (Suc i + length names) (take (Suc i) (g[i := v]) @ vs')"
    using Cons.prems vs by (intro Cons.IH) simp_all
  moreover have "take (Suc i) (g[i := v]) = take i g @ [v]"
    using Cons.prems(4) by (simp add: take_Suc_conv_app_nth)
  ultimately show ?case
    using lstrip_named [OF n(1)] n(2,4) vec_value_printed [OF n(3,5)] Cons.prems(4)
    by (simp add: vs Let_def)
qed simp

text \<open>The names the three loops print.\<close>

definition gp_names :: "build \<Rightarrow> string list" where
  "gp_names b = take (gp_count b) (regs_mapping b)"

definition fp_names :: "build \<Rightarrow> string list" where
  "fp_names b = (case arch b of RISCV64 \<Rightarrow> riscv_REGS_FP | AARCH64 \<Rightarrow> aarch64_REGS_FP)"

lemma length_names [simp]: "length (gp_names b) = gp_count b" "length (fp_names b) = 32"
  by (cases "arch b"; simp add: gp_names_def fp_names_def length_regs_mapping)+

lemma names_ok:
  "list_all gp_name (gp_names b)"
  "list_all (\<lambda>n. plain_name n \<and> (hd n = CHR ''f'' \<or> hd n = CHR ''d'')) (fp_names b)"
  "list_all (\<lambda>n. plain_name n \<and> hd n = CHR ''v'' \<and> CHR ''x'' \<notin> set n) REGS_VECTOR"
  by (cases "arch b"; simp add: gp_names_def fp_names_def regs_mapping_def reg_name_defs gp_name_def
      plain_name_def isspace_def starts_with_def)+

lemma map_nth2: "length xs = n \<Longrightarrow> length ys = n \<Longrightarrow> map (\<lambda>i. f (xs ! i) (ys ! i)) [0..<n] = map2 f xs ys"
  by (intro nth_equalityI) simp_all

lemma abi_names:
  assumes "valid_build b"
  shows "i < gp_count b \<Longrightarrow> get_abi_name b i = Inr (gp_names b ! i)"
    "flag_FLOATS b \<Longrightarrow> i < 32 \<Longrightarrow> get_abi_name_float b (i + getabiindex b ''fp'') = Inr (fp_names b ! i)"
    "flag_VECTOR b \<Longrightarrow> i < 32 \<Longrightarrow> get_abi_name b (i + getabiindex b ''vec'') = Inr (REGS_VECTOR ! i)"
proof -
  show "get_abi_name b i = Inr (gp_names b ! i)" if "i < gp_count b"
  proof -
    have "i < length (regs_mapping b)" using that by (cases "arch b") (simp_all add: length_regs_mapping)
    with get_abi_name_mapping [OF assms] that show ?thesis by (simp add: gp_names_def)
  qed
  have rv: "length ([''ra''] @ [''sp''] @ [''gp'', ''tp'', ''t0'', ''t1'', ''t2''] @ [''s0''] @ riscv_REGS_AFTER_S0 @ [''fcsr'']) = 32"
    by simp
  have rva: "riscv_abi_names = ([''ra''] @ [''sp''] @ [''gp'', ''tp'', ''t0'', ''t1'', ''t2''] @ [''s0''] @
      riscv_REGS_AFTER_S0 @ [''fcsr'']) @ riscv_REGS_FP @ REGS_VECTOR"
    by (simp add: riscv_abi_names_def)
  show "get_abi_name_float b (i + getabiindex b ''fp'') = Inr (fp_names b ! i)" if "flag_FLOATS b" "i < 32"
  proof (cases "arch b")
    case RISCV64
    have "riscv_abi_names ! (i + 32) = riscv_REGS_FP ! i"
      unfolding rva using that(2) rv by (simp only: nth_append) simp
    with RISCV64 that show ?thesis
      by (simp add: get_abi_name_float_def get_abi_name_def fp_names_def riscv_abi_names_def)
  next
    case AARCH64
    with that show ?thesis by (simp add: get_abi_name_float_def fp_names_def nth_append)
  qed
  show "get_abi_name b (i + getabiindex b ''vec'') = Inr (REGS_VECTOR ! i)" if "flag_VECTOR b" "i < 32"
  proof (cases "arch b")
    case RISCV64
    then have fl: "flag_FLOATS b" using assms that(1) by (simp add: valid_build_def)
    have "riscv_abi_names ! (i + 64) = REGS_VECTOR ! i"
      unfolding rva using that(2) rv by (simp only: nth_append) simp
    with RISCV64 that fl show ?thesis by (simp add: get_abi_name_def riscv_abi_names_def)
  next
    case AARCH64
    with that assms show ?thesis
      by (simp add: get_abi_name_def aarch64_abi_names_def valid_build_def nth_append)
  qed
qed

text \<open>What \<open>log_regs\<close> prints.\<close>

definition printed_regs :: "build \<Rightarrow> regs \<Rightarrow> string list" where
  "printed_regs b r =
     ''    gp:'' # map2 value_line (gp_names b) (gp r)
     @ (if flag_FLOATS b then ''    fp:'' # map2 value_line (fp_names b) (fp r) else [])
     @ (if flag_VECTOR b then ''    vec:'' # map2 vector_line REGS_VECTOR (vec r) else [])"

lemma log_regs_printed:
  assumes "valid_build b" and "wf_regs b r"
  shows "log_regs b r = Inr (''  regs:'' # printed_regs b r)"
proof -
  have u: "fp_u b r i = fp r ! i" if "flag_FLOATS b" for i
    using that assms(1) by (auto simp: fp_u_def valid_build_def)
  have "map_res (\<lambda>(i, v). reg_line ''      '' (get_abi_name b i) v) (loop_over_gp b r) =
      Inr (map (\<lambda>i. value_line (gp_names b ! i) (gp r ! i)) [0..<gp_count b])"
    using abi_names(1) [OF assms(1)]
    by (subst map_res_Inr [where g = "\<lambda>(i, v). value_line (gp_names b ! i) v"])
      (auto simp: loop_over_gp_def reg_line_def)
  moreover have "map_res (\<lambda>(i, v). reg_line ''      '' (get_abi_name_float b i) v) (loop_over_fp b r) =
      Inr (map (\<lambda>i. value_line (fp_names b ! i) (fp r ! i)) [0..<32])" if "flag_FLOATS b"
    using abi_names(2) [OF assms(1) that] u [OF that]
    by (subst map_res_Inr [where g = "\<lambda>(i, v). value_line (fp_names b ! (i - getabiindex b ''fp'')) v"])
      (auto simp: loop_over_fp_def reg_line_def)
  moreover have "map_res (\<lambda>(i, v). vec_line ''      '' (get_abi_name b i) v) (loop_over_vector_regs b r) =
      Inr (map (\<lambda>i. vector_line (REGS_VECTOR ! i) (vec r ! i)) [0..<32])" if "flag_VECTOR b"
    using abi_names(3) [OF assms(1) that]
    by (subst map_res_Inr [where g = "\<lambda>(i, v). vector_line (REGS_VECTOR ! (i - getabiindex b ''vec'')) v"])
      (auto simp: loop_over_vector_regs_def vec_line_def)
  ultimately show ?thesis
    using assms(2) map_nth2 [of "gp_names b" "gp_count b" "gp r" value_line]
      map_nth2 [of "fp_names b" 32 "fp r" value_line] map_nth2 [of REGS_VECTOR 32 "vec r" vector_line]
    by (simp add: log_regs_def printed_regs_def wf_regs_def)
qed

text \<open>The section is followed by a line of the mappings.\<close>

lemma lstrip_heads:
  "lstrip_ws ''    gp:'' = ''gp:''" "lstrip_ws ''    fp:'' = ''fp:''" "lstrip_ws ''    vec:'' = ''vec:''"
  "lstrip_ws (''mappings:'' @ s) = ''mappings:'' @ s"
  by (simp_all add: lstrip_ws_def isspace_def)

lemma load_regs_printed:
  assumes "wf_regs b r" and "wf_regs b old" and "l = ''mappings:'' @ tail"
  shows "load_regs b (printed_regs b r @ l # rest) old =
           Inr (old\<lparr>gp := gp r, fp := (if flag_FLOATS b then fp r else fp old),
                    vec := (if flag_VECTOR b then vec r else vec old)\<rparr>, l # rest)"
proof -
  have len: "length (gp r) = gp_count b" "length (gp old) = gp_count b"
    "flag_FLOATS b \<Longrightarrow> length (fp r) = 32 \<and> length (fp old) = 32"
    "flag_VECTOR b \<Longrightarrow> length (vec r) = 32 \<and> length (vec old) = 32 \<and> list_all (\<lambda>v. length v = VEC_REG_SIZE) (vec r)"
    using assms by (auto simp: wf_regs_def list_all_iff)
  let ?m = "l # rest"
  let ?v = "(if flag_VECTOR b then ''    vec:'' # map2 vector_line REGS_VECTOR (vec r) else []) @ ?m"
  let ?f = "(if flag_FLOATS b then ''    fp:'' # map2 value_line (fp_names b) (fp r) else []) @ ?v"
  note heads = lstrip_heads assms(3)
  have m: "load_regs b ?m x = Inr (x, ?m)" for x
    using heads by (simp add: Let_def starts_with_def)
  have stop_vec: "load_vec ?m i x = Inr (x, ?m)" for i x
    using heads by (simp add: Let_def)
  have v: "load_regs b ?v x = Inr (x\<lparr>vec := (if flag_VECTOR b then vec r else vec x)\<rparr>, ?m)"
    if "length (vec x) = length (vec old)" for x
  proof (cases "flag_VECTOR b")
    case True
    have "load_vec (map2 vector_line REGS_VECTOR (vec r) @ ?m) 0 (vec x) = Inr (vec r, ?m)"
      using load_vec_printed [OF names_ok(3), of "vec r" 0 "vec x" ?m] len(4) True that stop_vec by simp
    with True m heads show ?thesis by (simp add: Let_def starts_with_def)
  qed (use m in simp)
  have stop_fp: "load_fp ?v i x = Inr (x, ?v)" for i x
    using heads by (simp add: Let_def)
  have f: "load_regs b ?f x = Inr (x\<lparr>fp := (if flag_FLOATS b then fp r else fp x),
      vec := (if flag_VECTOR b then vec r else vec x)\<rparr>, ?m)"
    if "length (fp x) = length (fp old)" "length (vec x) = length (vec old)" for x
  proof (cases "flag_FLOATS b")
    case True
    have "load_fp (map2 value_line (fp_names b) (fp r) @ ?v) 0 (fp x) = Inr (fp r, ?v)"
      using load_fp_printed [OF names_ok(2), of "fp r" b 0 "fp x" ?v] len(3) True that stop_fp by simp
    with True v [of "x\<lparr>fp := fp r\<rparr>"] that heads show ?thesis by (simp add: Let_def starts_with_def)
  qed (use v that in simp)
  have stop_gp: "load_gp ?f i x = Inr (x, ?f)" for i x
    using heads by (simp add: Let_def ends_gp_def starts_with_def)
  have "load_gp (map2 value_line (gp_names b) (gp r) @ ?f) 0 (gp old) = Inr (gp r, ?f)"
    using load_gp_printed [OF names_ok(1), of "gp r" b 0 "gp old" ?f] len stop_gp by simp
  with f [of "old\<lparr>gp := gp r\<rparr>"] heads show ?thesis
    by (simp add: printed_regs_def Let_def starts_with_def)
qed

section \<open>Reading back the mappings\<close>

lemma fmt_0x_Suc:
  assumes "0 < k"
  shows "fmt_0x (Suc k) n = fmt_0x k (n div 16) @ [hex_digit (n mod 16)]"
proof (cases "n < 16")
  case True
  have "fmt_x 0 = ''0''" by (simp add: fmt_x.simps hex_digit_def hex_digits_def)
  moreover have "replicate k (CHR ''0'') = replicate (k - 1) (CHR ''0'') @ ''0''"
    using assms by (cases k) (simp_all add: replicate_append_same)
  ultimately show ?thesis using True by (simp add: fmt_0x_def fmt_x.simps [of n])
next
  case False
  then have "fmt_x n = fmt_x (n div 16) @ [hex_digit (n mod 16)]" by (simp add: fmt_x.simps [of n])
  then show ?thesis by (simp add: fmt_0x_def)
qed

lemma nibbles:
  fixes x y :: nat
  assumes "x < 256"
  shows "(x + 256 * y) div 16 div 16 = y" "(x + 256 * y) div 16 mod 16 = x div 16" "(x + 256 * y) mod 16 = x mod 16"
proof -
  have d: "(x + 256 * y) div 16 = x div 16 + 16 * y"
    using div_mult_self2 [of 16 x "16 * y"] by simp
  have "x div 16 < 16" using assms by simp
  with d show "(x + 256 * y) div 16 div 16 = y" "(x + 256 * y) div 16 mod 16 = x div 16" by simp_all
  show "(x + 256 * y) mod 16 = x mod 16" using mod_mult_self2 [of x 16 "16 * y"] by simp
qed

lemma fmt_0x_bytes: "bs \<noteq> [] \<Longrightarrow> fmt_0x (2 * length bs) (le_load bs) = concat (map fmt_02x (rev bs))"
proof (induction bs)
  case (Cons b bs)
  have b: "unat b < 256" using unat_bounds(1) [of b] by simp
  show ?case
  proof (cases "bs = []")
    case True
    have "fmt_0x (Suc (Suc 0)) (unat b) = fmt_0x 1 (unat b div 16) @ [hex_digit (unat b mod 16)]"
      by (subst fmt_0x_Suc) simp_all
    moreover have "fmt_0x 1 (unat b div 16) = [hex_digit (unat b div 16)]"
      using b by (simp add: fmt_0x_def fmt_x.simps [of "unat b div 16"])
    ultimately show ?thesis using True by (simp add: fmt_02x_def numeral_2_eq_2)
  next
    case False
    then have "fmt_0x (Suc (Suc (2 * length bs))) (unat b + 256 * le_load bs) =
        fmt_0x (2 * length bs) ((unat b + 256 * le_load bs) div 16 div 16) @
        [hex_digit ((unat b + 256 * le_load bs) div 16 mod 16), hex_digit ((unat b + 256 * le_load bs) mod 16)]"
      by (subst fmt_0x_Suc, simp, subst fmt_0x_Suc, simp, simp)
    moreover have "(unat b + 256 * le_load bs) div 16 div 16 = le_load bs"
      "(unat b + 256 * le_load bs) div 16 mod 16 = unat b div 16" "(unat b + 256 * le_load bs) mod 16 = unat b mod 16"
      using nibbles [OF b] by simp_all
    ultimately show ?thesis using False Cons.IH by (simp add: fmt_02x_def)
  qed
qed simp

lemma hex_byte_digits: "hex_byte (hex_digit (unat x div 16)) (hex_digit (unat x mod 16)) = x"
proof -
  have "16 * (unat x div 16) + unat x mod 16 = unat x" by simp
  then show ?thesis by (simp add: hex_byte_def)
qed

lemma decode_word_printed:
  assumes "length bs = 8"
  shows "decode_word (fmt_0x 16 (le_load bs)) = bs"
proof -
  obtain a b c d e f g h where bs: "bs = [a, b, c, d, e, f, g, h]"
    using assms by (auto simp: numeral_eq_Suc length_Suc_conv)
  have "fmt_0x 16 (le_load bs) = concat (map fmt_02x (rev bs))"
    using fmt_0x_bytes [of bs] assms bs by simp
  moreover have "rev [0..<8] = [7, 6, 5, 4, 3, 2, 1, 0]" by (simp add: upt_rec)
  ultimately show ?thesis by (simp add: bs decode_word_def fmt_02x_def hex_byte_digits)
qed

lemma chunk_nth:
  "list_all (\<lambda>w. length w = k) ws \<Longrightarrow> j < length ws \<Longrightarrow> take k (drop (k * j) (concat ws)) = ws ! j"
proof (induction ws arbitrary: j)
  case (Cons w ws)
  then show ?case by (cases j) simp_all
qed simp

lemma concat_chunks:
  "length xs = k * n \<Longrightarrow> concat (map (\<lambda>j. take k (drop (k * j) xs)) [0..<n]) = xs"
proof (induction n arbitrary: xs)
  case (Suc n)
  have "concat (map (\<lambda>j. take k (drop (k * j) (drop k xs))) [0..<n]) = drop k xs"
    using Suc.prems by (intro Suc.IH) simp
  then have "concat (map (\<lambda>j. take k (drop (k * Suc j) xs)) [0..<n]) = drop k xs"
    by (simp add: add.commute)
  moreover have "[0..<Suc n] = 0 # map Suc [0..<n]" by (simp add: upt_conv_Cons map_Suc_upt del: upt_Suc)
  ultimately show ?case by (simp add: comp_def del: upt_Suc mult_Suc_right)
qed simp

definition storable :: "mapping \<Rightarrow> bool" where
  "storable m \<longleftrightarrow> length (map_val m) = map_n m \<and> 8 dvd map_n m \<and> map_n m < 2 ^ 35"

lemma mapping_words_decode:
  assumes "storable m"
  shows "length (mapping_words m) = 2 * map_n m" and "decode_words (mapping_words m) (2 * map_n m) = map_val m"
    and "list_all (\<lambda>c. isxdigit c \<and> c \<noteq> quote \<and> c \<noteq> CHR ''x'' \<and> c \<noteq> CHR ''X'' \<and> c \<noteq> newline) (mapping_words m)"
proof -
  obtain q where q: "map_n m = 8 * q" using assms by (auto simp: storable_def)
  let ?w = "\<lambda>j. take 8 (drop (8 * j) (map_val m))"
  let ?ws = "map (\<lambda>j. fmt_0x 16 (le_load (?w j))) [0..<q]"
  have len: "length (?w j) = 8" if "j < q" for j using that assms q by (simp add: storable_def)
  have hex: "fmt_0x 16 (le_load (?w j)) = concat (map fmt_02x (rev (?w j)))" if "j < q" for j
    using fmt_0x_bytes [of "?w j"] len [OF that] by (cases "?w j") auto
  have words: "mapping_words m = concat ?ws" using q by (simp add: mapping_words_def)
  have l16: "length (fmt_0x 16 (le_load (?w j))) = 16" if "j < q" for j
    unfolding hex [OF that] length_fmt_02x using len [OF that] by simp
  then have all16: "list_all (\<lambda>w. length w = 16) ?ws" by (simp add: list_all_iff)
  have "sum_list (map length ?ws) = sum_list (map (\<lambda>_. 16) [0..<q])"
    using l16 by (intro arg_cong [of _ _ sum_list]) simp
  then show "length (mapping_words m) = 2 * map_n m" using q by (simp add: words length_concat sum_list_triv)
  have "decode_word (take 16 (drop (16 * j) (mapping_words m))) = ?w j" if "j < q" for j
    using chunk_nth [OF all16, of j] that decode_word_printed [OF len [OF that]] by (simp add: words)
  then have "map (\<lambda>j. decode_word (take 16 (drop (16 * j) (mapping_words m)))) [0..<q] = map ?w [0..<q]"
    by simp
  moreover have "2 * map_n m div 16 = q" using q by simp
  ultimately have "decode_words (mapping_words m) (2 * map_n m) = concat (map ?w [0..<q])"
    by (simp only: decode_words_def)
  then show "decode_words (mapping_words m) (2 * map_n m) = map_val m"
    using concat_chunks [of "map_val m" 8 q] assms q by (simp add: storable_def)
  have "\<forall>c \<in> set (fmt_02x x). isxdigit c \<and> c \<noteq> quote \<and> c \<noteq> CHR ''x'' \<and> c \<noteq> CHR ''X'' \<and> c \<noteq> newline" for x
    by (simp add: fmt_02x_def)
  then show "list_all (\<lambda>c. isxdigit c \<and> c \<noteq> quote \<and> c \<noteq> CHR ''x'' \<and> c \<noteq> CHR ''X'' \<and> c \<noteq> newline) (mapping_words m)"
    unfolding words using hex by (auto simp: list_all_iff)
qed

lemma mapping_hex_printed:
  assumes "storable m"
  shows "mapping_hex (CHR '' '' # quote # mapping_words m @ [quote]) = mapping_words m"
proof -
  note chars = mapping_words_decode(3) [OF assms]
  have "isspace (CHR '' '')" "\<not> isspace quote" by (simp_all add: isspace_def)
  moreover have "\<not> starts_with ''0x'' (mapping_words m @ [quote])" "\<not> starts_with ''0X'' (mapping_words m @ [quote])"
    using chars by (cases "mapping_words m"; cases "tl (mapping_words m)"; auto simp: starts_with_def)+
  moreover have "takeWhile (\<lambda>c. c \<noteq> quote \<and> isxdigit c) (mapping_words m @ [quote]) = mapping_words m"
    using chars by (auto simp: takeWhile_append list_all_iff)
  ultimately show ?thesis by (simp add: mapping_hex_def starts_with_def)
qed

lemma mapping_val_printed:
  assumes "storable m"
  shows "mapping_val malloced (map_n m) (''val: '' @ quote # mapping_words m @ [quote]) = Inr (map_val m)"
proof -
  have "map_n m mod 8 = 0" "2 * map_n m mod 2 ^ 64 = 2 * map_n m" using assms by (auto simp: storable_def)
  then show ?thesis
    using mapping_hex_printed [OF assms] mapping_words_decode(1,2) [OF assms]
    by (simp add: mapping_val_def starts_with_def Let_def)
qed

lemma scan_one_hex:
  assumes "n < 2 ^ 64"
  shows "scan_one (lits ''- start: '' @ [Conv 16]) (''- start: 0x'' @ fmt_x n) = Inr (int n)"
    "scan_one (lits ''n: '' @ [Conv 16]) (''n: 0x'' @ fmt_x n) = Inr (int n)"
    "scan_one (lits ''prot: '' @ [Conv 16]) (''prot: 0x'' @ fmt_x n) = Inr (int n)"
proof -
  have "scan_int 16 (CHR ''0'' # CHR ''x'' # fmt_x n @ []) = Some (int n, [])"
    using assms by (intro scan_hex scan_simps) simp_all
  then show "scan_one (lits ''- start: '' @ [Conv 16]) (''- start: 0x'' @ fmt_x n) = Inr (int n)"
    "scan_one (lits ''n: '' @ [Conv 16]) (''n: 0x'' @ fmt_x n) = Inr (int n)"
    "scan_one (lits ''prot: '' @ [Conv 16]) (''prot: 0x'' @ fmt_x n) = Inr (int n)"
    by (simp_all add: scan_one_def sscanf_def lits_def isspace_def)
qed

lemma load_mappings_stops: "stops rest \<Longrightarrow> load_mappings malloced rest ms = Inr (ms, rest)"
  by (cases "(malloced, rest, ms)" rule: load_mappings.cases) (simp_all add: stops_def)

lemma load_mappings_printed:
  assumes "stops rest"
  shows "list_all storable ms \<Longrightarrow>
     load_mappings malloced (concat (map log_mapping ms) @ rest) acc = Inr (acc @ map (\<lambda>m. m\<lparr>map_rw := []\<rparr>) ms, rest)"
proof (induction ms arbitrary: acc)
  case Nil
  then show ?case using load_mappings_stops [OF assms] by simp
next
  case (Cons m ms)
  then have m: "storable m" by simp
  have n: "map_n m < 2 ^ 64" using m by (simp add: storable_def)
  then have nw: "unat (of_nat (map_n m) :: u64) = map_n m" by (simp add: unat_of_nat)
  have "\<lparr>map_start = map_start m, map_n = map_n m, map_prot = map_prot m, map_val = map_val m, map_rw = []\<rparr> = m\<lparr>map_rw := []\<rparr>"
    by (cases m) simp
  moreover have "lstrip_ws (''n: 0x'' @ r) = ''n: 0x'' @ r" "lstrip_ws (''prot: 0x'' @ r) = ''prot: 0x'' @ r"
    "lstrip_ws (''val: '' @ r) = ''val: '' @ r" for r
    by (simp_all add: lstrip_ws_def isspace_def)
  ultimately show ?case
    using Cons mapping_val_printed [OF m] scan_one_hex(1) [OF unat_u64_bound] scan_one_hex(2) [OF n]
      scan_one_hex(3) [OF unat_u32_bound] nw
    by (simp add: log_mapping_def starts_with_def)
qed

section \<open>Reading back the flags\<close>

lemma flag_lines:
  "lstrip_ws (CHR ''-'' # s) = CHR ''-'' # s" "starts_with ''-'' (CHR ''-'' # s)"
  "flag_name ''- -DVECTOR'' = Inr ''VECTOR''" "flag_name ''- -DFLOATS'' = Inr ''FLOATS''"
  "flag_name ''- -DCHECK_MEM'' = Inr ''CHECK_MEM''" "flag_name ''- -DAUTO_MAP_MEM'' = Inr ''AUTO_MAP_MEM''"
  "flag_name ''- -DAUTO_MAP_MEM_RW_PROT'' = Inr ''AUTO_MAP_MEM_RW_PROT''" "flag_name ''- -DMETA'' = Inr ''META''"
  by (simp_all add: starts_with_def flag_name_def lits_def isspace_def)

definition some_flag :: "build \<Rightarrow> bool" where
  "some_flag b \<longleftrightarrow> flag_VECTOR b \<or> flag_FLOATS b \<or> flag_CHECK_MEM b \<or> flag_AUTO_MAP_MEM b \<or> flag_META b"

lemma load_flags_stops: "stops rest \<Longrightarrow> load_flags rest v = Inr (v, rest)"
  by (cases rest) (simp_all add: stops_def Let_def)

lemma check_flags_printed:
  assumes "some_flag b" and "stops rest"
  shows "\<exists>ls. log_flags b = ''flags:'' # ls \<and> check_flags b ''flags:'' (ls @ rest) = Inr rest"
proof -
  have s: "strstr ''flags:'' ''[]'' = None" by (simp add: starts_with_def)
  show ?thesis
    using assms(1) load_flags_stops [OF assms(2)] s
    by (cases "flag_VECTOR b"; cases "flag_FLOATS b"; cases "flag_CHECK_MEM b"; cases "flag_AUTO_MAP_MEM b";
        cases "flag_AUTO_MAP_MEM_RW_PROT b"; cases "flag_META b")
      (simp_all add: log_flags_def check_flags_def some_flag_def flag_lines flag_bit_def expected_mask_def Let_def)
qed

end
