(* ===== verification/Repro.thy ===== *)
theory Repro
  imports Repro_Load
begin

text \<open>
  A reproducer file is read back as it was written: the composition of \<open>log_repro\<close> and \<open>load_repro\<close> of
  lib/runner.c. The lines that carry no input (the disassembly, the results, the client blocks) are
  passed over by the loader, whatever they report.
\<close>

section \<open>Lines the loader passes over\<close>

definition ignored :: "string \<Rightarrow> bool" where
  "ignored l \<longleftrightarrow>
     (let s = lstrip_ws l
      in \<not> starts_with ''instr_seq:'' s \<and> \<not> starts_with ''regs:'' s \<and> \<not> starts_with ''mappings:'' s \<and>
         \<not> (l = s \<and> starts_with ''flags:'' s))"

definition text_line :: "string \<Rightarrow> bool" where
  "text_line l \<longleftrightarrow> l \<noteq> [] \<and> newline \<notin> set l"

definition bystander :: "string \<Rightarrow> bool" where
  "bystander l \<longleftrightarrow> ignored l \<and> text_line l"

lemma load_lines_ignored:
  "list_all ignored ls \<Longrightarrow> load_lines (length ls + k) b malloced (ls @ rest) rp = load_lines k b malloced rest rp"
proof (induction ls)
  case (Cons l ls)
  then have "load_step b malloced l (ls @ rest) rp = Inr (rp, ls @ rest)"
    by (auto simp: ignored_def load_step_def Let_def)
  with Cons show ?case by simp
qed simp

lemma load_lines_mono: "load_lines k b malloced ls rp = Some r \<Longrightarrow> load_lines (k + j) b malloced ls rp = Some r"
  by (induction k arbitrary: ls rp) (auto split: list.splits sum.splits)

section \<open>The lines of a result\<close>

lemma hex_chars: "newline \<notin> set (concat (map fmt_02x bs))"
  by (auto simp: fmt_02x_def dest: sym [of newline])

lemma printed_chars [simp]:
  "newline \<notin> set (fmt_d n)" "newline \<notin> set (fmt_x n)" "newline \<notin> set (fmt_0x w n)"
  "newline \<notin> set (fprint_hex bs)" "newline \<notin> set (fprint_vec bs)"
  using hex_chars by (simp_all add: number_chars fprint_hex_def fprint_hex_plain_def fprint_vec_def)

lemma lstrip_other:
  "\<not> isspace c \<Longrightarrow> lstrip_ws (c # s) = c # s"
  by (simp add: lstrip_ws_def)

definition quiet_name :: "string \<Rightarrow> bool" where
  "quiet_name n \<longleftrightarrow> plain_name n \<and> n \<noteq> ''instr_seq'' \<and> n \<noteq> ''regs'' \<and> n \<noteq> ''mappings''"

lemma bystander_named:
  assumes "quiet_name n" and "newline \<notin> set r"
  shows "bystander (''      '' @ n @ CHR '':'' # r)"
proof -
  have n: "plain_name n" "CHR '':'' \<notin> set n" using assms(1) by (simp_all add: quiet_name_def plain_name_def)
  have "newline \<notin> set n" using n(1) by (auto simp: plain_name_def list_all_iff isspace_def)
  moreover have "starts_with ''instr_seq:'' (n @ CHR '':'' # r) = False" "starts_with ''regs:'' (n @ CHR '':'' # r) = False"
    "starts_with ''mappings:'' (n @ CHR '':'' # r) = False"
    using starts_with_colon [of "CHR '':''" "''instr_seq''" n r] starts_with_colon [of "CHR '':''" "''regs''" n r]
      starts_with_colon [of "CHR '':''" "''mappings''" n r] n(2) assms(1) by (auto simp: quiet_name_def)
  moreover have "''      '' @ n @ CHR '':'' # r \<noteq> n @ CHR '':'' # r"
    by (metis append_self_conv2 append_same_eq append.assoc list.discI)
  ultimately show ?thesis
    using assms(2) lstrip_named(1) [OF n(1), of "CHR '':'' # r"] by (simp add: bystander_def ignored_def text_line_def)
qed

lemma map_res_all:
  "(\<And>x. x \<in> set xs \<Longrightarrow> \<exists>y. f x = Inr y \<and> P y) \<Longrightarrow> \<exists>ys. map_res f xs = Inr ys \<and> list_all P ys"
proof (induction xs)
  case (Cons x xs)
  obtain y where "f x = Inr y \<and> P y" using Cons.prems [of x] by auto
  moreover obtain ys where "map_res f xs = Inr ys \<and> list_all P ys" using Cons.IH Cons.prems by auto
  ultimately show ?case by simp
qed simp

lemma quiet_names:
  "i < gp_count b \<Longrightarrow> quiet_name (gp_names b ! i)" "i < 32 \<Longrightarrow> quiet_name (fp_names b ! i)"
  "i < 32 \<Longrightarrow> quiet_name (REGS_VECTOR ! i)" "quiet_name ''pstate''" "quiet_name ''fpsr''" "quiet_name ''fcsr''"
proof -
  have "quiet_name n" if "gp_name n" for n
  proof -
    have "length n < 4" using that by (simp only: gp_name_def)
    then have "n \<noteq> ''instr_seq''" "n \<noteq> ''regs''" "n \<noteq> ''mappings''" by fastforce+
    then show ?thesis using that by (simp add: gp_name_def quiet_name_def)
  qed
  then have "list_all quiet_name (gp_names b)"
    using names_ok(1) by (auto simp only: list_all_iff)
  then show "i < gp_count b \<Longrightarrow> quiet_name (gp_names b ! i)" by (simp add: list_all_length)
  have "list_all quiet_name (fp_names b)"
    using names_ok(2) by (rule list.pred_mono_strong) (auto simp: quiet_name_def)
  then show "i < 32 \<Longrightarrow> quiet_name (fp_names b ! i)" by (simp add: list_all_length)
  have "list_all quiet_name REGS_VECTOR"
    using names_ok(3) by (rule list.pred_mono_strong) (auto simp: quiet_name_def)
  then show "i < 32 \<Longrightarrow> quiet_name (REGS_VECTOR ! i)" by (simp add: list_all_length)
qed (simp_all add: quiet_name_def plain_name_def isspace_def)

lemma reg_line_bystander:
  "name = Inr n \<Longrightarrow> quiet_name n \<Longrightarrow> \<exists>y. reg_line ''      '' name v = Inr y \<and> bystander y"
  using bystander_named [of n "'' 0x'' @ fmt_x (unat v)"] by (simp add: reg_line_def)

lemma vec_line_bystander:
  "name = Inr n \<Longrightarrow> quiet_name n \<Longrightarrow> \<exists>y. vec_line ''      '' name v = Inr y \<and> bystander y"
  using bystander_named [of n "CHR '' '' # fprint_vec v"] by (simp add: vec_line_def)

lemma status_names:
  "arch b = AARCH64 \<Longrightarrow> flag_FLOATS b \<or> flag_VECTOR b \<Longrightarrow> get_abi_name b (getabiindex b ''fpsr'') = Inr ''fpsr''"
  "arch b = RISCV64 \<Longrightarrow> flag_FLOATS b \<Longrightarrow> get_abi_name b (getabiindex b ''fcsr'') = Inr ''fcsr''"
  by (auto simp: get_abi_name_def aarch64_abi_names_def riscv_abi_names_def nth_append reg_name_defs)

lemma log_regs_after_bystander:
  assumes "valid_build b"
  shows "\<exists>ls. log_regs_after b [] before after = Inr ls \<and> list_all bystander ls"
proof -
  note names = abi_names [OF assms]
  obtain gps where g: "map_res (\<lambda>(i, _, v). reg_line ''      '' (get_abi_name b i) v) (loop_over_gp_diff b before after) = Inr gps"
      "list_all bystander gps"
    using map_res_all [of "loop_over_gp_diff b before after" "\<lambda>(i, _, v). reg_line ''      '' (get_abi_name b i) v" bystander]
      names(1) quiet_names(1) reg_line_bystander by (force simp: loop_over_gp_diff_def)
  obtain fps where f: "(if flag_FLOATS b
      then map_res (\<lambda>(i, _, v). reg_line ''      '' (get_abi_name_float b i) v) (loop_over_fp_diff b before after)
      else Inr []) = Inr fps"
      "list_all bystander fps"
    using map_res_all [of "loop_over_fp_diff b before after" "\<lambda>(i, _, v). reg_line ''      '' (get_abi_name_float b i) v" bystander]
      names(2) quiet_names(2) reg_line_bystander
    by (cases "flag_FLOATS b") (force simp: loop_over_fp_diff_def, force)
  obtain vs where v: "(if flag_VECTOR b
      then map_res (\<lambda>(i, _, v). vec_line ''      '' (get_abi_name b i) v) (loop_over_vector_regs_diff b before after)
      else Inr []) = Inr vs"
      "list_all bystander vs"
    using map_res_all [of "loop_over_vector_regs_diff b before after" "\<lambda>(i, _, v). vec_line ''      '' (get_abi_name b i) v" bystander]
      names(3) quiet_names(3) vec_line_bystander
    by (cases "flag_VECTOR b") (force simp: loop_over_vector_regs_diff_def, force)
  have p: "bystander (''      pstate: 0x'' @ fmt_x (unat (pstate after)))"
    using bystander_named [OF quiet_names(4), of "'' 0x'' @ fmt_x (unat (pstate after))"] by simp
  have s: "bystander (''      '' @ n @ '': 0x'' @ fmt_x (unat w))" if "n = ''fpsr'' \<or> n = ''fcsr''" for n and w :: u64
    using bystander_named [of n "'' 0x'' @ fmt_x (unat w)"] quiet_names(5,6) that by auto
  show ?thesis
    using g f v p s [of "''fpsr''"] s [of "''fcsr''"] status_names [of b]
    by (cases "arch b"; cases "flag_FLOATS b"; cases "flag_VECTOR b")
      (auto simp: log_regs_after_def Let_def reg_line_def)
qed

lemmas bystander_simps = bystander_def ignored_def text_line_def Let_def starts_with_def lstrip_ws_def isspace_def

lemma log_mem_bystander: "list_all bystander (log_mem b [] cs)"
proof -
  have "list_all bystander (log_mem_change [] c)" for c
    by (simp add: log_mem_change_def bystander_simps)
  then have "list_all bystander (concat (map (log_mem_change []) cs))" by (auto simp: list_all_iff)
  then show ?thesis by (simp add: log_mem_def) (simp add: bystander_simps)
qed

definition host_text :: "host_env \<Rightarrow> bool" where
  "host_text h \<longleftrightarrow> newline \<notin> set (he_product h) \<and> newline \<notin> set (he_model h) \<and> newline \<notin> set (he_serialno h) \<and>
     newline \<notin> set (he_nodename h) \<and> pred_option (\<lambda>s. newline \<notin> set s) (he_hostname h) \<and>
     pred_option (\<lambda>s. newline \<notin> set s) (he_HOST h)"

lemma hostname_text: "host_text h \<Longrightarrow> newline \<notin> set (detect_preferred_hostname h [])"
  by (auto simp: detect_preferred_hostname_def host_text_def dest!: in_set_takeD split: option.splits if_splits)

lemma midr_text: "newline \<notin> set (or_unknown (midr_to_vendor b w))" "newline \<notin> set (or_unknown (midr_to_microarch b w))"
proof -
  have n: "list_all (\<lambda>(i, p, s). newline \<notin> set s) (midr_name_table b)"
    by (cases "arch b") (simp_all add: midr_name_table_def)
  have v: "list_all (\<lambda>(i, s). newline \<notin> set s) (midr_vendor_table b)"
    by (cases "arch b") (simp_all add: midr_vendor_table_def)
  show "newline \<notin> set (or_unknown (midr_to_vendor b w))" "newline \<notin> set (or_unknown (midr_to_microarch b w))"
    using n v by (auto simp: or_unknown_def midr_to_vendor_def midr_to_microarch_def list_all_length find_Some_iff
        split: option.splits)
qed

lemma client_block_bystander:
  "host_text h \<Longrightarrow> list_all bystander (log_client_block_yaml b h n [] cpu)"
  using hostname_text [of h] midr_text [of b "midr cpu"]
  by (simp add: log_client_block_yaml_def log_device_block_def log_microarchitecture_block_def host_text_def Let_def)
    (simp add: bystander_simps)

lemma log_result_bystander:
  assumes "valid_build b" and "host_text h"
  shows "\<exists>ls. log_result b h n r before [] cpu = Inr ls \<and> list_all bystander ls"
proof -
  obtain diffs where d: "log_regs_after b [] before (regs_result r) = Inr diffs" "list_all bystander diffs"
    using log_regs_after_bystander [OF assms(1)] by blast
  have c: "list_all bystander (case cpu of None \<Rightarrow> [] | Some c \<Rightarrow> log_client_block_yaml b h n [] c)"
    using client_block_bystander [OF assms(2)] by (simp split: option.splits)
  show ?thesis
    using d(2) c log_mem_bystander [of b "mem_changes r"] by (simp add: log_result_def d(1)) (simp add: bystander_simps)
qed

section \<open>The input section\<close>

definition instr_lines :: "u32 list \<Rightarrow> string list" where
  "instr_lines instr_seq = map (\<lambda>i. ''  - 0x'' @ fmt_0x 8 (unat i)) instr_seq"

definition dis_line :: "string \<Rightarrow> string" where
  "dis_line d = ''  - '' @ CHR 0x27 # d @ [CHR 0x27]"

lemma dis_lines: "ignored (dis_line d)" "newline \<notin> set d \<Longrightarrow> text_line (dis_line d)"
  "ignored ''  dis_opcodes:''" "ignored ''results:''" "ignored ''input:''"
  by (simp_all add: dis_line_def ignored_def starts_with_def text_line_def lstrip_other isspace_def)

lemma log_input_lines:
  assumes "valid_build b" and "wf_regs b r" and "\<And>i. i \<in> set instr_seq \<Longrightarrow> disasm i = Some (dis i)"
  shows "log_input b disasm instr_seq r ms =
           Inr (''input:'' # ''  instr_seq:'' # instr_lines instr_seq @ ''  dis_opcodes:'' #
                map (dis_line \<circ> dis) instr_seq @ ''  regs:'' # printed_regs b r @ log_mappings ms)"
proof -
  have "map_res (\<lambda>i. case disasm i of None \<Rightarrow> Inl (Exit EXIT_FAILURE ''dis'')
                 | Some d \<Rightarrow> Inr (''  - '' @ CHR 0x27 # d @ [CHR 0x27])) instr_seq = Inr (map (dis_line \<circ> dis) instr_seq)"
    using assms(3) by (intro map_res_Inr) (simp add: dis_line_def)
  then show ?thesis
    using log_regs_printed [OF assms(1,2)] by (simp add: log_input_def instr_lines_def)
qed

lemma text_line_append [simp]: "text_line (c # s) \<longleftrightarrow> newline \<noteq> c \<and> newline \<notin> set s"
  by (simp add: text_line_def)

lemma list_all_map2: "(\<And>x y. x \<in> set xs \<Longrightarrow> P (f x y)) \<Longrightarrow> list_all P (map2 f xs ys)"
  by (auto simp: list_all_iff dest: set_zip_leftD)

lemma printed_regs_text: "list_all text_line (printed_regs b r)"
proof -
  have plain: "newline \<notin> set n" if "plain_name n" for n
    using that by (auto simp: plain_name_def list_all_iff isspace_def)
  have names: "newline \<notin> set n" if "list_all P names" "n \<in> set names" "\<And>n. P n \<Longrightarrow> plain_name n" for P names n
    using that by (intro plain) (simp add: list_all_iff)
  have "n \<in> set (gp_names b) \<Longrightarrow> newline \<notin> set n" "n \<in> set (fp_names b) \<Longrightarrow> newline \<notin> set n"
    "n \<in> set REGS_VECTOR \<Longrightarrow> newline \<notin> set n" for n
    by (erule names [OF names_ok(1)] names [OF names_ok(2)] names [OF names_ok(3)], simp add: gp_name_def)+
  then have "list_all text_line (map2 value_line (gp_names b) (gp r))" "list_all text_line (map2 value_line (fp_names b) (fp r))"
    "list_all text_line (map2 vector_line REGS_VECTOR (vec r))"
    by (intro list_all_map2; simp)+
  then show ?thesis by (simp add: printed_regs_def)
qed

lemma log_mappings_text: "list_all storable ms \<Longrightarrow> list_all text_line (log_mappings ms)"
proof -
  assume "list_all storable ms"
  then have "newline \<notin> set (mapping_words m)" if "m \<in> set ms" for m
    using mapping_words_decode(3) [of m] that by (auto simp: list_all_iff)
  then show ?thesis by (auto simp: log_mappings_def log_mapping_def list_all_iff)
qed

lemma log_flags_text: "list_all text_line (log_flags b)"
  by (simp add: log_flags_def)

section \<open>Loading a written file\<close>

text \<open>
  From the lines \<open>ls\<close> the loop comes to the lines \<open>e\<close> and the state \<open>rp'\<close>, in at most one iteration a
  line between them.
\<close>

definition reaches :: "build \<Rightarrow> (nat \<Rightarrow> u8 list) \<Rightarrow> string list \<Rightarrow> string list \<Rightarrow> repro \<Rightarrow> repro \<Rightarrow> bool" where
  "reaches b malloced e ls rp rp' \<longleftrightarrow>
     (\<exists>n. n + length e \<le> length ls \<and> (\<forall>k. load_lines (n + k) b malloced ls rp = load_lines k b malloced e rp'))"

lemma reaches_refl: "reaches b malloced e e rp rp"
  unfolding reaches_def by (rule exI [of _ 0]) simp

lemma reaches_step:
  assumes "load_step b malloced l ls rp = Inr (rp1, ls1)" and "length ls1 \<le> length ls" and "reaches b malloced e ls1 rp1 rp'"
  shows "reaches b malloced e (l # ls) rp rp'"
proof -
  obtain n where "n + length e \<le> length ls1" "\<forall>k. load_lines (n + k) b malloced ls1 rp1 = load_lines k b malloced e rp'"
    using assms(3) by (auto simp: reaches_def)
  then show ?thesis unfolding reaches_def using assms(1,2) by (intro exI [of _ "Suc n"]) simp
qed

lemma reaches_ignored:
  assumes "list_all ignored ls" and "reaches b malloced e rest rp rp'"
  shows "reaches b malloced e (ls @ rest) rp rp'"
proof -
  obtain n where "n + length e \<le> length rest" "\<forall>k. load_lines (n + k) b malloced rest rp = load_lines k b malloced e rp'"
    using assms(2) by (auto simp: reaches_def)
  then show ?thesis unfolding reaches_def
    using load_lines_ignored [OF assms(1)] by (intro exI [of _ "length ls + n"]) (simp add: add.assoc)
qed

lemma reaches_fuel:
  assumes "reaches b malloced [] ls rp rp'" and "length ls < fuel"
  shows "load_lines fuel b malloced ls rp = Some (Inr rp')"
proof -
  obtain n where n: "n \<le> length ls" "\<forall>k. load_lines (n + k) b malloced ls rp = load_lines k b malloced [] rp'"
    using assms(1) by (auto simp: reaches_def)
  then have "load_lines (n + 1) b malloced ls rp = Some (Inr rp')" by (simp del: One_nat_def) simp
  then show ?thesis using load_lines_mono [of "n + 1" b malloced ls rp _ "fuel - (n + 1)"] n(1) assms(2) by simp
qed

text \<open>A line whose iteration leaves everything as it is.\<close>

lemma reaches_stuck:
  assumes "reaches b malloced e ls rp rp'" and "e = l # rest" and "load_step b malloced l rest rp' = Inr (rp', e)"
  shows "load_lines fuel b malloced ls rp = None"
proof -
  have "load_lines k b malloced e rp' = None" for k
    using assms(2,3) by (induction k) simp_all
  moreover obtain n where "\<forall>k. load_lines (n + k) b malloced ls rp = load_lines k b malloced e rp'"
    using assms(1) by (auto simp: reaches_def)
  ultimately have "load_lines (n + fuel) b malloced ls rp = None" by simp
  then show ?thesis
    using load_lines_mono [of fuel b malloced ls rp _ n]
    by (cases "load_lines fuel b malloced ls rp") (simp_all add: add.commute)
qed

lemma reaches_instrs:
  assumes "stops rest" and "length instr_seq \<le> MAX_SEQ_LEN b" and "rp_instr_seq rp = []"
    and "reaches b malloced e rest (rp\<lparr>rp_instr_seq := instr_seq\<rparr>) rp'"
  shows "reaches b malloced e (''  instr_seq:'' # instr_lines instr_seq @ rest) rp rp'"
  using load_instrs_printed [of "[]" instr_seq b rest] assms
  by (intro reaches_step [OF _ _ assms(4)])
    (simp_all add: load_step_def instr_lines_def skipped_def starts_with_def lstrip_ws_def isspace_def)

text \<open>The registers a file restores; the others keep their value.\<close>

definition restored_regs :: "build \<Rightarrow> regs \<Rightarrow> regs \<Rightarrow> regs" where
  "restored_regs b r old = old\<lparr>gp := gp r, fp := (if flag_FLOATS b then fp r else fp old),
     vec := (if flag_VECTOR b then vec r else vec old)\<rparr>"

lemma reaches_regs:
  assumes "wf_regs b r" and "wf_regs b (rp_regs rp)" and "l = ''mappings:'' @ tail"
    and "reaches b malloced e (l # rest) (rp\<lparr>rp_regs := restored_regs b r (rp_regs rp)\<rparr>) rp'"
  shows "reaches b malloced e (''  regs:'' # printed_regs b r @ l # rest) rp rp'"
  using load_regs_printed [OF assms(1-3), of rest]
  by (intro reaches_step [OF _ _ assms(4)])
    (simp_all add: load_step_def skipped_def starts_with_def lstrip_ws_def isspace_def restored_regs_def)

lemma reaches_mappings:
  assumes "list_all storable ms" and "stops rest" and "rp_mappings rp = []"
    and "reaches b malloced e rest (rp\<lparr>rp_mappings := map (\<lambda>m. m\<lparr>map_rw := []\<rparr>) ms\<rparr>) rp'"
  shows "reaches b malloced e (log_mappings ms @ rest) rp rp'"
proof (cases "ms = []")
  case True
  have "load_mappings malloced rest [] = Inr ([], rest)" by (rule load_mappings_stops [OF assms(2)])
  with True assms show ?thesis
    by (simp add: log_mappings_def)
      (rule reaches_step [OF _ _ assms(4)], simp_all add: load_step_def skipped_def starts_with_def lstrip_ws_def isspace_def)
next
  case False
  then show ?thesis
    using load_mappings_printed [OF assms(2,1), of malloced "[]"] assms(3)
    by (simp add: log_mappings_def)
      (rule reaches_step [OF _ _ assms(4)], simp_all add: load_step_def skipped_def starts_with_def lstrip_ws_def isspace_def)
qed

lemma reaches_flags:
  assumes "some_flag b" and "stops rest" and "reaches b malloced e rest rp rp'"
  shows "reaches b malloced e (log_flags b @ rest) rp rp'"
proof -
  obtain ls where ls: "log_flags b = ''flags:'' # ls" "check_flags b ''flags:'' (ls @ rest) = Inr rest"
    using check_flags_printed [OF assms(1,2)] by blast
  then show ?thesis
    by (simp, intro reaches_step [OF _ _ assms(3)])
      (simp_all add: load_step_def skipped_def starts_with_def lstrip_ws_def isspace_def)
qed

text \<open>What can be written: the facts about the texts other programs supply.\<close>

definition printable_input :: "build \<Rightarrow> (u32 \<Rightarrow> string option) \<Rightarrow> u32 list \<Rightarrow> regs \<Rightarrow> mapping list \<Rightarrow> bool" where
  "printable_input b disasm instr_seq r ms \<longleftrightarrow>
     wf_regs b r \<and> list_all storable ms \<and> length instr_seq \<le> MAX_SEQ_LEN b \<and>
     list_all (\<lambda>i. disasm i \<noteq> None \<and> newline \<notin> set (the (disasm i))) instr_seq"

definition comment_line :: "string \<Rightarrow> bool" where
  "comment_line l \<longleftrightarrow> starts_with ''#'' l \<and> newline \<notin> set l"

lemma comment_bystander: "comment_line l \<Longrightarrow> bystander l"
  by (cases l) (auto simp: comment_line_def bystander_simps)

lemma results_bystander:
  assumes "valid_build b" and "host_text h"
  shows "\<exists>rs. map_res (\<lambda>(r, cpu). log_result b h n r before [] cpu) items = Inr rs \<and> list_all bystander (concat rs)"
proof -
  obtain rs where "map_res (\<lambda>(r, cpu). log_result b h n r before [] cpu) items = Inr rs" "list_all (list_all bystander) rs"
    using map_res_all [of items "\<lambda>(r, cpu). log_result b h n r before [] cpu" "list_all bystander"]
      log_result_bystander [OF assms] by auto
  then show ?thesis by (auto simp: list_all_iff)
qed

definition trailer :: "build \<Rightarrow> string \<Rightarrow> string list" where
  "trailer b git_commit =
     [case arch b of AARCH64 \<Rightarrow> ''arch: aarch64'' | RISCV64 \<Rightarrow> ''arch: riscv64'', ''git_commit: '' @ git_commit]"

lemma trailer_lines:
  "stops (trailer b g)" "newline \<notin> set g \<Longrightarrow> list_all bystander (trailer b g)"
  by (cases "arch b"; simp add: trailer_def stops_def bystander_simps)+

definition yaml_lines ::
  "build \<Rightarrow> (u32 \<Rightarrow> string) \<Rightarrow> string list \<Rightarrow> string list \<Rightarrow> u32 list \<Rightarrow> regs \<Rightarrow> mapping list \<Rightarrow> string list" where
  "yaml_lines b dis results rest instr_seq r ms =
     ''input:'' # ''  instr_seq:'' # instr_lines instr_seq @ ''  dis_opcodes:'' #
     map (dis_line \<circ> dis) instr_seq @ ''  regs:'' # printed_regs b r @ log_mappings ms @ ''results:'' # results @ rest"

definition file_repro :: "build \<Rightarrow> u32 list \<Rightarrow> regs \<Rightarrow> mapping list \<Rightarrow> regs \<Rightarrow> repro" where
  "file_repro b instr_seq r ms old =
     \<lparr>rp_regs = restored_regs b r old, rp_instr_seq = instr_seq, rp_mappings = map (\<lambda>m. m\<lparr>map_rw := []\<rparr>) ms\<rparr>"

lemma reaches_file:
  assumes "printable_input b disasm instr_seq r ms" and "wf_regs b old"
    and "list_all ignored header" and "list_all ignored results"
    and "reaches b malloced e rest (file_repro b instr_seq r ms old) (file_repro b instr_seq r ms old)"
  shows "reaches b malloced e (header @ yaml_lines b dis results rest instr_seq r ms)
           \<lparr>rp_regs = old, rp_instr_seq = [], rp_mappings = []\<rparr> (file_repro b instr_seq r ms old)"
proof -
  have in_ok: "wf_regs b r" "list_all storable ms" "length instr_seq \<le> MAX_SEQ_LEN b"
    using assms(1) by (simp_all add: printable_input_def)
  define final where "final = file_repro b instr_seq r ms old"
  have "list_all ignored (''results:'' # results)" using assms(4) dis_lines(4) by simp
  then have "reaches b malloced e ((''results:'' # results) @ rest) final final"
    using assms(5) unfolding final_def by (rule reaches_ignored)
  then have maps: "reaches b malloced e (log_mappings ms @ (''results:'' # results) @ rest) (final\<lparr>rp_mappings := []\<rparr>) final"
    using in_ok(2) by (intro reaches_mappings)
      (simp_all add: stops_def starts_with_def lstrip_ws_def isspace_def final_def file_repro_def)
  obtain l t tail where lt: "log_mappings ms = l # tail" and l: "l = ''mappings:'' @ t"
    by (cases "ms = []") (auto simp: log_mappings_def)
  let ?mid = "\<lparr>rp_regs = old, rp_instr_seq = instr_seq, rp_mappings = []\<rparr>"
  have mid: "?mid\<lparr>rp_regs := restored_regs b r (rp_regs ?mid)\<rparr> = final\<lparr>rp_mappings := []\<rparr>" "wf_regs b (rp_regs ?mid)"
    using assms(2) by (simp_all add: final_def file_repro_def)
  have "reaches b malloced e (''  regs:'' # printed_regs b r @ log_mappings ms @ (''results:'' # results) @ rest) ?mid final"
    using maps unfolding lt append_Cons mid(1) [symmetric] by (rule reaches_regs [OF in_ok(1) mid(2) l])
  moreover have "list_all ignored (''  dis_opcodes:'' # map (dis_line \<circ> dis) instr_seq)"
    using dis_lines(1,3) by (simp add: list.pred_map comp_def list_all_iff)
  ultimately have "reaches b malloced e ((''  dis_opcodes:'' # map (dis_line \<circ> dis) instr_seq) @ ''  regs:'' # printed_regs b r @
      log_mappings ms @ (''results:'' # results) @ rest) ?mid final"
    by (rule reaches_ignored [rotated])
  then have "reaches b malloced e (''  instr_seq:'' # instr_lines instr_seq @ (''  dis_opcodes:'' # map (dis_line \<circ> dis) instr_seq) @
      ''  regs:'' # printed_regs b r @ log_mappings ms @ (''results:'' # results) @ rest)
      \<lparr>rp_regs = old, rp_instr_seq = [], rp_mappings = []\<rparr> final"
    using in_ok(3) by (intro reaches_instrs) (simp_all add: stops_def starts_with_def lstrip_ws_def isspace_def final_def)
  moreover have "list_all ignored (header @ [''input:''])" using assms(3) dis_lines(5) by simp
  ultimately show ?thesis
    using reaches_ignored [of "header @ [''input:'']"] by (simp add: final_def yaml_lines_def)
qed

lemma log_repro_yaml_lines:
  assumes "valid_build b" and "printable_input b disasm instr_seq r ms" and "host_text h" and "newline \<notin> set git_commit"
    and "list_all comment_line header"
  obtains dis results where
    "log_repro_yaml b disasm h num_cpus git_commit items instr_seq r ms =
       Inr (yaml_lines b dis results (log_flags b @ trailer b git_commit) instr_seq r ms)"
    "list_all ignored header" "list_all ignored results"
    "tokens newline (unlines (header @ yaml_lines b dis results (log_flags b @ trailer b git_commit) instr_seq r ms)) =
       header @ yaml_lines b dis results (log_flags b @ trailer b git_commit) instr_seq r ms"
proof -
  define dis where "dis = the \<circ> disasm"
  have dis: "disasm i = Some (dis i)" "newline \<notin> set (dis i)" if "i \<in> set instr_seq" for i
    using assms(2) that by (auto simp: printable_input_def list_all_iff dis_def)
  have in_ok: "wf_regs b r" "list_all storable ms" using assms(2) by (simp_all add: printable_input_def)
  obtain rs where rs: "map_res (\<lambda>(x, cpu). log_result b h num_cpus x r [] cpu) items = Inr rs" "list_all bystander (concat rs)"
    using results_bystander [OF assms(1,3)] by blast
  let ?yaml = "yaml_lines b dis (concat rs) (log_flags b @ trailer b git_commit) instr_seq r ms"
  have "log_repro_yaml b disasm h num_cpus git_commit items instr_seq r ms = Inr ?yaml"
    using log_input_lines [OF assms(1) in_ok(1) dis(1)] rs(1) by (simp add: log_repro_yaml_def yaml_lines_def trailer_def)
  moreover have header: "list_all bystander header"
    using assms(5) comment_bystander by (auto simp: list_all_iff)
  have "list_all text_line (header @ ?yaml)"
    using header rs(2) trailer_lines(2) [OF assms(4)] dis(2) dis_lines(2) printed_regs_text log_mappings_text [OF in_ok(2)] log_flags_text
    by (auto simp: yaml_lines_def instr_lines_def list_all_iff bystander_def)
  then have "tokens newline (unlines (header @ ?yaml)) = header @ ?yaml"
    by (subst tokens_unlines) (auto simp: list_all_iff text_line_def filter_id_conv)
  moreover have "list_all ignored header" "list_all ignored (concat rs)"
    using header rs(2) by (simp_all add: list_all_iff bystander_def)
  ultimately show thesis using that by blast
qed

text \<open>A file of comment lines and the YAML section is loaded with one iteration a line.\<close>

lemma yaml_round_trip:
  assumes "valid_build b" and "some_flag b" and "printable_input b disasm instr_seq r ms"
    and "wf_regs b old" and "host_text h" and "newline \<notin> set git_commit" and "list_all comment_line header"
  shows "\<exists>yaml. log_repro_yaml b disasm h num_cpus git_commit items instr_seq r ms = Inr yaml \<and>
           (\<forall>fuel > length (header @ yaml).
              \<exists>midrs. load_repro fuel b malloced (unlines (header @ yaml)) old =
                Some (Inr (\<lparr>rp_regs = restored_regs b r old, rp_instr_seq = instr_seq,
                            rp_mappings = map (\<lambda>m. m\<lparr>map_rw := []\<rparr>) ms\<rparr>, midrs)))"
proof -
  obtain dis results where yaml:
      "log_repro_yaml b disasm h num_cpus git_commit items instr_seq r ms =
         Inr (yaml_lines b dis results (log_flags b @ trailer b git_commit) instr_seq r ms)"
      "list_all ignored header" "list_all ignored results"
      "tokens newline (unlines (header @ yaml_lines b dis results (log_flags b @ trailer b git_commit) instr_seq r ms)) =
         header @ yaml_lines b dis results (log_flags b @ trailer b git_commit) instr_seq r ms"
    by (rule log_repro_yaml_lines [OF assms(1,3,5-7)])
  let ?final = "file_repro b instr_seq r ms old"
  have "list_all ignored (trailer b git_commit)"
    using trailer_lines(2) [OF assms(6)] by (simp add: list_all_iff bystander_def)
  then have "reaches b malloced [] (trailer b git_commit) ?final ?final"
    using reaches_ignored [OF _ reaches_refl, of "trailer b git_commit" b malloced "[]"] by simp
  then have "reaches b malloced [] (log_flags b @ trailer b git_commit) ?final ?final"
    by (rule reaches_flags [OF assms(2) trailer_lines(1)])
  note reached = reaches_fuel [OF reaches_file [OF assms(3,4) yaml(2,3) this, of dis]]
  show ?thesis
    using yaml(1) reached
    by (intro exI [of _ "yaml_lines b dis results (log_flags b @ trailer b git_commit) instr_seq r ms"])
      (simp add: load_repro_def yaml(4) file_repro_def del: unlines_simps)
qed

section \<open>A file of a build without flags\<close>

lemma yaml_hangs:
  assumes "valid_build b" and "\<not> some_flag b" and "\<not> flag_AUTO_MAP_MEM_RW_PROT b"
    and "printable_input b disasm instr_seq r ms" and "wf_regs b old" and "host_text h"
    and "newline \<notin> set git_commit" and "list_all comment_line header"
  shows "\<exists>yaml. log_repro_yaml b disasm h num_cpus git_commit items instr_seq r ms = Inr yaml \<and>
           (\<forall>fuel. load_repro fuel b malloced (unlines (header @ yaml)) old = None)"
proof -
  obtain dis results where yaml:
      "log_repro_yaml b disasm h num_cpus git_commit items instr_seq r ms =
         Inr (yaml_lines b dis results (log_flags b @ trailer b git_commit) instr_seq r ms)"
      "list_all ignored header" "list_all ignored results"
      "tokens newline (unlines (header @ yaml_lines b dis results (log_flags b @ trailer b git_commit) instr_seq r ms)) =
         header @ yaml_lines b dis results (log_flags b @ trailer b git_commit) instr_seq r ms"
    by (rule log_repro_yaml_lines [OF assms(1,4,6-8)])
  have flags: "log_flags b @ trailer b git_commit = ''flags: []'' # trailer b git_commit"
    using assms(2) by (simp add: log_flags_def some_flag_def)
  have "load_step b malloced ''flags: []'' ls rp = Inr (rp, ''flags: []'' # ls)" for ls rp
    using assms(2,3)
    by (simp add: load_step_def skipped_def starts_with_def lstrip_ws_def isspace_def check_flags_def expected_mask_def some_flag_def)
  then have "load_step b malloced ''flags: []'' (trailer b git_commit) rp = Inr (rp, log_flags b @ trailer b git_commit)" for rp
    by (simp add: flags)
  note stuck = reaches_stuck [OF reaches_file [OF assms(4,5) yaml(2,3) reaches_refl, where dis = dis] flags this]
  show ?thesis
    using yaml(1) stuck
    by (intro exI [of _ "yaml_lines b dis results (log_flags b @ trailer b git_commit) instr_seq r ms"])
      (simp add: load_repro_def yaml(4) del: unlines_simps)
qed

end
