(* ===== verification/Report.thy ===== *)
theory Report
  imports Repro
begin

text \<open>
  The human-readable reports: lib/hexdiff.h and lib/regdiff_common.h, \<open>print_reg_diff_opts\<close> of
  lib/*/regs.c, \<open>print_result_opt\<close> and \<open>print_result_diff\<close> of lib/runner.c, and \<open>log_repro\<close>, which puts
  them as comments in front of the YAML section. A printer returns the lines it writes, without their
  newlines. What the C library and the terminal contribute is in the record \<open>term_env\<close>.
\<close>

section \<open>Pairs of numbers with the differences marked\<close>

definition ESC :: char where "ESC = CHR 0x1B"

definition COLOR_RED :: string where "COLOR_RED = ESC # ''[0;31m''"
definition COLOR_GREEN :: string where "COLOR_GREEN = ESC # ''[0;32m''"
definition COLOR_YELLOW :: string where "COLOR_YELLOW = ESC # ''[0;33m''"
definition COLOR_CYAN :: string where "COLOR_CYAN = ESC # ''[0;36m''"
definition COLOR_RESET :: string where "COLOR_RESET = ESC # ''[0m''"

definition tint :: "bool \<Rightarrow> char \<Rightarrow> string" where
  "tint marked ch = (if marked then COLOR_YELLOW @ [ch] @ COLOR_RESET else [ch])"

definition nibble :: "u64 \<Rightarrow> nat \<Rightarrow> nat" where
  "nibble a i = unat (drop_bit (i * 4) a AND 0xF)"

text \<open>The digits of \<open>a\<close>, highest first, marked where those of \<open>b\<close> differ.\<close>

definition fixed_side :: "u64 \<Rightarrow> u64 \<Rightarrow> nat \<Rightarrow> bool \<Rightarrow> string" where
  "fixed_side a b width color_on =
     concat (map (\<lambda>i. tint (color_on \<and> nibble a i \<noteq> nibble b i) (hex_digit (nibble a i))) (rev [0..<width]))"

definition fprint_hex_pair_diff_fixed_ul :: "u64 \<Rightarrow> u64 \<Rightarrow> nat \<Rightarrow> bool \<Rightarrow> string" where
  "fprint_hex_pair_diff_fixed_ul a b width color_on = fixed_side a b width color_on @ '' -> '' @ fixed_side b a width color_on"

definition fprint_hex_pair_diff_0x_fixed_ul :: "u64 \<Rightarrow> u64 \<Rightarrow> nat \<Rightarrow> bool \<Rightarrow> string" where
  "fprint_hex_pair_diff_0x_fixed_ul a b width color_on =
     ''0x'' @ fixed_side a b width color_on @ '' -> 0x'' @ fixed_side b a width color_on"

text \<open>One side of the pair without leading zeros, with the index arithmetic of the source.\<close>

definition free_side :: "string \<Rightarrow> string \<Rightarrow> bool \<Rightarrow> string" where
  "free_side sa sb color_on =
     (let L = max (length sa) (length sb)
      in concat (map (\<lambda>i. let j = int i - (int L - int (length sa));
                              cb = (if 0 \<le> j \<and> j < int (length sb) then sb ! nat j else CHR ''0'')
                          in tint (color_on \<and> sa ! i \<noteq> cb) (sa ! i)) [0..<length sa]))"

definition fprint_hex_pair_diff_0x_ul :: "u64 \<Rightarrow> u64 \<Rightarrow> bool \<Rightarrow> string" where
  "fprint_hex_pair_diff_0x_ul a b color_on =
     (let sa = fmt_x (unat a); sb = fmt_x (unat b)
      in ''0x'' @ free_side sa sb color_on @ '' -> 0x'' @ free_side sb sa color_on)"

definition byte_side :: "u8 \<Rightarrow> u8 \<Rightarrow> bool \<Rightarrow> string" where
  "byte_side x y color_on =
     tint (color_on \<and> unat x div 16 \<noteq> unat y div 16) (hex_digit (unat x div 16)) @
     tint (color_on \<and> unat x mod 16 \<noteq> unat y mod 16) (hex_digit (unat x mod 16))"

definition fprint_bytes_pair_diff_hex :: "u8 list \<Rightarrow> u8 list \<Rightarrow> bool \<Rightarrow> string" where
  "fprint_bytes_pair_diff_hex before after color_on =
     ''0x'' @ concat (map2 (\<lambda>x y. byte_side x y color_on) before after) @
     '' -> 0x'' @ concat (map2 (\<lambda>x y. byte_side y x color_on) before after)"

text \<open>Highest byte first.\<close>

definition fprint_vec_pair_diff_hex :: "u8 list \<Rightarrow> u8 list \<Rightarrow> bool \<Rightarrow> string" where
  "fprint_vec_pair_diff_hex before after color_on = fprint_bytes_pair_diff_hex (rev before) (rev after) color_on"

definition str_side :: "string \<Rightarrow> string \<Rightarrow> string" where
  "str_side sa sb =
     concat (map (\<lambda>i. tint (i \<ge> length sb \<or> sa ! i \<noteq> sb ! i) (sa ! i)) [0..<length sa])"

definition print_str_pair_diff :: "string \<Rightarrow> string \<Rightarrow> string" where
  "print_str_pair_diff sa sb = str_side sa sb @ '' -> '' @ str_side sb sa"

text \<open>
  Numbers of different lengths are not aligned: of 0x1f and 0xf the common last digit is marked.
\<close>

lemma hex_pair_marks_misaligned:
  "fprint_hex_pair_diff_0x_ul 0x1f 0xf True =
     ''0x'' @ tint True CHR ''1'' @ tint True CHR ''f'' @ '' -> 0x'' @ tint True CHR ''f''"
  "fprint_hex_pair_diff_0x_fixed_ul 0x1f 0x0f 2 True =
     ''0x'' @ tint True CHR ''1'' @ tint False CHR ''f'' @ '' -> 0x'' @ tint True CHR ''0'' @ tint False CHR ''f''"
  by code_simp+

section \<open>Registers\<close>

text \<open>
  Whether standard output is coloured, \<^verbatim>\<open>%.17g\<close> of a double and \<^verbatim>\<open>%.9g\<close> of a float by their bits, and
  \<^verbatim>\<open>strsignal\<close>.
\<close>

record term_env =
  te_color :: bool
  te_double :: "u64 \<Rightarrow> string"
  te_float :: "u32 \<Rightarrow> string"
  te_strsignal :: "i32 \<Rightarrow> string"

definition LABEL_ALIGN_W :: nat where "LABEL_ALIGN_W = 10"

definition pad_left :: "nat \<Rightarrow> string \<Rightarrow> string" where
  "pad_left width s = replicate (width - length s) CHR '' '' @ s"

definition aligned_label :: "string \<Rightarrow> string" where
  "aligned_label label = pad_left LABEL_ALIGN_W label @ '' ''"

definition regdiff_begin_section :: "string \<Rightarrow> bool \<Rightarrow> string \<Rightarrow> string" where
  "regdiff_begin_section prefix color_on name = (if color_on then name @ '':'' else prefix @ name @ '':'')"

definition regdiff_emit_scalar :: "term_env \<Rightarrow> string \<Rightarrow> bool \<Rightarrow> string \<Rightarrow> u64 \<Rightarrow> u64 \<Rightarrow> string" where
  "regdiff_emit_scalar t prefix color_on label a b =
     (if color_on then aligned_label label @ fprint_hex_pair_diff_0x_fixed_ul a b 16 (te_color t)
      else prefix @ aligned_label label @ ''0x'' @ fmt_0x 16 (unat a) @ '' -> 0x'' @ fmt_0x 16 (unat b))"

definition regdiff_emit_fp_scalar :: "term_env \<Rightarrow> string \<Rightarrow> bool \<Rightarrow> string \<Rightarrow> u64 \<Rightarrow> u64 \<Rightarrow> bool \<Rightarrow> string" where
  "regdiff_emit_fp_scalar t prefix color_on label a b show_fp_details =
     (if color_on
      then aligned_label label @ fprint_hex_pair_diff_0x_fixed_ul a b 16 (te_color t) @
           (if show_fp_details
            then '', dbl: '' @ print_str_pair_diff (te_double t a) (te_double t b) @
                 '', flt: '' @ print_str_pair_diff (te_float t (ucast a)) (te_float t (ucast b))
            else [])
      else prefix @ aligned_label label @ ''0x'' @ fmt_0x 16 (unat a) @ '' -> 0x'' @ fmt_0x 16 (unat b))"

definition regdiff_emit_vec :: "term_env \<Rightarrow> string \<Rightarrow> bool \<Rightarrow> string \<Rightarrow> u8 list \<Rightarrow> u8 list \<Rightarrow> string" where
  "regdiff_emit_vec t prefix color_on label before after =
     (if color_on then aligned_label label @ fprint_vec_pair_diff_hex before after (te_color t)
      else prefix @ aligned_label label @ fprint_vec before @ '' -> '' @ fprint_vec after)"

text \<open>A section is opened by its first row; a label is printed into 16 characters.\<close>

definition section_lines :: "string \<Rightarrow> string list \<Rightarrow> string list" where
  "section_lines start rows = (if rows = [] then [] else start # rows)"

definition row :: "string res \<Rightarrow> (string \<Rightarrow> string) \<Rightarrow> string res" where
  "row name emit = res_bind name (\<lambda>n. Inr (emit (take 15 (n @ '':''))))"

definition print_reg_diff_opts :: "build \<Rightarrow> term_env \<Rightarrow> string \<Rightarrow> regs \<Rightarrow> regs \<Rightarrow> bool \<Rightarrow> string list res" where
  "print_reg_diff_opts b t prefix before after color_on =
     (let begin_section = regdiff_begin_section prefix color_on;
          scalar = (\<lambda>x y label. regdiff_emit_scalar t prefix color_on label x y)
      in res_bind (map_res (\<lambda>(i, x, y). row (get_abi_name b i) (scalar x y)) (loop_over_gp_diff b before after)) (\<lambda>gps.
         res_bind (if flag_VECTOR b
                   then map_res (\<lambda>(i, x, y). row (get_abi_name b i) (\<lambda>label. regdiff_emit_vec t prefix color_on label x y))
                          (loop_over_vector_regs_diff b before after)
                   else Inr []) (\<lambda>vecs.
         case arch b of
           RISCV64 \<Rightarrow>
             if flag_FLOATS b
             then res_bind (if fcsr before \<noteq> fcsr after
                            then map_res (\<lambda>(x, y). row (get_abi_name b (getabiindex b ''fcsr'')) (scalar x y)) [(fcsr before, fcsr after)]
                            else Inr []) (\<lambda>status.
                  res_bind (map_res (\<lambda>(i, x, y). row (get_abi_name b i)
                              (\<lambda>label. regdiff_emit_fp_scalar t prefix color_on label x y True)) (loop_over_fp_diff b before after)) (\<lambda>fps.
                    Inr (section_lines (begin_section ''gp'') gps @ section_lines (begin_section ''fp'') (status @ fps) @
                         section_lines (begin_section ''vec'') vecs)))
             else Inr (section_lines (begin_section ''gp'') gps @ section_lines (begin_section ''vec'') vecs)
         | AARCH64 \<Rightarrow>
             let gps' = gps @ (if pstate before \<noteq> pstate after then [scalar (pstate before) (pstate after) ''pstate:''] else [])
             in if flag_FLOATS b \<or> flag_VECTOR b
                then res_bind (if fpsr before \<noteq> fpsr after
                               then map_res (\<lambda>(x, y). row (get_abi_name b (getabiindex b ''fpsr'')) (scalar x y)) [(fpsr before, fpsr after)]
                               else Inr []) (\<lambda>status.
                     res_bind (map_res (\<lambda>(i, x, y). row (get_abi_name_float b i)
                                 (\<lambda>label. regdiff_emit_fp_scalar t prefix color_on label x y False)) (loop_over_fp_diff b before after)) (\<lambda>fps.
                       Inr (section_lines (begin_section ''gp'') gps' @
                            section_lines (begin_section (if flag_VECTOR b then ''fp (subset of vector)'' else ''fp'')) (status @ fps) @
                            section_lines (begin_section ''vec'') vecs)))
                else Inr (section_lines (begin_section ''gp'') gps' @ section_lines (begin_section ''vec'') vecs))))"

section \<open>A result\<close>

text \<open>\<^verbatim>\<open>%d\<close> of a 32-bit number.\<close>

definition fmt_sd :: "i32 \<Rightarrow> string" where
  "fmt_sd x = (if sint x < 0 then CHR ''-'' # fmt_d (nat (- sint x)) else fmt_d (nat (sint x)))"

definition color_for_signum :: "i32 \<Rightarrow> string" where
  "color_for_signum sig =
     (if sig = 0 then COLOR_GREEN
      else if sig = SIGSEGV \<or> sig = SIGBUS then COLOR_RED
      else if sig = SIGALRM then COLOR_YELLOW
      else if sig = SIGTRAP then COLOR_CYAN
      else COLOR_YELLOW)"

definition captured :: "u32 \<Rightarrow> nat" where
  "captured n = (if unat n < CHECK_MEM_CUT_AT then unat n else CHECK_MEM_CUT_AT)"

definition print_signal :: "term_env \<Rightarrow> string \<Rightarrow> result \<Rightarrow> bool \<Rightarrow> string list" where
  "print_signal t prefix r color_on =
     (if signum r \<noteq> 0
      then [prefix @ (if color_on then color_for_signum (signum r) @ te_strsignal t (signum r) @ COLOR_RESET
                      else te_strsignal t (signum r)) @ '' ('' @ fmt_sd (signum r) @ '')'',
            prefix @ aligned_label ''si_code:'' @ fmt_sd (si_code r),
            prefix @ aligned_label ''si_addr:'' @ ''0x'' @ fmt_x (unat (si_addrr r)),
            prefix @ aligned_label ''si_pc:'' @ ''0x'' @ fmt_x (unat (si_pc r))]
           @ (if instr_idx r \<noteq> 0 then [prefix @ aligned_label ''instr_idx:'' @ fmt_d (unat (instr_idx r))] else [])
      else [prefix @ (if color_on then COLOR_GREEN @ ''OK'' @ COLOR_RESET else ''OK'') @ '' (0)''])"

definition print_mem_change :: "string \<Rightarrow> mem_change \<Rightarrow> string" where
  "print_mem_change prefix c =
     prefix @ ''0x'' @ fmt_0x 16 (unat (mc_start c)) @ '' '' @ pad_left 4 (fmt_sd (mc_n c)) @ '' '' @
     fprint_hex (take (captured (mc_n c)) (mc_val c)) @
     (if unat (mc_n c) > CHECK_MEM_CUT_AT then '' (cut at '' @ fmt_d CHECK_MEM_CUT_AT @ '' bytes)'' else [])"

definition print_mem :: "build \<Rightarrow> string \<Rightarrow> mem_change list \<Rightarrow> string list" where
  "print_mem b prefix cs =
     (if \<not> flag_CHECK_MEM b then []
      else if cs = [] then [prefix @ ''no mem changes recorded'']
      else [prefix @ ''mem changes ('' @ fmt_d (length cs) @ ''):'', prefix @ ''base               n    val'']
           @ map (print_mem_change prefix) cs)"

definition print_result_opt :: "build \<Rightarrow> term_env \<Rightarrow> string \<Rightarrow> regs \<Rightarrow> result \<Rightarrow> bool \<Rightarrow> string list res" where
  "print_result_opt b t prefix before r color_on =
     res_bind (print_reg_diff_opts b t prefix before (regs_result r) color_on) (\<lambda>diffs.
       Inr (print_signal t prefix r color_on @ diffs
            @ (if flag_META b
               then [prefix @ ''meta:'', prefix @ ''  instret: '' @ fmt_d (unat (meta_instret r)),
                     prefix @ ''  cycle: '' @ fmt_d (unat (meta_cycle r))]
               else [])
            @ print_mem b prefix (mem_changes r)))"

definition print_result :: "build \<Rightarrow> term_env \<Rightarrow> regs \<Rightarrow> result \<Rightarrow> string list res" where
  "print_result b t before r = print_result_opt b t [] before r (te_color t)"

section \<open>The difference of two results\<close>

definition num_line :: "string \<Rightarrow> string \<Rightarrow> u64 \<Rightarrow> u64 \<Rightarrow> bool \<Rightarrow> string" where
  "num_line prefix label x y color_on = prefix @ label @ fprint_hex_pair_diff_0x_ul x y color_on"

definition changed :: "bool \<Rightarrow> string \<Rightarrow> string list" where
  "changed differs line = (if differs then [line] else [])"

definition diff_signal :: "string \<Rightarrow> result \<Rightarrow> result \<Rightarrow> bool \<Rightarrow> string list" where
  "diff_signal prefix a b color_on =
     changed (signum a \<noteq> signum b) (num_line prefix ''signum: '' (scast (signum a)) (scast (signum b)) color_on) @
     changed (si_addrr a \<noteq> si_addrr b) (num_line prefix ''si_addrr: '' (si_addrr a) (si_addrr b) color_on) @
     changed (si_pc a \<noteq> si_pc b) (num_line prefix ''si_pc: '' (si_pc a) (si_pc b) color_on) @
     changed (si_code a \<noteq> si_code b) (num_line prefix ''si_code: '' (scast (si_code a)) (scast (si_code b)) color_on)"

definition named_line :: "string \<Rightarrow> string res \<Rightarrow> u64 \<Rightarrow> u64 \<Rightarrow> bool \<Rightarrow> string res" where
  "named_line prefix name x y color_on = res_bind name (\<lambda>n. Inr (num_line prefix (''  '' @ n @ '': '') x y color_on))"

definition diff_gp :: "build \<Rightarrow> string \<Rightarrow> regs \<Rightarrow> regs \<Rightarrow> bool \<Rightarrow> string list res" where
  "diff_gp b prefix ra rb color_on =
     res_bind (map_res (\<lambda>(i, x, y). named_line prefix (get_abi_name b i) x y color_on) (loop_over_gp_diff b ra rb)) (\<lambda>gps.
     res_bind (case arch b of
         AARCH64 \<Rightarrow>
           res_bind (if (flag_FLOATS b \<or> flag_VECTOR b) \<and> fpsr ra \<noteq> fpsr rb
                     then map_res (\<lambda>(x, y). named_line prefix (get_abi_name b (getabiindex b ''fpsr'')) x y color_on) [(fpsr ra, fpsr rb)]
                     else Inr []) (\<lambda>fs.
             Inr (changed (pstate ra \<noteq> pstate rb) (num_line prefix ''  pstate: '' (pstate ra) (pstate rb) color_on) @ fs))
       | RISCV64 \<Rightarrow>
           if flag_FLOATS b \<and> fcsr ra \<noteq> fcsr rb
           then map_res (\<lambda>(x, y). named_line prefix (get_abi_name b (getabiindex b ''fcsr'')) x y color_on) [(fcsr ra, fcsr rb)]
           else Inr []) (\<lambda>status.
       Inr (section_lines (prefix @ ''gp diffs:'') (gps @ status))))"

definition diff_fp :: "build \<Rightarrow> string \<Rightarrow> regs \<Rightarrow> regs \<Rightarrow> bool \<Rightarrow> string list res" where
  "diff_fp b prefix ra rb color_on =
     (if flag_FLOATS b \<or> (arch b = AARCH64 \<and> flag_VECTOR b)
      then res_bind (map_res (\<lambda>(i, x, y). named_line prefix (get_abi_name_float b i) x y color_on) (loop_over_fp_diff b ra rb)) (\<lambda>fps.
             Inr (section_lines (prefix @ (if arch b = AARCH64 \<and> flag_VECTOR b then ''fp diffs (subset of vector):'' else ''fp diffs:'')) fps))
      else Inr [])"

definition diff_vec :: "build \<Rightarrow> string \<Rightarrow> regs \<Rightarrow> regs \<Rightarrow> bool \<Rightarrow> string list res" where
  "diff_vec b prefix ra rb color_on =
     (if flag_VECTOR b
      then res_bind (map_res (\<lambda>(i, x, y). res_bind (get_abi_name b i) (\<lambda>n.
                        Inr (prefix @ ''  '' @ n @ '': '' @ fprint_vec_pair_diff_hex x y color_on))) (loop_over_vector_regs_diff b ra rb)) (\<lambda>vecs.
             Inr (section_lines (prefix @ ''vec diffs:'') vecs))
      else Inr [])"

definition diff_meta :: "build \<Rightarrow> string \<Rightarrow> result \<Rightarrow> result \<Rightarrow> string list" where
  "diff_meta b prefix x y =
     (if flag_META b
      then section_lines (prefix @ ''meta:'')
             (changed (meta_instret x \<noteq> meta_instret y)
                (prefix @ ''  instret: '' @ fmt_d (unat (meta_instret x)) @ '' -> '' @ fmt_d (unat (meta_instret y))) @
              changed (meta_cycle x \<noteq> meta_cycle y)
                (prefix @ ''  cycle: '' @ fmt_d (unat (meta_cycle x)) @ '' -> '' @ fmt_d (unat (meta_cycle y))))
      else [])"

text \<open>Two memory changes with the same index; the tails are shown when both are captured completely.\<close>

definition diff_mem_change :: "string \<Rightarrow> nat \<Rightarrow> mem_change \<Rightarrow> mem_change \<Rightarrow> string list" where
  "diff_mem_change prefix i x y =
     (if mem_change_equal x y then []
      else let n_min = min (unat (mc_n x)) (unat (mc_n y)); n_cap = min n_min CHECK_MEM_CUT_AT
           in [prefix @ ''  - index '' @ fmt_d i]
              @ changed (mc_start x \<noteq> mc_start y) (num_line prefix ''      start: '' (mc_start x) (mc_start y) False)
              @ changed (mc_n x \<noteq> mc_n y) (num_line prefix ''      n: '' (ucast (mc_n x)) (ucast (mc_n y)) False)
              @ [prefix @ ''      val: '' @ fprint_bytes_pair_diff_hex (take n_cap (mc_val x)) (take n_cap (mc_val y)) False]
              @ (if unat (mc_n x) > CHECK_MEM_CUT_AT \<or> unat (mc_n y) > CHECK_MEM_CUT_AT
                 then [prefix @ ''      cut_at: 0x'' @ fmt_x CHECK_MEM_CUT_AT]
                 else if mc_n x \<noteq> mc_n y
                 then changed (unat (mc_n x) > n_min)
                        (prefix @ ''      val_tail_before: '' @ fprint_hex (take (unat (mc_n x) - n_min) (drop n_min (mc_val x)))) @
                      changed (unat (mc_n y) > n_min)
                        (prefix @ ''      val_tail_after:  '' @ fprint_hex (take (unat (mc_n y) - n_min) (drop n_min (mc_val y))))
                 else [])
              @ changed (mc_checksum x \<noteq> mc_checksum y)
                  (prefix @ ''      checksum: 0x'' @ fmt_0x 8 (unat (mc_checksum x)) @ '' -> 0x'' @ fmt_0x 8 (unat (mc_checksum y))))"

definition extra_mem_change :: "string \<Rightarrow> string \<Rightarrow> nat \<Rightarrow> mem_change \<Rightarrow> string list" where
  "extra_mem_change prefix side i m =
     [prefix @ ''  - index '' @ fmt_d i @ '' (only in '' @ side @ '')'',
      prefix @ ''      start: 0x'' @ fmt_0x 16 (unat (mc_start m)),
      prefix @ ''      n: 0x'' @ fmt_x (unat (mc_n m)),
      prefix @ ''      val: '' @ fprint_hex (take (captured (mc_n m)) (mc_val m))]
     @ changed (unat (mc_n m) > CHECK_MEM_CUT_AT) (prefix @ ''      cut_at: 0x'' @ fmt_x CHECK_MEM_CUT_AT)
     @ [prefix @ ''      checksum: 0x'' @ fmt_0x 8 (unat (mc_checksum m))]"

definition extra_mem :: "string \<Rightarrow> string \<Rightarrow> nat \<Rightarrow> mem_change list \<Rightarrow> string list" where
  "extra_mem prefix side min_mc cs =
     concat (map (\<lambda>i. extra_mem_change prefix side i (cs ! i)) [min_mc..<length cs])"

definition diff_mem :: "build \<Rightarrow> string \<Rightarrow> mem_change list \<Rightarrow> mem_change list \<Rightarrow> string list" where
  "diff_mem b prefix xs ys =
     (let min_mc = min (length xs) (length ys);
          entries = concat (map (\<lambda>i. diff_mem_change prefix i (xs ! i) (ys ! i)) [0..<min_mc])
                    @ extra_mem prefix ''A'' min_mc xs @ extra_mem prefix ''B'' min_mc ys
      in if \<not> flag_CHECK_MEM b then []
         else if length xs \<noteq> length ys
         then (prefix @ ''mem_diffs: count '' @ fmt_d (length xs) @ '' -> '' @ fmt_d (length ys)) # entries
         else section_lines (prefix @ ''mem_diffs:'') entries)"

text \<open>The flag \<^verbatim>\<open>any\<close> is set where something is printed.\<close>

definition print_result_diff :: "build \<Rightarrow> result \<Rightarrow> result \<Rightarrow> string \<Rightarrow> bool \<Rightarrow> string list res" where
  "print_result_diff b x y prefix color_on =
     res_bind (diff_gp b prefix (regs_result x) (regs_result y) color_on) (\<lambda>gps.
     res_bind (diff_fp b prefix (regs_result x) (regs_result y) color_on) (\<lambda>fps.
     res_bind (diff_vec b prefix (regs_result x) (regs_result y) color_on) (\<lambda>vecs.
       let ls = diff_signal prefix x y color_on @ gps @ fps @ vecs @ diff_meta b prefix x y
                @ diff_mem b prefix (mem_changes x) (mem_changes y)
       in Inr (if ls = [] then [prefix @ ''no result differences''] else ls))))"

section \<open>The reproducer file\<close>

definition summary :: "build \<Rightarrow> term_env \<Rightarrow> host_env \<Rightarrow> regs \<Rightarrow> nat \<times> result \<times> cpu_info option \<Rightarrow> string list res" where
  "summary b t h before item =
     (case item of (i, r, cpu) \<Rightarrow>
       let host = detect_preferred_hostname h []
       in res_bind (print_result_opt b t ''# '' before r False) (\<lambda>ls.
            Inr ([''# === Result '' @ fmt_d i @ '' ==='']
                 @ (case cpu of
                      None \<Rightarrow> []
                    | Some c \<Rightarrow> [''# '' @ or_unknown (midr_to_vendor b (midr c)) @ '' '' @ or_unknown (midr_to_microarch b (midr c)) @
                               '' 0x'' @ fmt_0x 8 (unat (midr c)) @ '' ('' @ (if host \<noteq> [] then host else ''unknown'') @
                               build_vec_suffix b @ '')''])
                 @ ls)))"

definition log_repro_header ::
  "build \<Rightarrow> term_env \<Rightarrow> host_env \<Rightarrow> (result \<times> cpu_info option) list \<Rightarrow> regs \<Rightarrow> string list res" where
  "log_repro_header b t h items before =
     res_bind (case items of
                 x # y # _ \<Rightarrow> res_bind (print_result_diff b (fst x) (fst y) ''# '' False) (\<lambda>ls. Inr (''# === Diff ==='' # ls))
               | _ \<Rightarrow> Inr []) (\<lambda>diff.
     res_bind (map_res (summary b t h before) (enumerate 0 items)) (\<lambda>summaries.
       Inr (diff @ concat summaries)))"

definition log_repro ::
  "build \<Rightarrow> term_env \<Rightarrow> (u32 \<Rightarrow> string option) \<Rightarrow> host_env \<Rightarrow> nat \<Rightarrow> string \<Rightarrow> (result \<times> cpu_info option) list \<Rightarrow>
     u32 list \<Rightarrow> regs \<Rightarrow> mapping list \<Rightarrow> string list res" where
  "log_repro b t disasm_opcodes h num_cpus git_commit items instr_seq regs_before ms =
     res_bind (log_repro_header b t h items regs_before) (\<lambda>header.
     res_bind (log_repro_yaml b disasm_opcodes h num_cpus git_commit items instr_seq regs_before ms) (\<lambda>yaml.
       Inr (header @ yaml)))"

section \<open>Lines of a report\<close>

definition report_line :: "string \<Rightarrow> string \<Rightarrow> bool" where
  "report_line prefix l \<longleftrightarrow> (\<exists>x. l = prefix @ x \<and> newline \<notin> set x \<and> take 1 x \<noteq> ''n'')"

lemma report_lineI: "newline \<notin> set x \<Longrightarrow> take 1 x \<noteq> ''n'' \<Longrightarrow> report_line prefix (prefix @ x)"
  by (auto simp: report_line_def)

lemma section_lines_simps [simp]:
  "section_lines start rows = [] \<longleftrightarrow> rows = []"
  "list_all P (section_lines start rows) \<longleftrightarrow> rows = [] \<or> P start \<and> list_all P rows"
  by (auto simp: section_lines_def)

lemma changed_simps [simp]: "changed d l = [] \<longleftrightarrow> \<not> d" "list_all P (changed d l) \<longleftrightarrow> (d \<longrightarrow> P l)"
  by (auto simp: changed_def)

lemma newline_colors [simp]:
  "newline \<notin> set COLOR_RED" "newline \<notin> set COLOR_GREEN" "newline \<notin> set COLOR_YELLOW" "newline \<notin> set COLOR_CYAN"
  "newline \<notin> set COLOR_RESET"
  by (simp_all add: COLOR_RED_def COLOR_GREEN_def COLOR_YELLOW_def COLOR_CYAN_def COLOR_RESET_def ESC_def)

lemma newline_tint [simp]: "newline \<in> set (tint m ch) \<longleftrightarrow> ch = newline"
  by (auto simp: tint_def)

lemma newline_hex_digit [simp]:
  assumes "d < 16"
  shows "hex_digit d \<noteq> newline" "newline \<noteq> hex_digit d"
proof -
  have "list_all (\<lambda>d. hex_digit d \<noteq> newline) [0..<16]" by code_simp
  with assms show "hex_digit d \<noteq> newline" "newline \<noteq> hex_digit d" by (fastforce simp: list_all_iff)+
qed

lemma newline_byte_side [simp]: "newline \<notin> set (byte_side x y m)"
proof -
  have "unat x div 16 < 16" "unat x mod 16 < 16" using unat_bounds(1) [of x] by (simp_all add: less_mult_imp_div_less)
  then show ?thesis by (simp add: byte_side_def)
qed

lemma newline_free_side [simp]: "newline \<notin> set sa \<Longrightarrow> newline \<notin> set (free_side sa sb m)"
  by (auto simp: free_side_def Let_def) (metis nth_mem)

lemma newline_pairs [simp]:
  "newline \<notin> set (fprint_hex_pair_diff_0x_ul x y m)"
  "newline \<notin> set (fprint_bytes_pair_diff_hex xs ys m)"
  "newline \<notin> set (fprint_vec_pair_diff_hex xs ys m)"
proof -
  show bytes: "newline \<notin> set (fprint_bytes_pair_diff_hex xs ys m)" for xs ys
    by (auto simp: fprint_bytes_pair_diff_hex_def)
  show "newline \<notin> set (fprint_vec_pair_diff_hex xs ys m)" by (simp add: fprint_vec_pair_diff_hex_def bytes)
  show "newline \<notin> set (fprint_hex_pair_diff_0x_ul x y m)" by (simp add: fprint_hex_pair_diff_0x_ul_def Let_def)
qed

lemma newline_fprint_hex [simp]: "newline \<notin> set (fprint_hex bs)" "newline \<notin> set (fprint_vec bs)"
proof -
  have "newline \<notin> set (fmt_02x x)" for x
    using unat_bounds(1) [of x] by (simp add: fmt_02x_def less_mult_imp_div_less)
  then show "newline \<notin> set (fprint_hex bs)" "newline \<notin> set (fprint_vec bs)"
    by (auto simp: fprint_hex_def fprint_hex_plain_def fprint_vec_def)
qed

lemma newline_fmt_sd [simp]: "newline \<notin> set (fmt_sd x)"
  by (simp add: fmt_sd_def)

lemma newline_pad [simp]: "newline \<in> set (pad_left w s) \<longleftrightarrow> newline \<in> set s"
  by (auto simp: pad_left_def)

text \<open>Every register the loops report has a name.\<close>

lemma quiet_text: "quiet_name n \<Longrightarrow> newline \<notin> set n"
  by (auto simp: quiet_name_def plain_name_def list_all_iff isspace_def)

lemma gp_named:
  assumes "valid_build b" and "(i, x, y) \<in> set (loop_over_gp_diff b ra rb)"
  shows "\<exists>n. get_abi_name b i = Inr n \<and> newline \<notin> set n"
  using assms(2) abi_names(1) [OF assms(1)] quiet_text [OF quiet_names(1)]
  by (auto simp: loop_over_gp_diff_def)

lemma vec_named:
  assumes "valid_build b" and "flag_VECTOR b" and "(i, x, y) \<in> set (loop_over_vector_regs_diff b ra rb)"
  shows "\<exists>n. get_abi_name b i = Inr n \<and> newline \<notin> set n"
  using assms(3) abi_names(3) [OF assms(1,2)] quiet_text [OF quiet_names(3)]
  by (auto simp: loop_over_vector_regs_diff_def)

lemma fp_named:
  assumes "valid_build b" and "flag_FLOATS b \<or> arch b = AARCH64 \<and> flag_VECTOR b" and "(i, x, y) \<in> set (loop_over_fp_diff b ra rb)"
  shows "\<exists>n. get_abi_name_float b i = Inr n \<and> newline \<notin> set n"
proof -
  obtain k where k: "i = k + getabiindex b ''fp''" "k < 32" using assms(3) by (auto simp: loop_over_fp_diff_def)
  show ?thesis
  proof (cases "flag_FLOATS b")
    case True
    with abi_names(2) [OF assms(1) True k(2)] k quiet_text [OF quiet_names(2) [OF k(2)]] show ?thesis by simp
  next
    case False
    with assms(2) have "arch b = AARCH64" "flag_VECTOR b" by auto
    then have "get_abi_name_float b i = Inr (fp_names b ! k)"
      using k by (simp add: get_abi_name_float_def fp_names_def nth_append)
    with quiet_text [OF quiet_names(2) [OF k(2)]] show ?thesis by simp
  qed
qed

lemma rows_printed:
  assumes "\<And>i x y. (i, x, y) \<in> set xs \<Longrightarrow> \<exists>n. name i = Inr n \<and> newline \<notin> set n"
    and "\<And>n x y. newline \<notin> set n \<Longrightarrow> \<exists>l. emit (Inr n) x y = Inr l \<and> P l"
  shows "\<exists>ys. map_res (\<lambda>(i, x, y). emit (name i) x y) xs = Inr ys \<and> list_all P ys \<and> (ys = [] \<longleftrightarrow> xs = [])"
proof -
  let ?f = "\<lambda>(i, x, y). emit (name i) x y"
  have "\<exists>l. ?f z = Inr l \<and> P l" if z_in: "z \<in> set xs" for z
  proof -
    obtain i x y where z: "z = (i, x, y)" by (cases z)
    then obtain n where "name i = Inr n" "newline \<notin> set n" using assms(1) z_in by blast
    with assms(2) [of n x y] z show ?thesis by simp
  qed
  then obtain ys where ys: "map_res ?f xs = Inr ys" "list_all P ys" using map_res_all [of xs ?f P] by blast
  moreover have "ys = [] \<longleftrightarrow> xs = []" using ys(1) by (cases xs) (auto simp: res_bind_Inr_iff)
  ultimately show ?thesis by blast
qed

lemma named_line_printed:
  assumes "newline \<notin> set n"
  shows "\<exists>l. named_line prefix (Inr n) x y m = Inr l \<and> report_line prefix l"
  using assms report_lineI [of "(''  '' @ n @ '': '') @ fprint_hex_pair_diff_0x_ul x y m" prefix]
  by (simp add: named_line_def num_line_def)

lemma num_line_report [simp]: "newline \<notin> set label \<Longrightarrow> take 1 label \<noteq> ''n'' \<Longrightarrow> label \<noteq> [] \<Longrightarrow> report_line prefix (num_line prefix label x y m)"
  using report_lineI [of "label @ fprint_hex_pair_diff_0x_ul x y m" prefix] by (cases label) (auto simp: num_line_def)

section \<open>What a report says\<close>

lemma diff_signal_empty:
  "diff_signal prefix x y m = [] \<longleftrightarrow> signum x = signum y \<and> si_addrr x = si_addrr y \<and> si_pc x = si_pc y \<and> si_code x = si_code y"
  "list_all (report_line prefix) (diff_signal prefix x y m)"
  by (auto simp: diff_signal_def)

lemma diff_filter_empty:
  "length xs = n \<Longrightarrow> length ys = n \<Longrightarrow> filter (\<lambda>i. xs ! i \<noteq> ys ! i) [0..<n] = [] \<longleftrightarrow> xs = ys"
  by (auto simp: filter_empty_conv intro: nth_equalityI)

lemma loops_empty:
  assumes "wf_regs b ra" and "wf_regs b rb"
  shows "loop_over_gp_diff b ra rb = [] \<longleftrightarrow> gp ra = gp rb"
    "flag_FLOATS b \<Longrightarrow> \<not> (arch b = AARCH64 \<and> flag_VECTOR b) \<Longrightarrow> loop_over_fp_diff b ra rb = [] \<longleftrightarrow> fp ra = fp rb"
    "arch b = AARCH64 \<Longrightarrow> flag_VECTOR b \<Longrightarrow> vec ra = vec rb \<Longrightarrow> loop_over_fp_diff b ra rb = []"
    "flag_VECTOR b \<Longrightarrow> loop_over_vector_regs_diff b ra rb = [] \<longleftrightarrow> vec ra = vec rb"
proof -
  have len: "length (gp ra) = gp_count b" "length (gp rb) = gp_count b" "flag_FLOATS b \<Longrightarrow> length (fp ra) = 32 \<and> length (fp rb) = 32"
    "flag_VECTOR b \<Longrightarrow> length (vec ra) = 32 \<and> length (vec rb) = 32"
    using assms by (auto simp: wf_regs_def)
  show "loop_over_gp_diff b ra rb = [] \<longleftrightarrow> gp ra = gp rb"
    using diff_filter_empty [OF len(1,2)] by (simp add: loop_over_gp_diff_def)
  show "loop_over_fp_diff b ra rb = [] \<longleftrightarrow> fp ra = fp rb" if "flag_FLOATS b" "\<not> (arch b = AARCH64 \<and> flag_VECTOR b)"
    using that len(3) diff_filter_empty [of "fp ra" 32 "fp rb"] by (simp only: loop_over_fp_diff_def fp_u_def if_False) simp
  show "loop_over_fp_diff b ra rb = []" if "arch b = AARCH64" "flag_VECTOR b" "vec ra = vec rb"
    using that by (simp add: loop_over_fp_diff_def fp_u_def)
  show "loop_over_vector_regs_diff b ra rb = [] \<longleftrightarrow> vec ra = vec rb" if "flag_VECTOR b"
    using that len(4) diff_filter_empty [of "vec ra" 32 "vec rb"] by (simp add: loop_over_vector_regs_diff_def)
qed

lemma diff_gp_printed:
  assumes "valid_build b" and "wf_regs b ra" and "wf_regs b rb"
  shows "\<exists>ls. diff_gp b prefix ra rb m = Inr ls \<and> list_all (report_line prefix) ls \<and>
    (ls = [] \<longleftrightarrow> gp ra = gp rb \<and> (arch b = AARCH64 \<longrightarrow> pstate ra = pstate rb) \<and>
       (arch b = AARCH64 \<and> (flag_FLOATS b \<or> flag_VECTOR b) \<longrightarrow> fpsr ra = fpsr rb) \<and>
       (arch b = RISCV64 \<and> flag_FLOATS b \<longrightarrow> fcsr ra = fcsr rb))"
proof -
  obtain gps where g: "map_res (\<lambda>(i, x, y). named_line prefix (get_abi_name b i) x y m) (loop_over_gp_diff b ra rb) = Inr gps"
      "list_all (report_line prefix) gps" "gps = [] \<longleftrightarrow> gp ra = gp rb"
    using rows_printed [of "loop_over_gp_diff b ra rb" "get_abi_name b" "\<lambda>n x y. named_line prefix n x y m" "report_line prefix"]
      gp_named [OF assms(1)] named_line_printed loops_empty(1) [OF assms(2,3)] by blast
  have s: "\<exists>l. named_line prefix (Inr n) x y m = Inr l \<and> report_line prefix l" if "n = ''fpsr'' \<or> n = ''fcsr''" for n x y
    using that by (intro named_line_printed) auto
  have start: "report_line prefix (prefix @ ''gp diffs:'')" by (rule report_lineI) simp_all
  show ?thesis
    using g start s [of "''fpsr''" "fpsr ra" "fpsr rb"] s [of "''fcsr''" "fcsr ra" "fcsr rb"] status_names [of b]
    by (cases "arch b"; cases "flag_FLOATS b"; cases "flag_VECTOR b") (auto simp: diff_gp_def)
qed

lemma diff_fp_printed:
  assumes "valid_build b" and "wf_regs b ra" and "wf_regs b rb"
  shows "\<exists>ls. diff_fp b prefix ra rb m = Inr ls \<and> list_all (report_line prefix) ls \<and>
    (ls = [] \<longleftrightarrow> ((flag_FLOATS b \<or> arch b = AARCH64 \<and> flag_VECTOR b) \<longrightarrow> loop_over_fp_diff b ra rb = []))"
proof (cases "flag_FLOATS b \<or> arch b = AARCH64 \<and> flag_VECTOR b")
  case True
  obtain fps where f: "map_res (\<lambda>(i, x, y). named_line prefix (get_abi_name_float b i) x y m) (loop_over_fp_diff b ra rb) = Inr fps"
      "list_all (report_line prefix) fps" "fps = [] \<longleftrightarrow> loop_over_fp_diff b ra rb = []"
    using rows_printed [of "loop_over_fp_diff b ra rb" "get_abi_name_float b" "\<lambda>n x y. named_line prefix n x y m" "report_line prefix"]
      fp_named [OF assms(1) True] named_line_printed by blast
  have "report_line prefix (prefix @ ''fp diffs (subset of vector):'')" "report_line prefix (prefix @ ''fp diffs:'')"
    by (rule report_lineI; simp)+
  with f True show ?thesis by (auto simp: diff_fp_def)
qed (auto simp: diff_fp_def)

lemma diff_vec_printed:
  assumes "valid_build b" and "wf_regs b ra" and "wf_regs b rb"
  shows "\<exists>ls. diff_vec b prefix ra rb m = Inr ls \<and> list_all (report_line prefix) ls \<and> (ls = [] \<longleftrightarrow> (flag_VECTOR b \<longrightarrow> vec ra = vec rb))"
proof (cases "flag_VECTOR b")
  case True
  let ?emit = "\<lambda>name x y. res_bind name (\<lambda>n. Inr (prefix @ ''  '' @ n @ '': '' @ fprint_vec_pair_diff_hex x y m))"
  have "\<exists>l. ?emit (Inr n) x y = Inr l \<and> report_line prefix l" if "newline \<notin> set n" for n x y
    using that report_lineI [of "''  '' @ n @ '': '' @ fprint_vec_pair_diff_hex x y m" prefix] by simp
  then obtain vecs where "map_res (\<lambda>(i, x, y). ?emit (get_abi_name b i) x y) (loop_over_vector_regs_diff b ra rb) = Inr vecs"
      "list_all (report_line prefix) vecs" "vecs = [] \<longleftrightarrow> vec ra = vec rb"
    using rows_printed [of "loop_over_vector_regs_diff b ra rb" "get_abi_name b" ?emit "report_line prefix"]
      vec_named [OF assms(1) True] loops_empty(4) [OF assms(2,3) True] by blast
  moreover have "report_line prefix (prefix @ ''vec diffs:'')" by (rule report_lineI) simp_all
  ultimately show ?thesis using True by (auto simp: diff_vec_def)
qed (simp add: diff_vec_def)

lemma diff_meta_printed:
  "diff_meta b prefix x y = [] \<longleftrightarrow> (flag_META b \<longrightarrow> meta_instret x = meta_instret y \<and> meta_cycle x = meta_cycle y)"
  "list_all (report_line prefix) (diff_meta b prefix x y)"
  by (auto simp: diff_meta_def intro!: report_lineI)

lemma diff_mem_change_printed:
  "diff_mem_change prefix i x y = [] \<longleftrightarrow> mem_change_equal x y"
  "list_all (report_line prefix) (diff_mem_change prefix i x y)"
  by (auto simp: diff_mem_change_def Let_def intro!: report_lineI)

lemma extra_mem_printed:
  "extra_mem prefix side k cs = [] \<longleftrightarrow> length cs \<le> k"
  "newline \<notin> set side \<Longrightarrow> list_all (report_line prefix) (extra_mem prefix side k cs)"
proof -
  show "extra_mem prefix side k cs = [] \<longleftrightarrow> length cs \<le> k"
    by (auto simp: extra_mem_def extra_mem_change_def)
  have "list_all (report_line prefix) (extra_mem_change prefix side i m)" if "newline \<notin> set side" for i m
    using that by (auto simp: extra_mem_change_def intro!: report_lineI)
  then show "newline \<notin> set side \<Longrightarrow> list_all (report_line prefix) (extra_mem prefix side k cs)"
    by (auto simp: extra_mem_def list_all_iff)
qed

lemma diff_mem_printed:
  "diff_mem b prefix xs ys = [] \<longleftrightarrow> (flag_CHECK_MEM b \<longrightarrow> list_all2 mem_change_equal xs ys)"
  "list_all (report_line prefix) (diff_mem b prefix xs ys)"
proof -
  define es where "es = concat (map (\<lambda>i. diff_mem_change prefix i (xs ! i) (ys ! i)) [0..<min (length xs) (length ys)])
    @ extra_mem prefix ''A'' (min (length xs) (length ys)) xs @ extra_mem prefix ''B'' (min (length xs) (length ys)) ys"
  have ls: "diff_mem b prefix xs ys =
      (if \<not> flag_CHECK_MEM b then []
       else if length xs \<noteq> length ys
       then (prefix @ ''mem_diffs: count '' @ fmt_d (length xs) @ '' -> '' @ fmt_d (length ys)) # es
       else section_lines (prefix @ ''mem_diffs:'') es)"
    by (simp only: diff_mem_def Let_def es_def)
  have "es = [] \<longleftrightarrow> list_all2 mem_change_equal xs ys" if "length xs = length ys"
    using that by (auto simp: es_def diff_mem_change_printed(1) extra_mem_printed(1) list_all2_conv_all_nth)
  then show "diff_mem b prefix xs ys = [] \<longleftrightarrow> (flag_CHECK_MEM b \<longrightarrow> list_all2 mem_change_equal xs ys)"
    unfolding ls by (auto dest: list_all2_lengthD)
  have "list_all (report_line prefix) es"
    using diff_mem_change_printed(2) extra_mem_printed(2) [of "''A''"] extra_mem_printed(2) [of "''B''"]
    by (auto simp: es_def list_all_iff)
  moreover have "report_line prefix (prefix @ ''mem_diffs:'')"
    "report_line prefix (prefix @ ''mem_diffs: count '' @ fmt_d (length xs) @ '' -> '' @ fmt_d (length ys))"
    by (rule report_lineI; simp)+
  ultimately show "list_all (report_line prefix) (diff_mem b prefix xs ys)"
    unfolding ls by (simp split: if_split)
qed

lemma print_result_diff_printed:
  assumes "valid_build b" and "wf_regs b (regs_result x)" and "wf_regs b (regs_result y)"
  obtains ls where
    "print_result_diff b x y prefix m = Inr (if ls = [] then [prefix @ ''no result differences''] else ls)"
    "list_all (report_line prefix) ls"
    "ls = [] \<longleftrightarrow> result_equal b x y \<and> (flag_META b \<longrightarrow> meta_instret x = meta_instret y \<and> meta_cycle x = meta_cycle y)"
proof -
  let ?ra = "regs_result x" and ?rb = "regs_result y"
  obtain gps where g: "diff_gp b prefix ?ra ?rb m = Inr gps" "list_all (report_line prefix) gps"
      "gps = [] \<longleftrightarrow> gp ?ra = gp ?rb \<and> (arch b = AARCH64 \<longrightarrow> pstate ?ra = pstate ?rb) \<and>
         (arch b = AARCH64 \<and> (flag_FLOATS b \<or> flag_VECTOR b) \<longrightarrow> fpsr ?ra = fpsr ?rb) \<and>
         (arch b = RISCV64 \<and> flag_FLOATS b \<longrightarrow> fcsr ?ra = fcsr ?rb)"
    using diff_gp_printed [OF assms] by blast
  obtain fps where f: "diff_fp b prefix ?ra ?rb m = Inr fps" "list_all (report_line prefix) fps"
      "fps = [] \<longleftrightarrow> ((flag_FLOATS b \<or> arch b = AARCH64 \<and> flag_VECTOR b) \<longrightarrow> loop_over_fp_diff b ?ra ?rb = [])"
    using diff_fp_printed [OF assms] by blast
  obtain vecs where v: "diff_vec b prefix ?ra ?rb m = Inr vecs" "list_all (report_line prefix) vecs"
      "vecs = [] \<longleftrightarrow> (flag_VECTOR b \<longrightarrow> vec ?ra = vec ?rb)"
    using diff_vec_printed [OF assms] by blast
  define ls where "ls = diff_signal prefix x y m @ gps @ fps @ vecs @ diff_meta b prefix x y
      @ diff_mem b prefix (mem_changes x) (mem_changes y)"
  have "regs_memeq b ?ra ?rb \<longleftrightarrow> gps = [] \<and> fps = [] \<and> vecs = []"
    using loops_empty(2,3) [OF assms(2,3)] assms(1) unfolding regs_memeq_banks [OF assms(2,3)] g(3) f(3) v(3)
    by (cases "arch b") (auto simp: valid_build_def)
  then have "ls = [] \<longleftrightarrow> result_equal b x y \<and> (flag_META b \<longrightarrow> meta_instret x = meta_instret y \<and> meta_cycle x = meta_cycle y)"
    by (auto simp: ls_def diff_signal_empty(1) diff_meta_printed(1) diff_mem_printed(1) result_equal_iff)
  moreover have "list_all (report_line prefix) ls"
    using g(2) f(2) v(2) by (simp add: ls_def diff_signal_empty(2) diff_meta_printed(2) diff_mem_printed(2))
  moreover have "print_result_diff b x y prefix m = Inr (if ls = [] then [prefix @ ''no result differences''] else ls)"
    using g(1) f(1) v(1) by (simp add: print_result_diff_def ls_def Let_def)
  ultimately show thesis using that by blast
qed

section \<open>The header consists of comments\<close>

lemma report_comment: "report_line ''# '' l \<Longrightarrow> comment_line l"
  by (auto simp: report_line_def comment_line_def starts_with_def)

lemma commentI: "newline \<notin> set x \<Longrightarrow> comment_line (''# '' @ x)"
  by (auto simp: comment_line_def starts_with_def)

lemma emit_comments:
  "newline \<notin> set label \<Longrightarrow> comment_line (regdiff_emit_scalar t ''# '' False label x y)"
  "newline \<notin> set label \<Longrightarrow> comment_line (regdiff_emit_fp_scalar t ''# '' False label x y d)"
  "newline \<notin> set label \<Longrightarrow> comment_line (regdiff_emit_vec t ''# '' False label u v)"
  by (auto simp: regdiff_emit_scalar_def regdiff_emit_fp_scalar_def regdiff_emit_vec_def aligned_label_def comment_line_def
      starts_with_def)

text \<open>
  The register differences are always printed, and every line has a property that all rows and section
  starts have.
\<close>

lemma row_lines:
  assumes "newline \<notin> set n" and "\<And>label. newline \<notin> set label \<Longrightarrow> P (emit label)"
  shows "\<exists>l. row (Inr n) emit = Inr l \<and> P l"
proof -
  have "newline \<notin> set (take 15 (n @ '':''))" using assms(1) by (auto dest: in_set_takeD)
  then show ?thesis using assms(2) by (simp add: row_def del: take_append)
qed

lemma reg_diff_lines:
  assumes "valid_build b"
    and emit: "\<And>label x y. newline \<notin> set label \<Longrightarrow> P (regdiff_emit_scalar t prefix color_on label x y)"
      "\<And>label x y d. newline \<notin> set label \<Longrightarrow> P (regdiff_emit_fp_scalar t prefix color_on label x y d)"
      "\<And>label u v. newline \<notin> set label \<Longrightarrow> P (regdiff_emit_vec t prefix color_on label u v)"
    and begins: "\<And>n. newline \<notin> set n \<Longrightarrow> P (regdiff_begin_section prefix color_on n)"
  shows "\<exists>ls. print_reg_diff_opts b t prefix before after color_on = Inr ls \<and> list_all P ls"
proof -
  have rows: "\<exists>l. row (Inr n) (\<lambda>label. regdiff_emit_scalar t prefix color_on label x y) = Inr l \<and> P l"
    "\<exists>l. row (Inr n) (\<lambda>label. regdiff_emit_fp_scalar t prefix color_on label x y d) = Inr l \<and> P l"
    "\<exists>l. row (Inr n) (\<lambda>label. regdiff_emit_vec t prefix color_on label u v) = Inr l \<and> P l"
    if "newline \<notin> set n" for n x y d u v
    by (rule row_lines [OF that], erule emit)+
  obtain gps where g: "map_res (\<lambda>(i, x, y). row (get_abi_name b i) (\<lambda>label. regdiff_emit_scalar t prefix color_on label x y))
        (loop_over_gp_diff b before after) = Inr gps" "list_all P gps"
    using rows_printed [of "loop_over_gp_diff b before after" "get_abi_name b"
        "\<lambda>n x y. row n (\<lambda>label. regdiff_emit_scalar t prefix color_on label x y)" P]
      gp_named [OF assms(1)] rows(1) by blast
  obtain vecs where v: "flag_VECTOR b \<Longrightarrow> map_res (\<lambda>(i, x, y). row (get_abi_name b i) (\<lambda>label. regdiff_emit_vec t prefix color_on label x y))
        (loop_over_vector_regs_diff b before after) = Inr vecs" "list_all P vecs"
    using rows_printed [of "loop_over_vector_regs_diff b before after" "get_abi_name b"
        "\<lambda>n x y. row n (\<lambda>label. regdiff_emit_vec t prefix color_on label x y)" P]
      vec_named [OF assms(1)] rows(3) by (cases "flag_VECTOR b") (blast, metis list.pred_inject(1))
  obtain fps where f: "flag_FLOATS b \<or> arch b = AARCH64 \<and> flag_VECTOR b \<Longrightarrow>
        map_res (\<lambda>(i, x, y). row (get_abi_name_float b i) (\<lambda>label. regdiff_emit_fp_scalar t prefix color_on label x y (arch b = RISCV64)))
        (loop_over_fp_diff b before after) = Inr fps" "list_all P fps"
    using rows_printed [of "loop_over_fp_diff b before after" "get_abi_name_float b"
        "\<lambda>n x y. row n (\<lambda>label. regdiff_emit_fp_scalar t prefix color_on label x y (arch b = RISCV64))" P]
      fp_named [OF assms(1)] rows(2)
    by (cases "flag_FLOATS b \<or> arch b = AARCH64 \<and> flag_VECTOR b") (blast, metis list.pred_inject(1))
  have st: "\<exists>l. row (Inr n) (\<lambda>label. regdiff_emit_scalar t prefix color_on label x y) = Inr l \<and> P l"
    if "n = ''fpsr'' \<or> n = ''fcsr''" for n x y
    using that by (intro rows(1)) auto
  show ?thesis
  proof (cases "arch b")
    case RISCV64
    moreover have "get_abi_name_float b i = get_abi_name b i" for i using RISCV64 by (simp add: get_abi_name_float_def)
    ultimately show ?thesis
      using g v f st [of "''fcsr''" "fcsr before" "fcsr after"] status_names(2) [of b]
      by (cases "flag_FLOATS b"; cases "flag_VECTOR b") (auto simp: print_reg_diff_opts_def Let_def begins)
  next
    case AARCH64
    then show ?thesis
      using g v f st [of "''fpsr''" "fpsr before" "fpsr after"] status_names(1) [of b]
        emit(1) [of "''pstate:''" "pstate before" "pstate after"]
      by (cases "flag_FLOATS b"; cases "flag_VECTOR b") (auto simp: print_reg_diff_opts_def Let_def begins)
  qed
qed

lemma reg_diff_comments:
  assumes "valid_build b"
  shows "\<exists>ls. print_reg_diff_opts b t ''# '' before after False = Inr ls \<and> list_all comment_line ls"
proof (rule reg_diff_lines [OF assms emit_comments])
  show "comment_line (regdiff_begin_section ''# '' False n)" if "newline \<notin> set n" for n
    using that commentI [of "n @ '':''"] by (simp add: regdiff_begin_section_def)
qed

lemma print_result_total: "valid_build b \<Longrightarrow> \<exists>out. print_result b t before r = Inr out"
  using reg_diff_lines [of b "\<lambda>_. True" t "[]" "te_color t" before "regs_result r"]
  by (auto simp: print_result_def print_result_opt_def)

lemma print_result_comments:
  assumes "valid_build b" and "newline \<notin> set (te_strsignal t (signum r))"
  shows "\<exists>ls. print_result_opt b t ''# '' before r False = Inr ls \<and> list_all comment_line ls"
proof -
  obtain diffs where d: "print_reg_diff_opts b t ''# '' before (regs_result r) False = Inr diffs" "list_all comment_line diffs"
    using reg_diff_comments [OF assms(1)] by blast
  have "list_all comment_line (print_signal t ''# '' r False)"
    using assms(2) by (auto simp: print_signal_def aligned_label_def comment_line_def starts_with_def)
  moreover have "comment_line (print_mem_change ''# '' c)" for c
    by (auto simp: print_mem_change_def comment_line_def starts_with_def)
  then have "list_all comment_line (print_mem b ''# '' (mem_changes r))"
    by (auto simp: print_mem_def list_all_iff) (auto simp: comment_line_def starts_with_def)
  moreover have "comment_line (''# meta:'')" "comment_line (''#   instret: '' @ fmt_d n)" "comment_line (''#   cycle: '' @ fmt_d n)" for n
    by (auto simp: comment_line_def starts_with_def)
  ultimately show ?thesis using d by (simp add: print_result_opt_def)
qed

definition printable_items :: "build \<Rightarrow> term_env \<Rightarrow> (result \<times> cpu_info option) list \<Rightarrow> bool" where
  "printable_items b t items \<longleftrightarrow>
     list_all (\<lambda>(x, cpu). wf_regs b (regs_result x) \<and> newline \<notin> set (te_strsignal t (signum x))) items"

lemma summary_comments:
  assumes "valid_build b" and "host_text h" and "newline \<notin> set (te_strsignal t (signum x))"
  shows "\<exists>ls. summary b t h before (i, x, cpu) = Inr ls \<and> list_all comment_line ls"
proof -
  obtain ls where ls: "print_result_opt b t ''# '' before x False = Inr ls" "list_all comment_line ls"
    using print_result_comments [OF assms(1,3)] by blast
  have "comment_line (''# === Result '' @ fmt_d i @ '' ==='')" by (auto simp: comment_line_def starts_with_def)
  moreover have dev: "comment_line (''# '' @ or_unknown (midr_to_vendor b w) @ '' '' @ or_unknown (midr_to_microarch b w) @ '' 0x'' @
      fmt_0x 8 (unat w) @ '' ('' @ (if host \<noteq> [] then host else ''unknown'') @ build_vec_suffix b @ '')'')"
    if "newline \<notin> set host" for w host
    using midr_text [of b w] that by (intro commentI) (auto simp: build_vec_suffix_def)
  ultimately show ?thesis
    using ls dev [OF hostname_text [OF assms(2)], of "midr (the cpu)"] by (cases cpu) (simp_all add: summary_def Let_def)
qed

lemma header_comments:
  assumes "valid_build b" and "host_text h" and "printable_items b t items"
  shows "\<exists>header. log_repro_header b t h items before = Inr header \<and> list_all comment_line header"
proof -
  have item: "wf_regs b (regs_result x)" "newline \<notin> set (te_strsignal t (signum x))" if "(x, cpu) \<in> set items" for x cpu
    using assms(3) that by (auto simp: printable_items_def list_all_iff)
  have "\<exists>ls. summary b t h before z = Inr ls \<and> list_all comment_line ls" if z: "z \<in> set (enumerate 0 items)" for z
  proof -
    obtain i x cpu where "z = (i, x, cpu)" by (cases z)
    moreover from this have "(x, cpu) \<in> set items" using z by (auto simp: enumerate_eq_zip dest: set_zip_rightD)
    ultimately show ?thesis using summary_comments [OF assms(1,2) item(2)] by blast
  qed
  then obtain sums where s: "map_res (summary b t h before) (enumerate 0 items) = Inr sums" "list_all (list_all comment_line) sums"
    using map_res_all [of "enumerate 0 items" "summary b t h before" "list_all comment_line"] by blast
  have "\<exists>diff. (case items of x # y # _ \<Rightarrow> res_bind (print_result_diff b (fst x) (fst y) ''# '' False) (\<lambda>ls. Inr (''# === Diff ==='' # ls))
      | _ \<Rightarrow> Inr []) = Inr diff \<and> list_all comment_line diff"
  proof (cases "\<exists>x y zs. items = x # y # zs")
    case True
    then obtain x y zs where xy: "items = x # y # zs" by blast
    then have "wf_regs b (regs_result (fst x))" "wf_regs b (regs_result (fst y))"
      using item(1) [of "fst x" "snd x"] item(1) [of "fst y" "snd y"] by simp_all
    then obtain ls where ls: "print_result_diff b (fst x) (fst y) ''# '' False = Inr (if ls = [] then [''# '' @ ''no result differences''] else ls)"
        "list_all (report_line ''# '') ls"
      by (rule print_result_diff_printed [OF assms(1)])
    have "list_all comment_line ls" using ls(2) report_comment by (rule list.pred_mono_strong)
    then show ?thesis using ls(1) xy by (auto simp: comment_line_def starts_with_def)
  next
    case False
    then show ?thesis by (auto split: list.split)
  qed
  then show ?thesis using s by (auto simp: log_repro_header_def list_all_iff)
qed

section \<open>Properties\<close>

text \<open>
  C18. The difference report agrees with the comparison: \<open>print_result_diff\<close> always returns, and it says
  that there are no differences exactly when \<open>result_equal\<close> holds and, on a build with counters, the
  counters agree; otherwise it says something else. This holds with and without colours.
\<close>

theorem report_agrees_with_equality:
  assumes "valid_build b" and "wf_regs b (regs_result x)" and "wf_regs b (regs_result y)"
  shows "\<exists>ls. print_result_diff b x y prefix color_on = Inr ls \<and> ls \<noteq> [] \<and>
    (prefix @ ''no result differences'' \<in> set ls \<longleftrightarrow>
       result_equal b x y \<and> (flag_META b \<longrightarrow> meta_instret x = meta_instret y \<and> meta_cycle x = meta_cycle y))"
proof -
  obtain ls where ls: "print_result_diff b x y prefix color_on = Inr (if ls = [] then [prefix @ ''no result differences''] else ls)"
      "list_all (report_line prefix) ls"
      "ls = [] \<longleftrightarrow> result_equal b x y \<and> (flag_META b \<longrightarrow> meta_instret x = meta_instret y \<and> meta_cycle x = meta_cycle y)"
    by (rule print_result_diff_printed [OF assms])
  have "prefix @ ''no result differences'' \<notin> set ls"
    using ls(2) by (auto simp: list_all_iff report_line_def)
  with ls(1,3) show ?thesis by auto
qed

text \<open>A one-instruction input with one mapping, run on the zero registers of a build.\<close>

definition sample_mapping :: mapping where
  "sample_mapping = \<lparr>map_start = 0x10000, map_n = 8, map_prot = 3, map_val = [1, 2, 3, 4, 5, 6, 7, 8], map_rw = [9]\<rparr>"

definition sample_host :: host_env where
  "sample_host = \<lparr>he_hostname = Some ''lab39'', he_serialno = [], he_model = [], he_product = [], he_HOST = None,
     he_nodename = ''lab39'', he_asimd = False\<rparr>"

definition sample_term :: term_env where
  "sample_term = \<lparr>te_color = False, te_double = (\<lambda>_. ''1''), te_float = (\<lambda>_. ''1''), te_strsignal = (\<lambda>_. ''Illegal instruction'')\<rparr>"

definition plain_build :: build where
  "plain_build = \<lparr>arch = AARCH64, flag_VECTOR = False, flag_FLOATS = False, flag_CHECK_MEM = False,
     flag_AUTO_MAP_MEM = False, flag_AUTO_MAP_MEM_RW_PROT = False, flag_META = False, MAX_SEQ_LEN = 1\<rparr>"

definition sample_outcome :: "build \<Rightarrow> i32 \<Rightarrow> result" where
  "sample_outcome b sig = \<lparr>signum = sig, si_addrr = 0, si_pc = 0x1000, instr_idx = 1, si_code = 1,
     regs_result = zero_regs b, meta_cycle = 0, meta_instret = 0, mem_changes = []\<rparr>"

theorem report_agrees_with_equality_witness:
  "\<exists>ls. print_result_diff riscv_vector_build (sample_outcome riscv_vector_build 4) (sample_outcome riscv_vector_build 0) ''# '' False = Inr ls \<and>
     ''# '' @ ''no result differences'' \<notin> set ls"
proof -
  have "valid_build riscv_vector_build" by code_simp
  from report_agrees_with_equality [OF this, of "sample_outcome riscv_vector_build 4" "sample_outcome riscv_vector_build 0" "''# ''" False]
  show ?thesis by (auto simp: sample_outcome_def result_equal_def)
qed

text \<open>What is written is loaded again.\<close>

lemma log_repro_loads:
  assumes "valid_build b" and "some_flag b" and "printable_input b disasm instr_seq r ms"
    and "wf_regs b old" and "host_text h" and "newline \<notin> set git_commit" and "printable_items b t items"
  shows "\<exists>file. log_repro b t disasm h num_cpus git_commit items instr_seq r ms = Inr file \<and>
           (\<forall>fuel > length file.
              \<exists>midrs. load_repro fuel b malloced (unlines file) old =
                Some (Inr (\<lparr>rp_regs = restored_regs b r old, rp_instr_seq = instr_seq,
                            rp_mappings = map (\<lambda>m. m\<lparr>map_rw := []\<rparr>) ms\<rparr>, midrs)))"
proof -
  obtain header where "log_repro_header b t h items r = Inr header" "list_all comment_line header"
    using header_comments [OF assms(1,5,7)] by blast
  with yaml_round_trip [OF assms(1-6), of header num_cpus items malloced] show ?thesis
    by (auto simp: log_repro_def)
qed

text \<open>
  C17. A reproducer file gives back the input it was written for. For a build with at least one flag, the
  file \<open>log_repro\<close> writes (the commented difference and summaries, then the YAML section) is always
  written, and \<open>load_repro\<close> returns on it, after at most one iteration a line, with exactly the logged
  instruction sequence, the registers and the mappings, whatever results and client blocks the file has.
\<close>

theorem repro_round_trip:
  assumes "valid_build b" and "some_flag b" and "printable_input b disasm instr_seq r ms"
    and "wf_regs b old" and "host_text h" and "newline \<notin> set git_commit" and "printable_items b t items"
  shows "\<exists>file. log_repro b t disasm h num_cpus git_commit items instr_seq r ms = Inr file \<and>
           (\<forall>fuel > length file.
              \<exists>midrs. load_repro fuel b malloced (unlines file) old =
                Some (Inr (\<lparr>rp_regs = restored_regs b r old, rp_instr_seq = instr_seq,
                            rp_mappings = map (\<lambda>m. m\<lparr>map_rw := []\<rparr>) ms\<rparr>, midrs)))"
  using assms by (rule log_repro_loads)

theorem repro_round_trip_witness:
  "\<exists>file. log_repro riscv_vector_build sample_term (\<lambda>_. Some ''nop'') sample_host 4 ''abc''
            [(sample_outcome riscv_vector_build 4, None), (sample_outcome riscv_vector_build 0, None)] [0x13] (zero_regs riscv_vector_build)
            [sample_mapping] = Inr file \<and>
     (\<forall>fuel > length file.
        \<exists>midrs. load_repro fuel riscv_vector_build (\<lambda>n. replicate n 0) (unlines file) (zero_regs riscv_vector_build) =
          Some (Inr (\<lparr>rp_regs = restored_regs riscv_vector_build (zero_regs riscv_vector_build) (zero_regs riscv_vector_build),
                      rp_instr_seq = [0x13], rp_mappings = map (\<lambda>m. m\<lparr>map_rw := []\<rparr>) [sample_mapping]\<rparr>, midrs)))"
proof -
  have "valid_build riscv_vector_build" "some_flag riscv_vector_build" "host_text sample_host"
    by (simp_all add: valid_build_def riscv_vector_build_def some_flag_def host_text_def sample_host_def)
  moreover have "printable_input riscv_vector_build (\<lambda>_. Some ''nop'') [0x13] (zero_regs riscv_vector_build) [sample_mapping]"
    by (simp add: printable_input_def storable_def sample_mapping_def) (simp add: riscv_vector_build_def)
  moreover have "newline \<notin> set ''abc''"
    "printable_items riscv_vector_build sample_term [(sample_outcome riscv_vector_build 4, None), (sample_outcome riscv_vector_build 0, None)]"
    by (simp_all add: printable_items_def sample_term_def sample_outcome_def)
  ultimately show ?thesis by (intro repro_round_trip) simp_all
qed

text \<open>
  C19. A build without any flag cannot read its own reproducers: it writes the line \<^verbatim>\<open>flags: []\<close>, and the
  loop of \<open>load_repro\<close> never ends on the file, because the branch for this line checks the flags and
  continues without fetching the next line. No fuel is enough.
\<close>

theorem flags_empty_hangs:
  assumes "valid_build b" and "\<not> some_flag b" and "\<not> flag_AUTO_MAP_MEM_RW_PROT b"
    and "printable_input b disasm instr_seq r ms" and "wf_regs b old" and "host_text h"
    and "newline \<notin> set git_commit" and "printable_items b t items"
  shows "\<exists>file. log_repro b t disasm h num_cpus git_commit items instr_seq r ms = Inr file \<and>
           (\<forall>fuel. load_repro fuel b malloced (unlines file) old = None)"
proof -
  obtain header where "log_repro_header b t h items r = Inr header" "list_all comment_line header"
    using header_comments [OF assms(1,6,8)] by blast
  with yaml_hangs [OF assms(1-7), of header num_cpus items malloced] show ?thesis
    by (auto simp: log_repro_def)
qed

theorem flags_empty_hangs_witness:
  "\<exists>file. log_repro plain_build sample_term (\<lambda>_. Some ''nop'') sample_host 4 ''abc'' [(sample_outcome plain_build 4, None)]
            [0xd503201f] (zero_regs plain_build) [] = Inr file \<and>
     (\<forall>fuel. load_repro fuel plain_build (\<lambda>n. replicate n 0) (unlines file) (zero_regs plain_build) = None)"
proof -
  have "valid_build plain_build" "\<not> some_flag plain_build" "\<not> flag_AUTO_MAP_MEM_RW_PROT plain_build"
    "host_text sample_host"
    by (simp_all add: valid_build_def plain_build_def some_flag_def host_text_def sample_host_def)
  moreover have "printable_input plain_build (\<lambda>_. Some ''nop'') [0xd503201f] (zero_regs plain_build) []"
    by (simp add: printable_input_def plain_build_def)
  moreover have "newline \<notin> set ''abc''" "printable_items plain_build sample_term [(sample_outcome plain_build 4, None)]"
    by (simp_all add: printable_items_def sample_term_def sample_outcome_def)
  ultimately show ?thesis by (intro flags_empty_hangs) simp_all
qed

end
