(* ===== verification/Undoc_Enum.thy ===== *)
theory Undoc_Enum
  imports Client Report
begin

text \<open>
  undoc-enum.c: the enumeration of undocumented instructions. The 2 ^ 32 instruction words are split
  into ranges that are in turn undefined and defined; every core type runs all undefined words, its
  cores each a part of them, and stores the words that do not trap as illegal. Here are the
  decompression of the ranges, a worker, the split among the cores and the monitor's test for the end.
  Positions are natural numbers; they stay far below 2 ^ 64.
\<close>

section \<open>The ranges\<close>

text \<open>
  \<^verbatim>\<open>archive_read_data\<close> asked for the free space of the buffer, call by call: a failure, or bytes, none
  at the end of the entry. It never returns more than it was asked for.
\<close>

definition grow :: "(nat \<Rightarrow> bool) \<Rightarrow> nat \<Rightarrow> nat \<Rightarrow> nat res" where
  "grow realloc cap used =
     (if cap - used < 2 ^ 16
      then if realloc (cap * 2) then Inr (cap * 2) else Inl (Exit EXIT_FAILURE ''realloc'')
      else Inr cap)"

fun read_ranges :: "(nat \<Rightarrow> bool) \<Rightarrow> (nat \<Rightarrow> u8 list option) list \<Rightarrow> nat \<Rightarrow> u8 list \<Rightarrow> u8 list res" where
  "read_ranges realloc [] cap out = Inr out"
| "read_ranges realloc (call # calls) cap out =
     res_bind (grow realloc cap (length out)) (\<lambda>cap'.
       case call (cap' - length out) of
         None \<Rightarrow> Inl (Exit EXIT_FAILURE ''archive_read_data failed'')
       | Some xs \<Rightarrow> if xs = [] then Inr out else read_ranges realloc calls cap' (out @ xs))"

definition decompress_ranges_or_die ::
  "u8 list option \<Rightarrow> bool \<Rightarrow> (nat \<Rightarrow> bool) \<Rightarrow> (nat \<Rightarrow> u8 list option) list \<Rightarrow> u8 list res" where
  "decompress_ranges_or_die ranges_buf opened malloc calls =
     (if ranges_buf \<noteq> None then Inl (Exit EXIT_FAILURE ''Ranges already decompressed'')
      else if \<not> opened then Inl (Exit EXIT_FAILURE ''archive_read_open_memory failed'')
      else if \<not> malloc (2 ^ 20) then Inl (Exit EXIT_FAILURE ''malloc'')
      else read_ranges malloc calls (2 ^ 20) [])"

text \<open>The buffer as an array of 32-bit numbers on aarch64, of bytes on riscv64.\<close>

definition ranges_of :: "build \<Rightarrow> u8 list \<Rightarrow> nat list" where
  "ranges_of b buf =
     (case arch b of
        AARCH64 \<Rightarrow> map (\<lambda>k. le_load (take 4 (drop (4 * k) buf))) [0..<length buf div 4]
      | RISCV64 \<Rightarrow> map unat buf)"

section \<open>A worker\<close>

text \<open>
  The \<open>n\<close>-th execution of a worker behaves as \<open>we_hw n\<close> says, so that trying again may help. What the
  C library has written of a text when the file descriptor is closed under the stream is \<open>we_flushed\<close>.
\<close>

record worker_env =
  we_build :: build
  we_hw :: "nat \<Rightarrow> hw"
  we_os_mapped :: "u64 \<Rightarrow> bool"
  we_garbage :: "u8 list"
  we_term :: term_env
  we_disasm :: "u32 \<Rightarrow> string option"
  we_host :: host_env
  we_num_cpus :: nat
  we_git_commit :: string
  we_flushed :: "string \<Rightarrow> string"
  we_pipe :: "nat \<Rightarrow> bool"
  we_cpu :: cpu_info

record worker =
  wk_runner :: runner
  wk_runs :: nat
  wk_progress :: u32
  wk_executed :: u32
  wk_undoc_counter :: u64
  wk_archive :: "(string \<times> string) list"

definition worker_regs :: "build \<Rightarrow> regs" where
  "worker_regs b = zero_status b (filler_regs b (zero_regs b))"

definition run_once :: "worker_env \<Rightarrow> nat \<Rightarrow> worker \<Rightarrow> (result \<times> worker) res" where
  "run_once e i w =
     res_bind (run_with_instr (we_build e) (we_hw e (wk_runs w)) (we_os_mapped e) (we_garbage e) (wk_runner w) (of_nat i)
                 (worker_regs (we_build e))) (\<lambda>(r, _, st).
       Inr (r, w\<lparr>wk_runner := st, wk_runs := wk_runs w + 1\<rparr>))"

fun run_tries :: "nat \<Rightarrow> worker_env \<Rightarrow> nat \<Rightarrow> worker \<Rightarrow> (result \<times> worker) res" where
  "run_tries 0 e i w = run_once e i w"
| "run_tries (Suc j) e i w =
     res_bind (run_once e i w) (\<lambda>(r, w'). if signum r \<noteq> SIGALRM then Inr (r, w') else run_tries j e i w')"

text \<open>
  Everything written is in the pipe when it is read, so the first \<^verbatim>\<open>read\<close> takes all that fits into the
  buffer of 40960 bytes; more would be overwritten and then read past the buffer's end.
\<close>

definition store_result :: "worker_env \<Rightarrow> nat \<Rightarrow> result \<Rightarrow> worker \<Rightarrow> worker res" where
  "store_result e i r w =
     (if \<not> we_pipe e (unat (wk_undoc_counter w)) then Inl (Exit 0 ''pipe'')
      else res_bind (log_repro (we_build e) (we_term e) (we_disasm e) (we_host e) (we_num_cpus e) (we_git_commit e)
                       [(r, Some (we_cpu e))] [of_nat i] (worker_regs (we_build e)) []) (\<lambda>file.
        let text = we_flushed e (unlines file)
        in if length text > 40960 then Inl (Undefined ''buffer'')
           else Inr (w\<lparr>wk_archive := wk_archive w @ [(fmt_0x 8 i @ ''.yaml'', text)],
                       wk_undoc_counter := wk_undoc_counter w + 1\<rparr>)))"

definition run_one :: "worker_env \<Rightarrow> nat \<Rightarrow> worker \<Rightarrow> worker res" where
  "run_one e i w =
     res_bind (run_tries 9 e i w) (\<lambda>(r, w1).
       let w2 = w1\<lparr>wk_executed := wk_executed w1 + 1\<rparr>
       in if signum r \<noteq> 4 then store_result e i r w2 else Inr w2)"

function scan_range :: "worker_env \<Rightarrow> nat \<Rightarrow> nat \<Rightarrow> nat \<Rightarrow> nat \<Rightarrow> worker \<Rightarrow> (nat \<times> worker) res" where
  "scan_range e start stop range_end i w =
     (if i < range_end
      then if i \<ge> stop then Inr (i, w)
           else let w1 = (if i mod 2 ^ 18 = 0 then w\<lparr>wk_progress := of_nat (min i stop - start)\<rparr> else w)
                in res_bind (run_one e i w1) (scan_range e start stop range_end (i + 1))
      else Inr (i, w))"
  by pat_completeness auto
termination
  by (relation "measure (\<lambda>(e, start, stop, range_end, i, w). range_end - i)") auto

function scan_ranges :: "worker_env \<Rightarrow> nat list \<Rightarrow> nat \<Rightarrow> nat \<Rightarrow> nat \<Rightarrow> nat \<Rightarrow> bool \<Rightarrow> worker \<Rightarrow> worker res" where
  "scan_ranges e ranges start stop index i cur_range_undef w =
     (if i < stop
      then if index \<ge> length ranges then Inl (Undefined ''ranges'')
           else res_bind (if cur_range_undef
                          then scan_range e start stop (i + ranges ! index) (if i < start then start else i) w
                          else Inr (i + ranges ! index, w)) (\<lambda>(i', w').
                res_bind (c_assert (index < length ranges) ''index < ranges_n'') (\<lambda>_.
                  scan_ranges e ranges start stop (index + 1) i' (\<not> cur_range_undef)
                    (w'\<lparr>wk_progress := of_nat (min i' stop - start)\<rparr>)))
      else Inr w)"
  by pat_completeness auto
termination
  by (relation "measure (\<lambda>(e, ranges, start, stop, index, i, u, w). length ranges - index)") auto

text \<open>Ranges that end before the start are skipped.\<close>

function skip :: "nat list \<Rightarrow> nat \<Rightarrow> nat \<Rightarrow> nat \<Rightarrow> bool \<Rightarrow> (nat \<times> nat \<times> bool) res" where
  "skip ranges start index i cur_range_undef =
     (if index \<ge> length ranges then Inl (Undefined ''ranges'')
      else if i + ranges ! index < start then skip ranges start (index + 1) (i + ranges ! index) (\<not> cur_range_undef)
      else Inr (index, i, cur_range_undef))"
  by pat_completeness auto
termination
  by (relation "measure (\<lambda>(ranges, start, index, i, u). length ranges - index)") auto

declare scan_range.simps [simp del] scan_ranges.simps [simp del] skip.simps [simp del]

definition worker_main :: "worker_env \<Rightarrow> nat list \<Rightarrow> nat \<Rightarrow> nat \<Rightarrow> worker \<Rightarrow> worker res" where
  "worker_main e ranges start stop w =
     res_bind (skip ranges start 0 0 True) (\<lambda>(index, i, u). scan_ranges e ranges start stop index i u w)"

section \<open>The cores of a type\<close>

definition space :: nat where "space = 2 ^ 32"

definition tmp_start :: "nat \<Rightarrow> nat \<Rightarrow> nat" where
  "tmp_start count j = (space + 1) div count * j"

definition tmp_end :: "nat \<Rightarrow> nat \<Rightarrow> nat" where
  "tmp_end count j = (if j + 1 = count then space else (space + 1) div count * (j + 1))"

text \<open>The workers that are forked: core, first and last position.\<close>

definition spawned :: "core_type list \<Rightarrow> (cpu_info \<times> nat \<times> nat) list" where
  "spawned types =
     concat (map (\<lambda>t. map (\<lambda>j. (ct_cpus t ! j, tmp_start (length (ct_cpus t)) j, tmp_end (length (ct_cpus t)) j))
                       [0..<length (ct_cpus t)]) types)"

text \<open>The statistics are an array with one entry per processor found, indexed by processor number.\<close>

definition stat_at :: "u32 list \<Rightarrow> u32 \<Rightarrow> u32 res" where
  "stat_at stats core = (if unat core < length stats then Inr (stats ! unat core) else Inl (Undefined ''stats''))"

definition type_progress :: "u32 list \<Rightarrow> core_type \<Rightarrow> u64 res" where
  "type_progress stats t =
     res_bind (map_res (\<lambda>c. stat_at stats (processor c)) (ct_cpus t)) (\<lambda>ps. Inr (sum_list (map ucast ps)))"

text \<open>One round of the monitor: whether it quits.\<close>

definition all_finished :: "u32 list \<Rightarrow> core_type list \<Rightarrow> bool res" where
  "all_finished stats types =
     res_bind (map_res (\<lambda>t. type_progress stats t) types) (\<lambda>ps.
       Inr (length (filter (\<lambda>p. of_nat space \<le> p) ps) = length types))"

section \<open>What a worker runs\<close>

text \<open>Whether a word is undefined, by the ranges from a position on.\<close>

fun undef_at :: "nat list \<Rightarrow> bool \<Rightarrow> nat \<Rightarrow> bool" where
  "undef_at [] u v = False"
| "undef_at (n # ns) u v = (if v < n then u else undef_at ns (\<not> u) (v - n))"

text \<open>The reference: the words of a list, one after the other.\<close>

fun run_all :: "worker_env \<Rightarrow> nat list \<Rightarrow> worker \<Rightarrow> worker res" where
  "run_all e [] w = Inr w"
| "run_all e (v # vs) w = res_bind (run_one e v w) (run_all e vs)"

lemma run_all_append [simp]: "run_all e (us @ vs) w = res_bind (run_all e us w) (run_all e vs)"
proof (induction us arbitrary: w)
  case (Cons v us)
  then show ?case by (cases "run_one e v w") simp_all
qed simp

abbreviation clr :: "worker \<Rightarrow> worker" where
  "clr w \<equiv> w\<lparr>wk_progress := 0\<rparr>"

lemma run_once_clr: "run_once e i (clr w) = res_bind (run_once e i w) (\<lambda>(r, w'). Inr (r, clr w'))"
  by (simp add: run_once_def res_bind_def split: sum.split)

lemma run_tries_clr: "run_tries j e i (clr w) = res_bind (run_tries j e i w) (\<lambda>(r, w'). Inr (r, clr w'))"
proof (induction j arbitrary: w)
  case (Suc j)
  show ?case by (cases "run_once e i w") (auto simp: run_once_clr Suc.IH)
qed (simp add: run_once_clr)

lemma run_one_clr: "run_one e i (clr w) = res_bind (run_one e i w) (\<lambda>w'. Inr (clr w'))"
  by (cases "run_tries 9 e i w")
    (auto simp: run_one_def run_tries_clr store_result_def Let_def, simp add: res_bind_def split: sum.split)

lemma scan_range_runs:
  "res_bind (scan_range e start stop m i w) (\<lambda>(i', w'). Inr (i', clr w')) =
   res_bind (run_all e [i..<min m stop] (clr w)) (\<lambda>w'. Inr (max i (min m stop), w'))"
proof (induction e start stop m i w rule: scan_range.induct)
  case (1 e start stop m i w)
  show ?case
  proof (cases "i < m \<and> i < stop")
    case True
    let ?w = "if i mod 2 ^ 18 = 0 then w\<lparr>wk_progress := of_nat (min i stop - start)\<rparr> else w"
    have clr: "clr ?w = clr w" by simp
    have words: "[i..<min m stop] = i # [i + 1..<min m stop]" "max (i + 1) (min m stop) = max i (min m stop)"
      using True by (simp_all add: upt_rec)
    have "scan_range e start stop m i w = res_bind (run_one e i ?w) (scan_range e start stop m (i + 1))"
      using True by (subst scan_range.simps) (simp add: Let_def)
    moreover have "run_one e i (clr w) = res_bind (run_one e i ?w) (\<lambda>w'. Inr (clr w'))"
      using run_one_clr [of e i ?w] unfolding clr .
    ultimately show ?thesis
      using "1.IH" [OF _ _ refl] True unfolding words by (cases "run_one e i ?w") simp_all
  next
    case False
    then have "scan_range e start stop m i w = Inr (i, w)" "min m stop \<le> i"
      by (subst scan_range.simps, auto)
    then show ?thesis by simp
  qed
qed

lemma skip_finds:
  assumes "start \<le> i + sum_list (drop index ranges)" and "index < length ranges"
  shows "\<exists>index' i' u'. skip ranges start index i u = Inr (index', i', u') \<and> index' < length ranges \<and>
     start \<le> i' + ranges ! index' \<and> i' + sum_list (drop index' ranges) = i + sum_list (drop index ranges) \<and>
     (i \<le> start \<longrightarrow> i' \<le> start) \<and>
     (\<forall>v \<ge> start. undef_at (drop index ranges) u (v - i) = undef_at (drop index' ranges) u' (v - i'))"
  using assms
proof (induction ranges start index i u rule: skip.induct)
  case (1 ranges start index i u)
  let ?n = "ranges ! index"
  have split: "drop index ranges = ?n # drop (index + 1) ranges" using "1.prems"(2) by (simp add: Cons_nth_drop_Suc)
  show ?case
  proof (cases "i + ?n < start")
    case True
    have next_ok: "start \<le> (i + ?n) + sum_list (drop (index + 1) ranges)" using "1.prems"(1) split by simp
    have "drop (index + 1) ranges \<noteq> []" using next_ok True by auto
    then have "index + 1 < length ranges" by simp
    from "1.IH" [OF _ True next_ok this] "1.prems"(2) obtain index' i' u' where r:
        "skip ranges start (index + 1) (i + ?n) (\<not> u) = Inr (index', i', u')" "index' < length ranges"
        "start \<le> i' + ranges ! index'" "i' + sum_list (drop index' ranges) = (i + ?n) + sum_list (drop (index + 1) ranges)"
        "i' \<le> start"
        "\<forall>v \<ge> start. undef_at (drop (index + 1) ranges) (\<not> u) (v - (i + ?n)) = undef_at (drop index' ranges) u' (v - i')"
      using True by auto
    have "undef_at (drop index ranges) u (v - i) = undef_at (drop (index + 1) ranges) (\<not> u) (v - (i + ?n))" if "v \<ge> start" for v
    proof -
      have "\<not> v - i < ?n" using that True by linarith
      then show ?thesis unfolding split by (simp add: diff_diff_left)
    qed
    moreover have "skip ranges start index i u = skip ranges start (index + 1) (i + ?n) (\<not> u)"
      using True "1.prems"(2) by (subst skip.simps) simp
    ultimately show ?thesis
      using r split by (intro exI [of _ index'] exI [of _ i'] exI [of _ u']) simp
  next
    case False
    then have "skip ranges start index i u = Inr (index, i, u)" using "1.prems"(2) by (subst skip.simps) simp
    with False "1.prems"(2) show ?thesis by (intro exI [of _ index] exI [of _ i] exI [of _ u]) simp
  qed
qed

lemma filter_range:
  assumes "\<And>v. v \<in> set vs \<Longrightarrow> P v = u"
  shows "filter P vs = (if u then vs else [])"
  using assms by (cases u) (simp_all add: filter_id_conv)

text \<open>The words of the range at \<open>index\<close>, and those behind it.\<close>

lemma undef_split:
  assumes "ranges = n # rs" and "a = max i start" and "start \<le> i + n" and "m = min (i + n) stop" and "i \<le> stop" and "start \<le> stop"
  shows "filter (\<lambda>v. undef_at ranges u (v - i)) [a..<stop] =
    (if u then [a..<m] else []) @ filter (\<lambda>v. undef_at rs (\<not> u) (v - (i + n))) [m..<stop]"
proof -
  have "[a..<stop] = [a..<m] @ [m..<stop]" using assms by (metis max.bounded_iff min.cobounded2 min.bounded_iff le_add1 upt_add_eq_append le_Suc_ex)
  moreover have "filter (\<lambda>v. undef_at ranges u (v - i)) [a..<m] = (if u then [a..<m] else [])"
    using assms by (intro filter_range) auto
  moreover have "filter (\<lambda>v. undef_at ranges u (v - i)) [m..<stop] = filter (\<lambda>v. undef_at rs (\<not> u) (v - (i + n))) [m..<stop]"
    using assms by (intro filter_cong) (auto simp: diff_diff_left)
  ultimately show ?thesis by simp
qed

lemma scan_runs:
  assumes "stop \<le> i + sum_list (drop index ranges)" and "start \<le> stop"
    and "i < stop \<Longrightarrow> start \<le> i \<or> start \<le> i + ranges ! index"
  shows "res_bind (scan_ranges e ranges start stop index i u w) (\<lambda>w'. Inr (clr w')) =
     run_all e (filter (\<lambda>v. undef_at (drop index ranges) u (v - i)) [max i start..<stop]) (clr w)"
  using assms
proof (induction e ranges start stop index i u w rule: scan_ranges.induct)
  case (1 e ranges start stop index i u w)
  show ?case
  proof (cases "i < stop")
    case True
    let ?n = "ranges ! index" and ?a = "if i < start then start else i"
    let ?m = "min (i + ?n) stop"
    have "drop index ranges \<noteq> []" using True "1.prems"(1) by auto
    then have ix: "index < length ranges" by simp
    then have split: "drop index ranges = ?n # drop (index + 1) ranges" by (simp add: Cons_nth_drop_Suc)
    have reach: "start \<le> i + ?n" using "1.prems"(3) [OF True] by auto
    have a: "?a = max i start" "?a \<le> ?m" using reach "1.prems"(2) True by auto
    let ?stage = "if u then scan_range e start stop (i + ?n) ?a w else Inr (i + ?n, w)"
    let ?next = "\<lambda>(i', w'). scan_ranges e ranges start stop (index + 1) i' (\<not> u) (w'\<lparr>wk_progress := of_nat (min i' stop - start)\<rparr>)"
    let ?here = "if u then [?a..<?m] else []"
    let ?rest = "filter (\<lambda>v. undef_at (drop (index + 1) ranges) (\<not> u) (v - (i + ?n))) [?m..<stop]"
    have step: "scan_ranges e ranges start stop index i u w = res_bind ?stage ?next"
      using True ix by (subst scan_ranges.simps) (simp add: c_assert_def split_def)
    have words: "filter (\<lambda>v. undef_at (drop index ranges) u (v - i)) [max i start..<stop] = ?here @ ?rest"
      using undef_split [OF split a(1) reach refl less_imp_le [OF True] "1.prems"(2)] a(1) by simp
    show ?thesis
    proof (cases ?stage)
      case (Inl err)
      then have u: u by (cases u) simp_all
      then have "run_all e ?here (clr w) = Inl err"
        using scan_range_runs [of e start stop "i + ?n" ?a w] Inl by (cases "run_all e [?a..<?m] (clr w)") simp_all
      with Inl u show ?thesis unfolding step words by simp
    next
      case (Inr p)
      obtain i' w' where p: "p = (i', w')" by (cases p)
      have here: "run_all e ?here (clr w) = Inr (clr w')" "i' = ?m \<or> i' = i + ?n"
        using scan_range_runs [of e start stop "i + ?n" ?a w] Inr p a(2)
        by (cases u; cases "run_all e [?a..<?m] (clr w)"; auto simp: max_def split: if_splits)+
      let ?w = "w'\<lparr>wk_progress := of_nat (min i' stop - start)\<rparr>"
      have "res_bind (scan_ranges e ranges start stop (index + 1) i' (\<not> u) ?w) (\<lambda>w'. Inr (clr w')) =
          run_all e (filter (\<lambda>v. undef_at (drop (index + 1) ranges) (\<not> u) (v - i')) [max i' start..<stop]) (clr ?w)"
        using here(2) "1.prems"(1,2) reach ix split by (intro "1.IH" [OF True]) auto
      moreover have "filter (\<lambda>v. undef_at (drop (index + 1) ranges) (\<not> u) (v - i')) [max i' start..<stop] = ?rest"
        using here(2) reach by (cases "i + ?n < stop") (auto simp: max_def min_def split: if_splits)
      ultimately show ?thesis
        unfolding step words Inr p run_all_append here(1) by simp
    qed
  next
    case False
    then show ?thesis by (subst scan_ranges.simps) simp
  qed
qed

lemma scan_progress:
  "scan_ranges e ranges start stop index i u w = Inr w' \<Longrightarrow> i < stop \<Longrightarrow> wk_progress w' = of_nat (stop - start)"
proof (induction e ranges start stop index i u w rule: scan_ranges.induct)
  case (1 e ranges start stop index i u w)
  obtain i' w1 where "index < length ranges"
      and next_scan: "scan_ranges e ranges start stop (index + 1) i' (\<not> u) (w1\<lparr>wk_progress := of_nat (min i' stop - start)\<rparr>) = Inr w'"
    using "1.prems" by (subst (asm) scan_ranges.simps) (auto simp: res_bind_Inr_iff c_assert_def split: if_splits)
  show ?case
  proof (cases "i' < stop")
    case True
    with "1.IH" [OF "1.prems"(2) _ next_scan] \<open>index < length ranges\<close> show ?thesis by simp
  next
    case False
    then have "w' = w1\<lparr>wk_progress := of_nat (min i' stop - start)\<rparr>" using next_scan by (subst (asm) scan_ranges.simps) simp
    with False show ?thesis by (simp add: min_def)
  qed
qed

text \<open>A worker runs the undefined words of its part, each once and in order.\<close>

lemma worker_runs:
  assumes "start < stop" and "stop \<le> sum_list ranges"
  shows "worker_main e ranges start stop w =
    res_bind (run_all e (filter (undef_at ranges True) [start..<stop]) (clr w)) (\<lambda>w'. Inr (w'\<lparr>wk_progress := of_nat (stop - start)\<rparr>))"
proof -
  have "0 < length ranges" using assms by (cases ranges) simp_all
  from skip_finds [of start 0 0 ranges True, OF _ this] assms obtain index i u where k:
      "skip ranges start 0 0 True = Inr (index, i, u)" "index < length ranges" "start \<le> i + ranges ! index"
      "i + sum_list (drop index ranges) = sum_list ranges" "i \<le> start"
      "\<forall>v \<ge> start. undef_at ranges True v = undef_at (drop index ranges) u (v - i)"
    by auto
  have words: "filter (\<lambda>v. undef_at (drop index ranges) u (v - i)) [max i start..<stop] = filter (undef_at ranges True) [start..<stop]"
    using k(5,6) by (auto simp: max_def intro!: filter_cong)
  have main: "worker_main e ranges start stop w = scan_ranges e ranges start stop index i u w"
    using k(1) by (simp add: worker_main_def)
  have cleared: "res_bind (scan_ranges e ranges start stop index i u w) (\<lambda>w'. Inr (clr w')) =
      run_all e (filter (undef_at ranges True) [start..<stop]) (clr w)"
    using scan_runs [of stop i index ranges start e u w] k(3,4) assms unfolding words by simp
  show ?thesis
  proof (cases "scan_ranges e ranges start stop index i u w")
    case (Inr w')
    then have "wk_progress w' = of_nat (stop - start)" using scan_progress k(5) assms(1) by fastforce
    then have "(clr w')\<lparr>wk_progress := of_nat (stop - start)\<rparr> = w'" by simp
    then show ?thesis unfolding main cleared [symmetric] Inr by simp
  next
    case (Inl err)
    then show ?thesis unfolding main cleared [symmetric] Inl by simp
  qed
qed

section \<open>What a worker finds\<close>

text \<open>
  The conditions of the build and of the machine: sequences of one instruction, no memory check, the
  processor behaves the same in every execution, and the reports fit into the pipe's buffer.
\<close>

definition worker_ok :: "worker_env \<Rightarrow> hw \<Rightarrow> runner \<Rightarrow> bool" where
  "worker_ok e hw st0 \<longleftrightarrow>
     valid_build (we_build e) \<and> MAX_SEQ_LEN (we_build e) = 1 \<and> \<not> flag_CHECK_MEM (we_build e) \<and>
     we_hw e = (\<lambda>_. hw) \<and> hw_ok (we_build e) (instret_base_no_signal st0) (instret_base_signal st0) hw \<and>
     runner_inv (we_build e) st0 \<and> length (we_garbage e) = CHECK_MEM_CUT_AT \<and>
     (\<forall>i. case we_disasm e i of None \<Rightarrow> False | Some d \<Rightarrow> newline \<notin> set d) \<and> host_text (we_host e) \<and>
     newline \<notin> set (we_git_commit e) \<and> (\<forall>sig. newline \<notin> set (te_strsignal (we_term e) sig)) \<and>
     we_pipe e = (\<lambda>_. True) \<and> (\<forall>x. length (we_flushed e x) \<le> 40960)"

text \<open>A word that does not trap as illegal when it is run alone.\<close>

definition legal :: "worker_env \<Rightarrow> hw \<Rightarrow> runner \<Rightarrow> nat \<Rightarrow> bool" where
  "legal e hw st0 v =
     (case run_with_instr (we_build e) hw (we_os_mapped e) (we_garbage e) st0 (of_nat v) (worker_regs (we_build e)) of
        Inl _ \<Rightarrow> False | Inr (r, _, _) \<Rightarrow> signum r \<noteq> 4)"

lemma wf_worker_regs: "wf_regs b (worker_regs b)"
  by (cases "arch b") (simp_all add: worker_regs_def zero_status_def filler_regs_def wf_regs_def zero_regs_def)

lemma run_once_ok:
  assumes "worker_ok e hw st0" and "ready (we_build e) st0 (wk_runner w)"
  shows "\<exists>r st. run_once e v w = Inr (r, w\<lparr>wk_runner := st, wk_runs := wk_runs w + 1\<rparr>) \<and> ready (we_build e) st0 st \<and>
     wf_result (we_build e) r \<and> (signum r \<noteq> 4 \<longleftrightarrow> legal e hw st0 v)"
proof -
  let ?b = "we_build e"
  have ok: "we_hw e = (\<lambda>_. hw)" using assms(1) by (simp add: worker_ok_def)
  have pre0: "run_pre ?b hw (we_garbage e) st0 [of_nat v] [] (worker_regs ?b)"
    using assms(1) by (simp add: worker_ok_def run_pre_def wf_worker_regs)
  have pre: "run_pre ?b hw (we_garbage e) (wk_runner w) [of_nat v] [] (worker_regs ?b)"
    by (rule run_pre_ready [OF pre0 assms(2)]) simp_all
  obtain r ms st where run: "run_with_instr_seq ?b hw (we_os_mapped e) (we_garbage e) (wk_runner w) [of_nat v] [] (worker_regs ?b) =
      Inr (r, ms, st)" "wf_result ?b r" "runner_inv ?b st" "same_env (wk_runner w) st"
    using whole_run_ok [OF pre] by blast
  have rev: "ready ?b (wk_runner w) st0" using assms(2) by (simp add: ready_def same_env_def)
  obtain r0 st1 where "run_with_instr_seq ?b hw (we_os_mapped e) (we_garbage e) st0 [of_nat v] [] (worker_regs ?b) = Inr (r0, ms, st1)"
      "same_result ?b r r0"
    using whole_run_indep [OF pre rev _ _ run(1), of "[]"] by auto
  then have "legal e hw st0 v \<longleftrightarrow> signum r \<noteq> 4"
    using same_result_fault [of ?b r r0] by (simp add: legal_def run_with_instr_def)
  moreover have "ready ?b st0 st" using assms(2) run(3,4) by (simp add: ready_def same_env_def)
  ultimately show ?thesis
    using run by (intro exI [of _ r] exI [of _ st]) (simp add: run_once_def run_with_instr_def ok)
qed

lemma run_tries_ok:
  assumes "worker_ok e hw st0"
  shows "ready (we_build e) st0 (wk_runner w) \<Longrightarrow>
     \<exists>r st n. run_tries j e v w = Inr (r, w\<lparr>wk_runner := st, wk_runs := n\<rparr>) \<and> ready (we_build e) st0 st \<and>
       wf_result (we_build e) r \<and> (signum r \<noteq> 4 \<longleftrightarrow> legal e hw st0 v)"
proof (induction j arbitrary: w)
  case 0
  then show ?case using run_once_ok [OF assms 0, of v] by auto
next
  case (Suc j)
  obtain r st where one: "run_once e v w = Inr (r, w\<lparr>wk_runner := st, wk_runs := wk_runs w + 1\<rparr>)" "ready (we_build e) st0 st"
      "wf_result (we_build e) r" "signum r \<noteq> 4 \<longleftrightarrow> legal e hw st0 v"
    using run_once_ok [OF assms Suc.prems, of v] by blast
  then show ?case
    using Suc.IH [of "w\<lparr>wk_runner := st, wk_runs := wk_runs w + 1\<rparr>"] by (cases "signum r = SIGALRM") auto
qed

lemma log_repro_written:
  assumes "valid_build b" and "printable_input b disasm instr_seq r ms" and "host_text h" and "newline \<notin> set git_commit"
    and "printable_items b t items"
  shows "\<exists>file. log_repro b t disasm h num_cpus git_commit items instr_seq r ms = Inr file"
proof -
  obtain header where header: "log_repro_header b t h items r = Inr header" "list_all comment_line header"
    using header_comments [OF assms(1,3,5)] by blast
  obtain dis results where
      "log_repro_yaml b disasm h num_cpus git_commit items instr_seq r ms =
         Inr (yaml_lines b dis results (log_flags b @ trailer b git_commit) instr_seq r ms)"
    by (rule log_repro_yaml_lines [OF assms(1-4) header(2)])
  with header(1) show ?thesis by (simp add: log_repro_def)
qed

lemma store_result_ok:
  assumes "worker_ok e hw st0" and "wf_result (we_build e) r"
  shows "\<exists>text. store_result e v r w = Inr (w\<lparr>wk_archive := wk_archive w @ [(fmt_0x 8 v @ ''.yaml'', text)],
     wk_undoc_counter := wk_undoc_counter w + 1\<rparr>)"
proof -
  let ?b = "we_build e"
  have "printable_input ?b (we_disasm e) [of_nat v] (worker_regs ?b) []"
    using assms(1) wf_worker_regs by (auto simp: worker_ok_def printable_input_def split: option.splits)
  moreover have "printable_items ?b (we_term e) [(r, Some (we_cpu e))]"
    using assms by (simp add: worker_ok_def printable_items_def wf_result_def)
  ultimately obtain ls where "log_repro ?b (we_term e) (we_disasm e) (we_host e) (we_num_cpus e) (we_git_commit e)
      [(r, Some (we_cpu e))] [of_nat v] (worker_regs ?b) [] = Inr ls"
    using log_repro_written assms(1) unfolding worker_ok_def by blast
  moreover have "\<not> 40960 < length (we_flushed e (unlines ls))" using assms(1) by (simp add: worker_ok_def not_less)
  ultimately show ?thesis
    using assms(1) by (intro exI [of _ "we_flushed e (unlines ls)"]) (simp add: store_result_def worker_ok_def)
qed

definition entry_name :: "nat \<Rightarrow> string" where
  "entry_name v = fmt_0x 8 v @ ''.yaml''"

lemma run_one_ok:
  assumes "worker_ok e hw st0" and "ready (we_build e) st0 (wk_runner w)"
  shows "\<exists>w'. run_one e v w = Inr w' \<and> ready (we_build e) st0 (wk_runner w') \<and> wk_executed w' = wk_executed w + 1 \<and>
     map fst (wk_archive w') = map fst (wk_archive w) @ map entry_name (filter (legal e hw st0) [v]) \<and>
     wk_undoc_counter w' = wk_undoc_counter w + of_nat (length (filter (legal e hw st0) [v]))"
proof -
  obtain r st n where r: "run_tries 9 e v w = Inr (r, w\<lparr>wk_runner := st, wk_runs := n\<rparr>)" "ready (we_build e) st0 st"
      "wf_result (we_build e) r" "signum r \<noteq> 4 \<longleftrightarrow> legal e hw st0 v"
    using run_tries_ok [OF assms] by blast
  show ?thesis
  proof (cases "legal e hw st0 v")
    case True
    obtain content where "store_result e v r (w\<lparr>wk_runner := st, wk_runs := n, wk_executed := wk_executed w + 1\<rparr>) =
        Inr (w\<lparr>wk_runner := st, wk_runs := n, wk_executed := wk_executed w + 1,
          wk_archive := wk_archive w @ [(fmt_0x 8 v @ ''.yaml'', content)], wk_undoc_counter := wk_undoc_counter w + 1\<rparr>)"
      using store_result_ok [OF assms(1) r(3), of v "w\<lparr>wk_runner := st, wk_runs := n, wk_executed := wk_executed w + 1\<rparr>"] by auto
    with r True show ?thesis by (simp add: run_one_def Let_def entry_name_def)
  next
    case False
    with r show ?thesis by (simp add: run_one_def Let_def)
  qed
qed

lemma run_all_ok:
  assumes "worker_ok e hw st0"
  shows "ready (we_build e) st0 (wk_runner w) \<Longrightarrow>
     \<exists>w'. run_all e vs w = Inr w' \<and> ready (we_build e) st0 (wk_runner w') \<and> wk_executed w' = wk_executed w + of_nat (length vs) \<and>
       map fst (wk_archive w') = map fst (wk_archive w) @ map entry_name (filter (legal e hw st0) vs) \<and>
       wk_undoc_counter w' = wk_undoc_counter w + of_nat (length (filter (legal e hw st0) vs))"
proof (induction vs arbitrary: w)
  case (Cons v vs)
  obtain w1 where w1: "run_one e v w = Inr w1" "ready (we_build e) st0 (wk_runner w1)" "wk_executed w1 = wk_executed w + 1"
      "map fst (wk_archive w1) = map fst (wk_archive w) @ map entry_name (filter (legal e hw st0) [v])"
      "wk_undoc_counter w1 = wk_undoc_counter w + of_nat (length (filter (legal e hw st0) [v]))"
    using run_one_ok [OF assms Cons.prems] by blast
  from Cons.IH [OF w1(2)] w1 show ?case by (auto simp: ac_simps)
qed simp

section \<open>The split among the cores\<close>

lemma split_bound:
  assumes "1 \<le> k"
  shows "(space + 1) div k * (k - 1) \<le> space"
proof -
  define q where "q = (space + 1) div k"
  define x where "x = q * k"
  have "x \<le> space + 1" unfolding x_def q_def by (rule div_times_less_eq_dividend)
  moreover have "q = 0 \<Longrightarrow> x = 0" by (simp add: x_def)
  ultimately have "x - q \<le> space" by arith
  then show ?thesis unfolding q_def [symmetric] x_def by (simp add: diff_mult_distrib2)
qed

lemma parts_prefix: "m < k \<Longrightarrow> concat (map (\<lambda>j. [tmp_start k j..<tmp_end k j]) [0..<m]) = [0..<(space + 1) div k * m]"
proof (induction m)
  case (Suc m)
  define q where "q = (space + 1) div k"
  have "[tmp_start k m..<tmp_end k m] = [q * m..<q * m + q]"
    using Suc.prems by (simp add: tmp_start_def tmp_end_def q_def add.commute)
  moreover have "[0..<q * m + q] = [0..<q * m] @ [q * m..<q * m + q]" by (rule upt_add_eq_append) simp
  moreover have "q * Suc m = q * m + q" by simp
  ultimately show ?case using Suc unfolding q_def [symmetric] by (simp del: mult_Suc_right)
qed simp

lemma parts_all:
  assumes "1 \<le> k"
  shows "concat (map (\<lambda>j. [tmp_start k j..<tmp_end k j]) [0..<k]) = [0..<space]"
proof -
  obtain m where m: "k = Suc m" using assms by (cases k) auto
  have "tmp_start k m = (space + 1) div k * m" "tmp_end k m = space" by (simp_all add: tmp_start_def tmp_end_def m)
  moreover have "(space + 1) div k * m \<le> space" using split_bound [OF assms] m by simp
  moreover have "concat (map (\<lambda>j. [tmp_start k j..<tmp_end k j]) [0..<m]) = [0..<(space + 1) div k * m]"
    using parts_prefix [of m k] m by simp
  ultimately show ?thesis
    using upt_add_eq_append [of 0 "(space + 1) div k * m" "space - (space + 1) div k * m"] m by simp
qed

lemma tmp_order: "1 \<le> k \<Longrightarrow> j < k \<Longrightarrow> tmp_start k j \<le> tmp_end k j"
  using split_bound [of k] by (auto simp: tmp_start_def tmp_end_def)

lemma parts_length:
  assumes "1 \<le> k"
  shows "sum_list (map (\<lambda>j. tmp_end k j - tmp_start k j) [0..<k]) = space"
  using arg_cong [OF parts_all [OF assms], of length] by (simp add: length_concat comp_def)

text \<open>Two cores or more: no part is the whole space.\<close>

lemma part_small:
  assumes "2 \<le> k" and "k \<le> space" and "j < k"
  shows "tmp_end k j - tmp_start k j < space"
proof (cases "j + 1 = k")
  case True
  have "0 < (space + 1) div k" using assms by (simp add: div_greater_zero_iff)
  then have "0 < tmp_start k j" using assms True by (simp add: tmp_start_def)
  then show ?thesis using True by (simp add: tmp_end_def space_def)
next
  case False
  have "(space + 1) div k \<le> (space + 1) div 2" using assms(1) by (intro div_le_mono2) simp_all
  moreover have "(space + 1) div 2 < space" by (simp add: space_def)
  moreover have "tmp_end k j - tmp_start k j = (space + 1) div k" using False by (simp add: tmp_start_def tmp_end_def)
  ultimately show ?thesis by linarith
qed

lemma sum_small_words:
  "sum_list ns < 2 ^ 64 \<Longrightarrow> list_all (\<lambda>n. n < 2 ^ 32) ns \<Longrightarrow>
     sum_list (map ucast (map (\<lambda>n. of_nat n :: u32) ns)) = (of_nat (sum_list ns) :: u64)"
proof (induction ns)
  case (Cons n ns)
  then have "(ucast (of_nat n :: u32) :: u64) = of_nat n"
    by (simp add: unsigned_of_nat take_bit_nat_eq_self)
  with Cons show ?case by simp
qed simp

text \<open>The statistics when every worker has finished.\<close>

definition all_done :: "u32 list \<Rightarrow> core_type list \<Rightarrow> bool" where
  "all_done stats types \<longleftrightarrow>
     (\<forall>t \<in> set types. ct_cpus t \<noteq> [] \<and> length (ct_cpus t) \<le> MAX_CPUS \<and>
        (\<forall>j < length (ct_cpus t). stat_at stats (processor (ct_cpus t ! j)) =
           Inr (of_nat (tmp_end (length (ct_cpus t)) j - tmp_start (length (ct_cpus t)) j))))"

lemma finished_progress:
  assumes "all_done stats types" and "t \<in> set types"
  shows "type_progress stats t = Inr (if length (ct_cpus t) = 1 then 0 else of_nat space)"
proof -
  let ?k = "length (ct_cpus t)" and ?part = "\<lambda>j. tmp_end (length (ct_cpus t)) j - tmp_start (length (ct_cpus t)) j"
  have k: "1 \<le> ?k" "?k \<le> space" using assms by (auto simp: all_done_def Suc_le_eq MAX_CPUS_def space_def)
  have "map_res (\<lambda>c. stat_at stats (processor c)) (ct_cpus t) = Inr (map (\<lambda>n. of_nat n) (map ?part [0..<?k]))"
    using assms by (simp add: map_res_list_all2 list_all2_conv_all_nth all_done_def)
  then have p: "type_progress stats t = Inr (sum_list (map ucast (map (\<lambda>n. of_nat n :: u32) (map ?part [0..<?k]))))"
    by (simp add: type_progress_def)
  show ?thesis
  proof (cases "?k = 1")
    case True
    then show ?thesis using p by (simp add: tmp_start_def tmp_end_def space_def)
  next
    case False
    then have "list_all (\<lambda>n. n < 2 ^ 32) (map ?part [0..<?k])"
      using part_small [of ?k] k by (simp add: list_all_iff space_def)
    moreover have "sum_list (map ?part [0..<?k]) = space" by (rule parts_length [OF k(1)])
    ultimately show ?thesis using p False sum_small_words [of "map ?part [0..<?k]"] by (simp add: space_def)
  qed
qed

section \<open>The buffer of the ranges\<close>

text \<open>Every call of \<^verbatim>\<open>archive_read_data\<close> is given room, so no bytes means the end of the entry.\<close>

lemma grow_room:
  assumes "grow realloc cap used = Inr cap'" and "used \<le> cap" and "2 ^ 16 \<le> cap"
  shows "2 ^ 16 \<le> cap' - used"
  using assms by (auto simp: grow_def split: if_splits)

lemma read_ranges_all:
  assumes "\<And>n. realloc n"
  shows "list_all2 (\<lambda>call xs. \<forall>n \<ge> 2 ^ 16. call n = Some xs \<and> length xs \<le> n) calls xss \<Longrightarrow> [] \<notin> set xss \<Longrightarrow>
     length out \<le> cap \<Longrightarrow> 2 ^ 16 \<le> cap \<Longrightarrow> read_ranges realloc calls cap out = Inr (out @ concat xss)"
proof (induction calls arbitrary: xss cap out)
  case (Cons call calls)
  obtain xs yss where xss: "xss = xs # yss" "\<forall>n \<ge> 2 ^ 16. call n = Some xs \<and> length xs \<le> n"
      "list_all2 (\<lambda>call xs. \<forall>n \<ge> 2 ^ 16. call n = Some xs \<and> length xs \<le> n) calls yss"
    using Cons.prems(1) by (auto simp: list_all2_Cons1)
  define cap' where "cap' = (if cap - length out < 2 ^ 16 then cap * 2 else cap)"
  then have cap': "grow realloc cap (length out) = Inr cap'" "cap \<le> cap'"
    using assms by (simp_all add: grow_def)
  have room: "2 ^ 16 \<le> cap' - length out" by (rule grow_room [OF cap'(1) Cons.prems(3,4)])
  then have "call (cap' - length out) = Some xs" "length xs \<le> cap' - length out" using xss(2) by simp_all
  moreover have "length (out @ xs) \<le> cap'" using calculation(2) room by simp
  ultimately show ?case
    using Cons.IH [OF xss(3), of "out @ xs" cap'] Cons.prems(2,4) cap' xss(1) by auto
qed simp

lemma tmp_strict:
  assumes "1 \<le> k" and "k \<le> MAX_CPUS" and "j < k"
  shows "tmp_start k j < tmp_end k j"
proof (cases "j + 1 = k")
  case True
  define q where "q = (space + 1) div k"
  have "(space + 1) div MAX_CPUS \<le> q" unfolding q_def using assms by (intro div_le_mono2) simp_all
  then have "2 \<le> q" by (simp add: space_def MAX_CPUS_def)
  moreover have "q * k \<le> space + 1" unfolding q_def by (rule div_times_less_eq_dividend)
  moreover have "q * k = q * j + q" using True by auto
  ultimately have "q * j < space" by arith
  then show ?thesis using True by (simp add: tmp_start_def tmp_end_def q_def)
next
  case False
  have "0 < (space + 1) div k" using assms by (simp add: div_greater_zero_iff space_def MAX_CPUS_def)
  then show ?thesis using False by (simp add: tmp_start_def tmp_end_def)
qed

lemma tmp_end_le:
  assumes "j < k"
  shows "tmp_end k j \<le> space"
proof (cases "j + 1 = k")
  case False
  then have "(space + 1) div k * (j + 1) \<le> (space + 1) div k * (k - 1)" using assms by (intro mult_le_mono2) simp
  then show ?thesis using False split_bound [of k] assms by (simp add: tmp_end_def)
qed (simp add: tmp_end_def)

lemma worker_finds:
  assumes "worker_ok e hw st0" and "ready (we_build e) st0 (wk_runner w)" and "start < stop" and "stop \<le> sum_list ranges"
  shows "\<exists>w'. worker_main e ranges start stop w = Inr w' \<and> wk_progress w' = of_nat (stop - start) \<and>
     wk_executed w' = wk_executed w + of_nat (length (filter (undef_at ranges True) [start..<stop])) \<and>
     map fst (wk_archive w') = map fst (wk_archive w) @
       map entry_name (filter (\<lambda>v. undef_at ranges True v \<and> legal e hw st0 v) [start..<stop])"
proof -
  obtain w' where "run_all e (filter (undef_at ranges True) [start..<stop]) (clr w) = Inr w'"
      "wk_executed w' = wk_executed w + of_nat (length (filter (undef_at ranges True) [start..<stop]))"
      "map fst (wk_archive w') = map fst (wk_archive w) @ map entry_name (filter (legal e hw st0) (filter (undef_at ranges True) [start..<stop]))"
    using run_all_ok [OF assms(1), of "clr w" "filter (undef_at ranges True) [start..<stop]"] assms(2) by auto
  then show ?thesis unfolding worker_runs [OF assms(3,4)] by simp
qed

lemma other_cpu:
  "worker_ok (e\<lparr>we_cpu := c\<rparr>) hw st0 = worker_ok e hw st0" "legal (e\<lparr>we_cpu := c\<rparr>) hw st0 = legal e hw st0"
  by (auto simp: worker_ok_def legal_def)

lemma length_filter_all: "length (filter P xs) = length xs \<longleftrightarrow> list_all P xs"
  by (induction xs) (auto, metis Suc_n_not_le_n length_filter_le)

section \<open>Properties\<close>

text \<open>
  C11. A worker finds exactly the undocumented instructions of its part: over ranges that cover it, it
  always returns, has executed every word the ranges call undefined once and no other word, and has
  stored, in order, one report for each of them that does not trap as illegal when it is run alone;
  its progress is the length of the part modulo 2 ^ 32.
\<close>

theorem worker_finds_undocumented:
  assumes "worker_ok e hw st0" and "ready (we_build e) st0 (wk_runner w)" and "start < stop" and "stop \<le> sum_list ranges"
  shows "\<exists>w'. worker_main e ranges start stop w = Inr w' \<and> wk_progress w' = of_nat (stop - start) \<and>
     wk_executed w' = wk_executed w + of_nat (length (filter (undef_at ranges True) [start..<stop])) \<and>
     map fst (wk_archive w') = map fst (wk_archive w) @
       map entry_name (filter (\<lambda>v. undef_at ranges True v \<and> legal e hw st0 v) [start..<stop])"
  using assms by (rule worker_finds)

text \<open>A build for the enumeration, a processor on which only the word 0 is illegal, and a fresh worker.\<close>

definition enum_build :: build where
  "enum_build = riscv_vector_build\<lparr>flag_CHECK_MEM := False, flag_AUTO_MAP_MEM := False, flag_META := False, MAX_SEQ_LEN := 1\<rparr>"

definition sample_worker_env :: worker_env where
  "sample_worker_env = \<lparr>we_build = enum_build, we_hw = (\<lambda>_. sample_hw), we_os_mapped = (\<lambda>_. False),
     we_garbage = replicate CHECK_MEM_CUT_AT 0, we_term = sample_term, we_disasm = (\<lambda>_. Some ''nop''), we_host = sample_host,
     we_num_cpus = 2, we_git_commit = ''abc'', we_flushed = take 40960, we_pipe = (\<lambda>_. True), we_cpu = sample_cpu 0 0xd05 2\<rparr>"

definition sample_worker :: worker where
  "sample_worker = \<lparr>wk_runner = sample_runner [7], wk_runs = 0, wk_progress = 0, wk_executed = 0, wk_undoc_counter = 0, wk_archive = []\<rparr>"

lemma sample_worker_ok:
  "worker_ok sample_worker_env sample_hw (sample_runner [7])"
  "ready (we_build sample_worker_env) (sample_runner [7]) (wk_runner sample_worker)"
proof -
  have "hw_ok enum_build 8 9 sample_hw"
    by (auto simp: hw_ok_def sample_hw_def enum_build_def riscv_vector_build_def Let_def list_all2_map2 wf_mapping_def list_all_iff
        list_all2_same)
  moreover have "valid_build enum_build" by code_simp
  ultimately show "worker_ok sample_worker_env sample_hw (sample_runner [7])"
    by (simp add: worker_ok_def sample_worker_env_def sample_runner_def runner_inv_def host_text_def sample_host_def sample_term_def)
      (simp add: enum_build_def riscv_vector_build_def)
  show "ready (we_build sample_worker_env) (sample_runner [7]) (wk_runner sample_worker)"
    by (simp add: ready_def sample_worker_env_def sample_worker_def runner_inv_def sample_runner_def same_env_def enum_build_def)
qed

lemma two_parts:
  "tmp_start (Suc 0) 0 = 0" "tmp_end (Suc 0) 0 = 2 ^ 32"
  "tmp_start (Suc (Suc 0)) 0 = 0" "tmp_end (Suc (Suc 0)) 0 = 2 ^ 31"
  "tmp_start (Suc (Suc 0)) (Suc 0) = 2 ^ 31" "tmp_end (Suc (Suc 0)) (Suc 0) = 2 ^ 32"
  by (simp_all add: tmp_start_def tmp_end_def space_def flip: numeral_2_eq_2)

theorem worker_finds_undocumented_witness:
  "\<exists>w'. worker_main sample_worker_env [3, 2, 4] 1 8 sample_worker = Inr w' \<and> wk_progress w' = 7 \<and> wk_executed w' = 5 \<and>
     map fst (wk_archive w') = map entry_name (filter (legal sample_worker_env sample_hw (sample_runner [7])) [1, 2, 5, 6, 7])"
proof -
  have "[1..<8] = [1, 2, 3, 4, 5, 6, 7 :: nat]" by (simp add: upt_rec)
  then have "filter (undef_at [3, 2, 4] True) [1..<8] = [1, 2, 5, 6, 7]"
    "filter (\<lambda>v. undef_at [3, 2, 4] True v \<and> P v) [1..<8] = filter P [1, 2, 5, 6, 7]" for P by simp_all
  with worker_finds_undocumented [OF sample_worker_ok, of 1 8 "[3, 2, 4]"] show ?thesis by (simp add: sample_worker_def)
qed

text \<open>
  C12. The enumeration is complete: the workers of a core type with up to 256 equal cores, started with
  empty archives on the parts they are given, together store exactly one report for every word of the
  whole space that the ranges call undefined and that does not trap as illegal, in ascending order.
\<close>

theorem enumeration_complete:
  assumes "worker_ok e hw st0" and "ready (we_build e) st0 (wk_runner w)" and "wk_archive w = []"
    and "ct_cpus t \<noteq> []" and "length (ct_cpus t) \<le> MAX_CPUS" and "space \<le> sum_list ranges"
    and "spawned [t] = parts"
  shows "\<exists>ws. list_all2 (\<lambda>(c, start, stop) w'. worker_main (e\<lparr>we_cpu := c\<rparr>) ranges start stop w = Inr w') parts ws \<and>
     concat (map (\<lambda>w'. map fst (wk_archive w')) ws) =
       map entry_name (filter (\<lambda>v. undef_at ranges True v \<and> legal e hw st0 v) [0..<space])"
proof -
  let ?k = "length (ct_cpus t)" and ?P = "\<lambda>v. undef_at ranges True v \<and> legal e hw st0 v"
  have k: "1 \<le> ?k" using assms(4) by (simp add: Suc_le_eq)
  have one: "\<exists>w'. worker_main (e\<lparr>we_cpu := ct_cpus t ! j\<rparr>) ranges (tmp_start ?k j) (tmp_end ?k j) w = Inr w' \<and>
      map fst (wk_archive w') = map entry_name (filter ?P [tmp_start ?k j..<tmp_end ?k j])" if "j < ?k" for j
  proof -
    have "tmp_end ?k j \<le> space" by (rule tmp_end_le [OF that])
    then show ?thesis
      using worker_finds [of "e\<lparr>we_cpu := ct_cpus t ! j\<rparr>" hw st0 w "tmp_start ?k j" "tmp_end ?k j" ranges]
        tmp_strict [OF k assms(5) that] assms(1-3,6) by (auto simp: other_cpu)
  qed
  define f where "f j = projr (worker_main (e\<lparr>we_cpu := ct_cpus t ! j\<rparr>) ranges (tmp_start ?k j) (tmp_end ?k j) w)" for j
  have f: "worker_main (e\<lparr>we_cpu := ct_cpus t ! j\<rparr>) ranges (tmp_start ?k j) (tmp_end ?k j) w = Inr (f j)"
      "map fst (wk_archive (f j)) = map entry_name (filter ?P [tmp_start ?k j..<tmp_end ?k j])" if "j < ?k" for j
    using one [OF that] unfolding f_def by auto
  have "concat (map (\<lambda>j. map fst (wk_archive (f j))) [0..<?k]) =
      map entry_name (filter ?P (concat (map (\<lambda>j. [tmp_start ?k j..<tmp_end ?k j]) [0..<?k])))"
    unfolding filter_concat map_concat map_map comp_def using f(2) by (intro arg_cong [where f = concat] map_cong) simp_all
  moreover have "list_all2 (\<lambda>(c, start, stop) w'. worker_main (e\<lparr>we_cpu := c\<rparr>) ranges start stop w = Inr w') parts (map f [0..<?k])"
    using f(1) assms(7) by (auto simp: spawned_def list_all2_conv_all_nth)
  ultimately show ?thesis unfolding parts_all [OF k] by (intro exI [of _ "map f [0..<?k]"]) (simp add: comp_def)
qed

theorem enumeration_complete_witness:
  "\<exists>ws. list_all2 (\<lambda>(c, start, stop) w'. worker_main (sample_worker_env\<lparr>we_cpu := c\<rparr>) [2 ^ 31, 2 ^ 31] start stop sample_worker = Inr w')
       [(sample_cpu 0 0xd05 2, 0, 2 ^ 31), (sample_cpu 1 0xd05 2, 2 ^ 31, 2 ^ 32)] ws \<and>
     concat (map (\<lambda>w'. map fst (wk_archive w')) ws) =
       map entry_name (filter (\<lambda>v. undef_at [2 ^ 31, 2 ^ 31] True v \<and> legal sample_worker_env sample_hw (sample_runner [7]) v) [0..<space])"
proof -
  let ?t = "\<lparr>ct_midr = 0, ct_cpus = [sample_cpu 0 0xd05 2, sample_cpu 1 0xd05 2]\<rparr>"
  have "spawned [?t] = [(sample_cpu 0 0xd05 2, 0, 2 ^ 31), (sample_cpu 1 0xd05 2, 2 ^ 31, 2 ^ 32)]"
    by (simp add: spawned_def two_parts)
  moreover have "space \<le> sum_list [2 ^ 31, 2 ^ 31]" by (simp add: space_def)
  ultimately show ?thesis
    by (intro enumeration_complete [OF sample_worker_ok, of ?t]) (simp_all add: sample_worker_def MAX_CPUS_def)
qed

text \<open>
  C13. The monitor waits for ever on a core type with a single core: when every worker has finished, its
  test for the end holds exactly when no core type has just one core, because the progress of a
  worker that covers the whole space is 2 ^ 32, which is 0 in the 32 bits of its counter.
\<close>

theorem monitor_quits_iff_no_single_core:
  assumes "all_done stats types"
  shows "all_finished stats types = Inr (\<forall>t \<in> set types. length (ct_cpus t) \<noteq> 1)"
proof -
  let ?p = "\<lambda>t. if length (ct_cpus t) = 1 then 0 else of_nat space :: u64"
  have "map_res (\<lambda>t. type_progress stats t) types = Inr (map ?p types)"
    using finished_progress [OF assms] by (intro map_res_Inr) simp
  moreover have ge: "of_nat space \<le> ?p t \<longleftrightarrow> length (ct_cpus t) \<noteq> 1" for t by (simp add: space_def)
  moreover have "length (filter (\<lambda>p. of_nat space \<le> p) (map ?p types)) = length types \<longleftrightarrow> list_all (\<lambda>t. of_nat space \<le> ?p t) types"
    using length_filter_all [of "\<lambda>p. of_nat space \<le> p" "map ?p types"] by (simp only: length_map list.pred_map comp_def)
  ultimately show ?thesis
    by (simp only: all_finished_def res_bind_simps list_all_iff ge)
qed

theorem monitor_quits_iff_no_single_core_witness:
  "all_finished [0, 2 ^ 31, 2 ^ 31]
     [\<lparr>ct_midr = 1, ct_cpus = [sample_cpu 0 0xd0b 2]\<rparr>, \<lparr>ct_midr = 2, ct_cpus = [sample_cpu 1 0xd05 2, sample_cpu 2 0xd05 2]\<rparr>] = Inr False"
proof -
  have "processor (sample_cpu n p r) = n" for n p r by (simp add: sample_cpu_def Let_def)
  then have "all_done [0, 2 ^ 31, 2 ^ 31]
     [\<lparr>ct_midr = 1, ct_cpus = [sample_cpu 0 0xd0b 2]\<rparr>, \<lparr>ct_midr = 2, ct_cpus = [sample_cpu 1 0xd05 2, sample_cpu 2 0xd05 2]\<rparr>]"
    by (auto simp: all_done_def stat_at_def two_parts MAX_CPUS_def less_Suc_eq)
  from monitor_quits_iff_no_single_core [OF this] show ?thesis by simp
qed

end
