(* ===== verification/Self_Test.thy ===== *)
theory Self_Test
  imports Runner
begin

text \<open>
  \<open>runner_init\<close> of lib/runner.c: the runner maps its code page a second time, maps the stack of the
  signal handler, installs the handler, calibrates the instruction counter and then tests itself: the
  names of registers, an addition with and without a trap behind it, a vector load, the prefixes of a
  sequence, the comparison of results, \<open>find_mapping\<close>, stores to pages that are mapped on demand, the
  disassembler and \<open>mem_change_equal\<close>. What the kernel, the disassembler and inline assembly answer are
  the fields of \<open>init_env\<close>. The tests accept every processor that executes the few instructions they
  use as the architecture says.
\<close>

section \<open>The environment\<close>

record init_env =
  ie_build :: build
  ie_hw :: hw
  ie_garbage :: "u8 list"
  ie_malloc :: bool
  ie_text :: "u8 list"
  ie_munmap :: bool
  ie_SIGSTKSZ :: nat
  ie_sigaltstack :: bool
  ie_sigaction :: "i32 \<Rightarrow> bool"
  ie_timer_create :: bool
  ie_disasm :: "u32 \<Rightarrow> string option"
  ie_max_vec_size :: u64
  ie_fp_status :: "nat \<Rightarrow> u32"
  ie_v0 :: u64

text \<open>Several assertions in a row.\<close>

fun c_asserts :: "(bool \<times> string) list \<Rightarrow> unit res" where
  "c_asserts [] = Inr ()"
| "c_asserts ((c, why) # cs) = res_bind (c_assert c why) (\<lambda>_. c_asserts cs)"

definition gp_reg :: "build \<Rightarrow> regs \<Rightarrow> string \<Rightarrow> u64" where
  "gp_reg b r name = gp r ! gp_index b name"

definition set_gp_reg :: "build \<Rightarrow> string \<Rightarrow> u64 \<Rightarrow> regs \<Rightarrow> regs" where
  "set_gp_reg b name v r = r\<lparr>gp := (gp r)[gp_index b name := v]\<rparr>"

section \<open>The code page, the handler and the timer\<close>

definition runner_code_start_page_aligned :: "build \<Rightarrow> runner \<Rightarrow> u64" where
  "runner_code_start_page_aligned b st = runner_code_start st AND NOT (page_size b - 1)"

definition runner_code_end_page_aligned :: "build \<Rightarrow> runner \<Rightarrow> u64" where
  "runner_code_end_page_aligned b st = (runner_code_end b st + page_size b + 1) AND NOT (page_size b - 1)"

definition runner_mapping :: "build \<Rightarrow> runner \<Rightarrow> u8 list \<Rightarrow> mapping" where
  "runner_mapping b st original =
     \<lparr>map_start = runner_code_start_page_aligned b st,
      map_n = unat (runner_code_end_page_aligned b st - runner_code_start_page_aligned b st),
      map_prot = PROT_EXEC OR PROT_READ, map_val = original, map_rw = []\<rparr>"

text \<open>What else is mapped once the pages of the code have been unmapped.\<close>

definition unmapped_code :: "build \<Rightarrow> runner \<Rightarrow> (u64 \<Rightarrow> bool) \<Rightarrow> u64 \<Rightarrow> bool" where
  "unmapped_code b st os_mapped a \<longleftrightarrow>
     os_mapped a \<and> \<not> (runner_code_start_page_aligned b st \<le> a \<and> a < runner_code_end_page_aligned b st)"

text \<open>The words of the code page through its writable view.\<close>

definition code_words :: "nat \<Rightarrow> u8 list \<Rightarrow> u32 list" where
  "code_words n bs = map (\<lambda>i. of_nat (le_load (take 4 (drop (4 * i) bs)))) [0..<n]"

definition map_runner_code :: "init_env \<Rightarrow> (u64 \<Rightarrow> bool) \<Rightarrow> runner \<Rightarrow> runner res" where
  "map_runner_code e os_mapped st =
     (let b = ie_build e; m = runner_mapping b st (ie_text e)
      in res_bind (c_assert (ie_malloc e) ''runner_mapping.val != 0'') (\<lambda>_.
         if \<not> ie_munmap e then Inl (Exit EXIT_FAILURE ''Couldn't unmap runner code for remapping.'')
         else res_bind (setup_memory_mapping b (unmapped_code b st os_mapped) [] st m) (\<lambda>(st1, m1).
              res_bind (load_memory_mapping m1) (\<lambda>m2.
              res_bind (c_assert (unat (runner_code_start st) mod 4 = 0) ''(uint64_t)runner_code_start % 4 == 0'') (\<lambda>_.
                Inr (st1\<lparr>code := code_words (MAX_SEQ_LEN b)
                       (drop (unat (runner_code_start st - map_start m)) (map_rw m2))\<rparr>))))))"

definition ALT_STACK_ADDR :: "build \<Rightarrow> u64" where
  "ALT_STACK_ADDR b = (case arch b of RISCV64 \<Rightarrow> 0x091af00000 | AARCH64 \<Rightarrow> 0x381af00000)"

abbreviation (input) ALT_STACK_SIZE :: nat where "ALT_STACK_SIZE \<equiv> 16384"

text \<open>\<open>check_and_map_with_flags\<close> with \<^verbatim>\<open>MAP_FIXED_NOREPLACE\<close>.\<close>

definition check_and_map_with_flags ::
  "build \<Rightarrow> (u64 \<Rightarrow> bool) \<Rightarrow> runner \<Rightarrow> u64 \<Rightarrow> nat \<Rightarrow> runner res" where
  "check_and_map_with_flags b os_mapped st target n =
     (if check_page_mapped b os_mapped st target then Inl (Exit 1 ''already mapped'')
      else if list_ex (\<lambda>r. pages_overlap r target n) (live st) then Inl (Exit 1 ''mmap in check_and_map_with_flags failed'')
      else Inr (st\<lparr>live := live st @ [(target, n)]\<rparr>))"

definition map_alt_stack :: "init_env \<Rightarrow> (u64 \<Rightarrow> bool) \<Rightarrow> runner \<Rightarrow> runner res" where
  "map_alt_stack e os_mapped st =
     res_bind (c_assert (ie_SIGSTKSZ e \<le> ALT_STACK_SIZE) ''SIGSTKSZ <= ALT_STACK_SIZE'') (\<lambda>_.
     res_bind (check_and_map_with_flags (ie_build e) os_mapped st (ALT_STACK_ADDR (ie_build e)) ALT_STACK_SIZE) (\<lambda>st1.
       if \<not> ie_sigaltstack e then Inl (Exit EXIT_FAILURE ''sigaltstack'') else Inr st1))"

text \<open>The signals the handler is installed for, in order.\<close>

definition caught_signals :: "i32 list" where
  "caught_signals = [SIGILL, SIGSEGV, SIGALRM, SIGTRAP, SIGBUS, SIGSYS, SIGFPE]"

fun install_handlers :: "init_env \<Rightarrow> i32 list \<Rightarrow> unit res" where
  "install_handlers e [] = Inr ()"
| "install_handlers e (s # ss) =
     (if ie_sigaction e s then install_handlers e ss else Inl (Exit 1 ''signal''))"

section \<open>Runs of the tests\<close>

definition test_run ::
  "init_env \<Rightarrow> (u64 \<Rightarrow> bool) \<Rightarrow> runner \<Rightarrow> u32 list \<Rightarrow> regs \<Rightarrow> (result \<times> runner) res" where
  "test_run e os_mapped st instr regs_before =
     res_bind (run_with_instr_seq (ie_build e) (ie_hw e) os_mapped (ie_garbage e) st instr [] regs_before)
       (\<lambda>(r, _, st'). Inr (r, st'))"

abbreviation (input) INVALID_32 :: u32 where "INVALID_32 \<equiv> 0"

text \<open>The base counts of retired instructions, without and with a signal.\<close>

definition calibrate :: "init_env \<Rightarrow> (u64 \<Rightarrow> bool) \<Rightarrow> runner \<Rightarrow> runner res" where
  "calibrate e os_mapped st =
     (let b = ie_build e
      in if \<not> flag_META b then Inr st
         else res_bind (test_run e os_mapped st [NOP_32 b] (zero_regs b)) (\<lambda>(br, st1).
              res_bind (c_assert (signum br = 0) ''br.signum == 0'') (\<lambda>_.
              let st2 = st1\<lparr>instret_base_no_signal := (if meta_instret br \<noteq> 0 then meta_instret br - 1 else 0)\<rparr>
              in res_bind (test_run e os_mapped st2 [INVALID_32] (zero_regs b)) (\<lambda>(br, st3).
                 res_bind (c_assert (signum br = SIGILL) ''br.signum == SIGILL'') (\<lambda>_.
                   Inr (st3\<lparr>instret_base_signal := meta_instret br\<rparr>))))))"

section \<open>The tests\<close>

text \<open>The number of a register and the name it must have, in the table of \<open>get_abi_name_float\<close> when the flag is set.\<close>

definition name_tests :: "build \<Rightarrow> (bool \<times> nat \<times> string) list" where
  "name_tests b =
     (case arch b of
        RISCV64 \<Rightarrow>
          [(False, gp_index b ''ra'', ''ra''), (False, gp_index b ''t6'', ''t6''), (False, gp_index b ''a5'', ''a5'')] @
          (if flag_FLOATS b then [(False, getabiindex b ''fcsr'', ''fcsr''), (False, getabiindex b ''fp'', ''ft0'')] else [])
      | AARCH64 \<Rightarrow>
          [(False, gp_index b ''x0'', ''x0''), (False, gp_index b ''x8'', ''x8''), (False, gp_index b ''x30'', ''x30''),
           (False, gp_index b ''sp'', ''sp''), (False, getabiindex b ''pstate'', ''pstate'')] @
          (if flag_FLOATS b \<or> flag_VECTOR b
           then [(False, getabiindex b ''fpsr'', ''fpsr''), (True, getabiindex b ''fp'', ''d0'')] else [])) @
     (if flag_VECTOR b then [(False, getabiindex b ''vec'', ''v0'')] else [])"

fun assert_names :: "build \<Rightarrow> (bool \<times> nat \<times> string) list \<Rightarrow> unit res" where
  "assert_names b [] = Inr ()"
| "assert_names b ((float, i, s) # ts) =
     res_bind (if float then get_abi_name_float b i else get_abi_name b i) (\<lambda>n.
     res_bind (c_assert (n = s) ''strcmp(get_abi_name(i), name) == 0'') (\<lambda>_. assert_names b ts))"

definition add_instr :: "build \<Rightarrow> u32" where
  "add_instr b = (case arch b of RISCV64 \<Rightarrow> 0x00128293 | AARCH64 \<Rightarrow> 0x91000420)"

text \<open>A sequence, with an illegal instruction behind it when \<open>with_exception\<close> is set.\<close>

definition run_case ::
  "init_env \<Rightarrow> (u64 \<Rightarrow> bool) \<Rightarrow> bool \<Rightarrow> runner \<Rightarrow> u32 \<Rightarrow> regs \<Rightarrow> (result \<times> runner) res" where
  "run_case e os_mapped with_exception st instr regs_before =
     (if \<not> with_exception
      then res_bind (test_run e os_mapped st [instr] regs_before) (\<lambda>(r, st1).
           res_bind (c_assert (signum r = 0) ''r.signum == 0'') (\<lambda>_. Inr (r, st1)))
      else res_bind (test_run e os_mapped st [instr, 0] regs_before) (\<lambda>(r, st1).
           res_bind (c_assert (signum r = SIGILL) ''r.signum == SIGILL'') (\<lambda>_. Inr (r, st1))))"

definition test_addition :: "init_env \<Rightarrow> (u64 \<Rightarrow> bool) \<Rightarrow> bool \<Rightarrow> runner \<Rightarrow> runner res" where
  "test_addition e os_mapped with_exception st =
     (let b = ie_build e; t = zero_regs b
      in res_bind (run_case e os_mapped with_exception st (add_instr b) t) (\<lambda>(r, st1).
         res_bind (if with_exception
                   then c_asserts [(instr_idx r = 2, ''r.instr_idx == 2''),
                                   (si_pc r = runner_code_start st1 + 4, ''r.si_pc == expected_pc'')]
                   else Inr ()) (\<lambda>_.
         res_bind (c_asserts
           (case arch b of
              RISCV64 \<Rightarrow>
                [(gp_reg b t ''t0'' + 1 = gp_reg b (regs_result r) ''t0'', ''t0''),
                 (gp_reg b t ''sp'' = gp_reg b (regs_result r) ''sp'', ''sp''),
                 (gp_reg b t ''tp'' = gp_reg b (regs_result r) ''tp'', ''tp''),
                 (gp_reg b t ''ra'' = gp_reg b (regs_result r) ''ra'', ''ra'')]
            | AARCH64 \<Rightarrow>
                [(gp_reg b t ''x1'' + 1 = gp_reg b (regs_result r) ''x0'', ''x0''),
                 (gp_reg b t ''sp'' = gp_reg b (regs_result r) ''sp'', ''sp''),
                 (gp_reg b t ''x30'' = gp_reg b (regs_result r) ''x30'', ''x30'')])) (\<lambda>_. Inr st1))))"

definition vector_load_instr :: "build \<Rightarrow> u32" where
  "vector_load_instr b = (case arch b of RISCV64 \<Rightarrow> 0x2078007 | AARCH64 \<Rightarrow> 0x4c407020)"

text \<open>\<^verbatim>\<open>ASSIGN_16(v0, 0x0000000080800000, 0x00000000000000ff)\<close>; \<open>ie_v0\<close> is the address of the variable.\<close>

definition v0_bytes :: "u8 list" where
  "v0_bytes = le_store 8 0xff @ le_store 8 0x80800000"

definition v0_pointer :: "build \<Rightarrow> string" where
  "v0_pointer b = (case arch b of RISCV64 \<Rightarrow> ''a5'' | AARCH64 \<Rightarrow> ''x1'')"

definition test_vector_load :: "init_env \<Rightarrow> (u64 \<Rightarrow> bool) \<Rightarrow> bool \<Rightarrow> runner \<Rightarrow> runner res" where
  "test_vector_load e os_mapped with_exception st =
     (let b = ie_build e
      in if \<not> flag_VECTOR b then Inr st
         else res_bind (run_case e os_mapped with_exception st (vector_load_instr b)
                          (set_gp_reg b (v0_pointer b) (ie_v0 e) (zero_regs b))) (\<lambda>(r, st1).
              res_bind (c_assert (vec (regs_result r) ! 0 = v0_bytes)
                          ''memcmp(&v0, &r.regs_result.vec.v0, sizeof(v0)) == 0'') (\<lambda>_. Inr st1)))"

text \<open>The loop over \<^verbatim>\<open>with_exception\<close>; a sandbox of one instruction has no room for the second case.\<close>

fun test_rounds :: "init_env \<Rightarrow> (u64 \<Rightarrow> bool) \<Rightarrow> bool list \<Rightarrow> runner \<Rightarrow> runner res" where
  "test_rounds e os_mapped [] st = Inr st"
| "test_rounds e os_mapped (w # ws) st =
     (if MAX_SEQ_LEN (ie_build e) < 2 \<and> w then test_rounds e os_mapped ws st
      else res_bind (test_addition e os_mapped w st) (\<lambda>st1.
           res_bind (test_vector_load e os_mapped w st1) (\<lambda>st2. test_rounds e os_mapped ws st2)))"

definition test_full_seq :: "init_env \<Rightarrow> (u64 \<Rightarrow> bool) \<Rightarrow> runner \<Rightarrow> runner res" where
  "test_full_seq e os_mapped st =
     (let b = ie_build e
      in if MAX_SEQ_LEN b < 2 then Inr st
         else res_bind (run_with_instr_seq_full_seq b (ie_hw e) os_mapped (ie_garbage e) st
                          [NOP_32 b, INVALID_32, NOP_32 b] 3 [] (zero_regs b)) (\<lambda>(results, _, st1).
              res_bind (c_asserts [(length results = 2, ''stop == 2''), (signum (results ! 0) = 0, ''results[0].signum == 0''),
                                   (signum (results ! 1) \<noteq> 0, ''results[1].signum != 0''),
                                   (instr_idx (results ! 1) = 2, ''results[1].instr_idx == 2'')]) (\<lambda>_. Inr st1)))"

text \<open>Two runs whose results must be equal, or must not.\<close>

definition test_equality :: "init_env \<Rightarrow> (u64 \<Rightarrow> bool) \<Rightarrow> u32 \<Rightarrow> bool \<Rightarrow> runner \<Rightarrow> runner res" where
  "test_equality e os_mapped instr expected st =
     (let b = ie_build e
      in res_bind (test_run e os_mapped st [NOP_32 b] (zero_regs b)) (\<lambda>(a, st1).
         res_bind (c_assert (signum a = 0) ''a.signum == 0'') (\<lambda>_.
         res_bind (test_run e os_mapped st1 [instr] (zero_regs b)) (\<lambda>(b', st2).
         res_bind (c_assert (signum b' = 0) ''b.signum == 0'') (\<lambda>_.
         res_bind (c_assert (result_equal b a b' = expected) ''result_equal(&a, &b)'') (\<lambda>_. Inr st2))))))"

definition test_maps :: "mapping list" where
  "test_maps =
     map (\<lambda>(s, n). \<lparr>map_start = s, map_n = n, map_prot = 0, map_val = [], map_rw = []\<rparr>)
       [(0x1000, 0x100), (0x2000, 0x080), (0x3000, 0x100)]"

definition test_find_mapping :: "unit res" where
  "test_find_mapping =
     c_asserts
       [(find_mapping test_maps 0 = None, ''miss before first''),
        (find_mapping test_maps 0x1000 = Some 0, ''base''),
        (find_mapping test_maps (0x1000 + 0x0FF) = Some 0, ''last byte''),
        (find_mapping test_maps (0x1000 + 0x100) = None, ''end is exclusive''),
        (find_mapping test_maps (0x2000 + 0x010) = Some 1, ''interior of second''),
        (find_mapping test_maps (0x3000 + 0x0FF) = Some 2, ''last byte of third''),
        (find_mapping test_maps (0x3000 + 0x100) = None, ''end of third'')]"

text \<open>Stores of eight bytes to pages that are not mapped yet.\<close>

definition store_base :: "build \<Rightarrow> u64" where
  "store_base b = (case arch b of RISCV64 \<Rightarrow> 0x14567e0000 | AARCH64 \<Rightarrow> 0x567e0000)"

definition store_val :: u64 where
  "store_val = 0x81221483d22ef611"

text \<open>\<^verbatim>\<open>sd x1, 1(x2)\<close> and \<^verbatim>\<open>sd x1, 0(x2)\<close>, \<^verbatim>\<open>str x1, [x2, #1]\<close> and \<^verbatim>\<open>str x1, [x2, #0]\<close>\<close>

definition store_instr :: "build \<Rightarrow> u64 \<Rightarrow> u32" where
  "store_instr b offset =
     (case arch b of
        RISCV64 \<Rightarrow> if offset = 1 then 0x1130a3 else 0x113023
      | AARCH64 \<Rightarrow> if offset = 1 then 0xf8001041 else 0xf9000041)"

definition store_regs :: "build \<Rightarrow> u64 \<Rightarrow> regs \<Rightarrow> regs" where
  "store_regs b target r = set_gp_reg b ''x2'' target (set_gp_reg b ''x1'' store_val r)"

definition test_store ::
  "init_env \<Rightarrow> (u64 \<Rightarrow> bool) \<Rightarrow> u64 \<Rightarrow> u64 \<Rightarrow> regs \<Rightarrow> runner \<Rightarrow> (regs \<times> runner) res" where
  "test_store e os_mapped offset target regs7 st =
     (let b = ie_build e; t = store_regs b target regs7
      in res_bind (test_run e os_mapped st [store_instr b offset] t) (\<lambda>(r, st1).
         res_bind (c_asserts
           [(signum r = 0, ''r.signum == 0''), (length (mem_changes r) = 1, ''r.n_mem_changes == 1''),
            (mc_start (mem_changes r ! 0) = target + offset, ''r.mem_changes[0].start''),
            (mc_n (mem_changes r ! 0) = 8, ''r.mem_changes[0].n == 8''),
            (of_nat (le_load (take 8 (mc_val (mem_changes r ! 0)))) = store_val, ''*(uint64_t*)r.mem_changes[0].val == val'')])
           (\<lambda>_. Inr (t, st1))))"

definition test_stores :: "init_env \<Rightarrow> (u64 \<Rightarrow> bool) \<Rightarrow> runner \<Rightarrow> (regs \<times> runner) res" where
  "test_stores e os_mapped st =
     (let b = ie_build e
      in if \<not> (flag_CHECK_MEM b \<and> flag_AUTO_MAP_MEM b) then Inr (zero_regs b, st)
         else res_bind (test_store e os_mapped 1 (store_base b + (page_size b - 1)) (zero_regs b) st) (\<lambda>(t, st1).
              test_store e os_mapped 0 (store_base b + (page_size b - 8)) t st1))"

definition test_disasm :: "init_env \<Rightarrow> unit res" where
  "test_disasm e =
     (let b = ie_build e
      in if ie_disasm e (NOP_32 b) \<noteq> Some ''nop'' then Inl (Exit EXIT_FAILURE ''disasm_opcodes(NOP_32)'')
         else if ie_disasm e (add_instr b) \<noteq>
                Some (case arch b of RISCV64 \<Rightarrow> ''addi'' @ [CHR 0x09] @ ''t0,t0,1''
                                   | AARCH64 \<Rightarrow> ''add'' @ [CHR 0x09] @ ''x0, x1, #0x1'')
         then Inl (Exit EXIT_FAILURE ''disasm_opcodes(add)'') else Inr ())"

definition test_vector_size :: "init_env \<Rightarrow> unit res" where
  "test_vector_size e =
     (if arch (ie_build e) = RISCV64 \<and> flag_VECTOR (ie_build e) \<and> ie_max_vec_size e \<noteq> of_nat VEC_REG_SIZE
      then Inl (Exit EXIT_FAILURE ''The vector size mismatches the one of the fuzzer'') else Inr ())"

text \<open>\<open>ie_fp_status\<close> is the floating-point status register before and after the run.\<close>

definition test_fp_status :: "init_env \<Rightarrow> (u64 \<Rightarrow> bool) \<Rightarrow> regs \<Rightarrow> runner \<Rightarrow> runner res" where
  "test_fp_status e os_mapped regs7 st =
     res_bind (test_run e os_mapped st [NOP_32 (ie_build e)] regs7) (\<lambda>(_, st1).
     res_bind (c_assert (ie_fp_status e 0 = ie_fp_status e 1) ''before == after'') (\<lambda>_. Inr st1))"

definition test_meta :: "init_env \<Rightarrow> (u64 \<Rightarrow> bool) \<Rightarrow> regs \<Rightarrow> runner \<Rightarrow> runner res" where
  "test_meta e os_mapped regs7 st =
     (if \<not> flag_META (ie_build e) then Inr st
      else res_bind (test_run e os_mapped st [NOP_32 (ie_build e)] regs7) (\<lambda>(r, st1).
           res_bind (if meta_instret r > 0
                     then c_asserts [(signum r = 0, ''_r.signum == 0''), (meta_instret r = 1, ''_r.meta.instret == 1''),
                                     (meta_cycle r > 0, ''_r.meta.cycle > 0'')]
                     else Inr ()) (\<lambda>_. Inr st1)))"

text \<open>The two changes \<open>a\<close> and \<open>b\<close> start equal; then one member of \<open>b\<close> after the other is altered.\<close>

definition test_change :: mem_change where
  "test_change = \<lparr>mc_start = 0x1000, mc_n = 32, mc_val = map (\<lambda>i. of_nat (i * 3 + 1)) [0..<CHECK_MEM_CUT_AT],
                  mc_checksum = 0xdeadbeef\<rparr>"

definition test_mem_change_equal :: "build \<Rightarrow> unit res" where
  "test_mem_change_equal b =
     (if \<not> flag_CHECK_MEM b then Inr ()
      else let a = test_change; flip = a\<lparr>mc_val := (mc_val a)[0 := mc_val a ! 0 XOR 0xFF]\<rparr>
           in c_asserts
             [(mem_change_equal a a, ''mem_change_equal(&a, &b)''),
              (\<not> mem_change_equal a (a\<lparr>mc_checksum := 0xabadcafe\<rparr>), ''checksum''),
              (\<not> mem_change_equal a flip, ''val''),
              (mem_change_equal a (flip\<lparr>mc_val := (mc_val flip)[0 := mc_val flip ! 0 XOR 0xFF]\<rparr>), ''val restored''),
              (\<not> mem_change_equal a (a\<lparr>mc_n := 16\<rparr>), ''n''),
              (\<not> mem_change_equal a (a\<lparr>mc_start := mc_start a + 8\<rparr>), ''start'')])"

section \<open>The whole function\<close>

definition self_tests :: "init_env \<Rightarrow> (u64 \<Rightarrow> bool) \<Rightarrow> runner \<Rightarrow> runner res" where
  "self_tests e os_mapped st =
     (let b = ie_build e
      in res_bind (assert_names b (name_tests b)) (\<lambda>_.
         res_bind (test_rounds e os_mapped [False, True] st) (\<lambda>st1.
         res_bind (test_full_seq e os_mapped st1) (\<lambda>st2.
         res_bind (test_equality e os_mapped (NOP_32 b) True st2) (\<lambda>st3.
         res_bind (test_equality e os_mapped (add_instr b) False st3) (\<lambda>st4.
         res_bind test_find_mapping (\<lambda>_.
         res_bind (test_stores e os_mapped st4) (\<lambda>(regs7, st5).
         res_bind (test_disasm e) (\<lambda>_.
         res_bind (test_vector_size e) (\<lambda>_.
         res_bind (test_fp_status e os_mapped regs7 st5) (\<lambda>st6.
         res_bind (test_meta e os_mapped regs7 st6) (\<lambda>st7.
         res_bind (test_mem_change_equal b) (\<lambda>_. Inr st7)))))))))))))"

definition runner_init :: "init_env \<Rightarrow> (u64 \<Rightarrow> bool) \<Rightarrow> runner \<Rightarrow> runner res" where
  "runner_init e os_mapped st =
     (let os' = unmapped_code (ie_build e) st os_mapped
      in res_bind (map_runner_code e os_mapped st) (\<lambda>st1.
         res_bind (map_alt_stack e os' st1) (\<lambda>st2.
         res_bind (install_handlers e caught_signals) (\<lambda>_.
         if \<not> ie_timer_create e then Inl (Exit 1 ''timer_create'')
         else res_bind (calibrate e os' st2) (\<lambda>st3. self_tests e os' st3)))))"

section \<open>What the architecture says of the tested instructions\<close>

text \<open>
  The instructions of the tests, as the RISC-V and Arm manuals define them. A store needs a writable
  mapping that holds all eight bytes and faults otherwise; every word that is not one of the
  instructions is illegal here. The variable of the vector test is the only other memory they read.
\<close>

datatype step_end = Next regs "mapping list" | Fault i32 u64

definition store_target :: "u64 \<Rightarrow> mapping \<Rightarrow> bool" where
  "store_target a m \<longleftrightarrow>
     map_prot m AND PROT_WRITE \<noteq> 0 \<and> unat (map_start m) \<le> unat a \<and> unat a + 8 \<le> unat (map_start m) + map_n m"

definition store_bytes :: "u64 \<Rightarrow> u64 \<Rightarrow> mapping \<Rightarrow> mapping" where
  "store_bytes a v m =
     (let k = unat (a - map_start m)
      in m\<lparr>map_rw := take k (map_rw m) @ le_store 8 (unat v) @ drop (k + 8) (map_rw m)\<rparr>)"

definition isa_store :: "build \<Rightarrow> u64 \<Rightarrow> regs \<Rightarrow> mapping list \<Rightarrow> step_end" where
  "isa_store b offset r ms =
     (let a = gp_reg b r ''x2'' + offset
      in if list_ex (store_target a) ms
         then Next r (map (\<lambda>m. if store_target a m then store_bytes a (gp_reg b r ''x1'') m else m) ms)
         else Fault SIGSEGV a)"

definition isa_step :: "build \<Rightarrow> u64 \<Rightarrow> u32 \<Rightarrow> regs \<Rightarrow> mapping list \<Rightarrow> step_end" where
  "isa_step b v0 i r ms =
     (if i = NOP_32 b then Next r ms
      else if i = add_instr b
      then Next (case arch b of RISCV64 \<Rightarrow> set_gp_reg b ''t0'' (gp_reg b r ''t0'' + 1) r
                              | AARCH64 \<Rightarrow> set_gp_reg b ''x0'' (gp_reg b r ''x1'' + 1) r) ms
      else if i = store_instr b 1 then isa_store b 1 r ms
      else if i = store_instr b 0 then isa_store b 0 r ms
      else if i = vector_load_instr b \<and> flag_VECTOR b \<and> gp_reg b r (v0_pointer b) = v0
      then Next (r\<lparr>vec := (vec r)[0 := v0_bytes]\<rparr>) ms
      else Fault SIGILL 0)"

fun isa_run :: "build \<Rightarrow> u64 \<Rightarrow> u64 \<Rightarrow> u32 list \<Rightarrow> regs \<Rightarrow> mapping list \<Rightarrow> run_end \<times> u8 list list" where
  "isa_run b v0 pc [] r ms = (Returned r, map map_rw ms)"
| "isa_run b v0 pc (i # is) r ms =
     (case isa_step b v0 i r ms of
        Next r' ms' \<Rightarrow> isa_run b v0 (pc + 4) is r' ms'
      | Fault sig a \<Rightarrow>
          (Trapped \<lparr>sc_signum = sig, sc_si_addr = a, sc_si_code = 1, sc_pc = pc, sc_regs = r\<rparr>, map map_rw ms))"

text \<open>
  How an execution may differ from that: the harness uses x29 to return, the code of a signal and the
  address of an illegal instruction are open, and so is the status a trap reports.
\<close>

definition same_end :: "build \<Rightarrow> run_end \<Rightarrow> run_end \<Rightarrow> bool" where
  "same_end b actual expected =
     (case expected of
        Returned r \<Rightarrow> (\<exists>x. actual = Returned (set_gp_reg b ''x29'' x r))
      | Trapped sc \<Rightarrow>
          (\<exists>sc'. actual = Trapped sc' \<and> sc_signum sc' = sc_signum sc \<and> sc_pc sc' = sc_pc sc \<and>
             (sc_signum sc = SIGSEGV \<longrightarrow> sc_si_addr sc' = sc_si_addr sc) \<and>
             gp (sc_regs sc') = gp (sc_regs sc) \<and> vec (sc_regs sc') = vec (sc_regs sc)))"

definition test_instrs :: "build \<Rightarrow> u32 list" where
  "test_instrs b =
     [NOP_32 b, INVALID_32, add_instr b, store_instr b 1, store_instr b 0] @
     (if flag_VECTOR b then [vector_load_instr b] else [])"

text \<open>The registers the tests start from.\<close>

definition test_regs :: "build \<Rightarrow> u64 \<Rightarrow> regs list" where
  "test_regs b v0 =
     (let t1 = store_regs b (store_base b + (page_size b - 1)) (zero_regs b)
      in [zero_regs b, set_gp_reg b (v0_pointer b) v0 (zero_regs b), t1,
          store_regs b (store_base b + (page_size b - 8)) t1])"

text \<open>
  A processor follows the architecture when every program of these instructions, started from these
  registers, ends as it says, whichever pages were mapped on demand.
\<close>

definition follows_isa :: "build \<Rightarrow> u64 \<Rightarrow> u64 \<Rightarrow> hw \<Rightarrow> bool" where
  "follows_isa b v0 start hw \<longleftrightarrow>
     (\<forall>c regs ms. set c \<subseteq> set (test_instrs b) \<longrightarrow> length c = MAX_SEQ_LEN b \<longrightarrow> regs \<in> set (test_regs b v0) \<longrightarrow>
        list_all wf_mapping ms \<longrightarrow> list_all (auto_page b) ms \<longrightarrow>
        same_end b (ex_end (hw c regs ms)) (fst (isa_run b v0 start c regs ms)) \<and>
        ex_mem (hw c regs ms) = snd (isa_run b v0 start c regs ms))"

section \<open>One run of a test\<close>

lemma c_asserts_ok [simp]: "c_asserts cs = Inr () \<longleftrightarrow> list_all fst cs"
  by (induction cs rule: c_asserts.induct) (auto simp: c_assert_def)

lemma c_asserts_all: "list_all fst cs \<Longrightarrow> c_asserts cs = Inr ()"
  by simp

definition counted :: "build \<Rightarrow> execution \<Rightarrow> u64" where
  "counted b ex = (if arch b = RISCV64 then instret (ex_meta_post ex) - instret (ex_meta_pre ex) else 0)"

text \<open>The result of an execution.\<close>

definition outcome :: "build \<Rightarrow> runner \<Rightarrow> regs \<Rightarrow> execution \<Rightarrow> result \<Rightarrow> bool" where
  "outcome b st regs_before ex r \<longleftrightarrow>
     (case ex_end ex of
        Returned _ \<Rightarrow> signum r = 0 \<and> si_addrr r = 0 \<and> si_pc r = 0 \<and> si_code r = 0
      | Trapped sc \<Rightarrow> signum r = sc_signum sc \<and> si_addrr r = sc_si_addr sc \<and> si_pc r = sc_pc sc \<and> si_code r = sc_si_code sc) \<and>
     instr_idx r = derive_instr_idx b st (signum r) (si_pc r) \<and>
     (\<exists>old. regs_result r = end_regs b regs_before old (ex_end ex)) \<and>
     (flag_META b \<longrightarrow>
        meta_cycle r = cycle (ex_meta_post ex) - cycle (ex_meta_pre ex) \<and>
        meta_instret r = counted b ex - (if signum r = 0 then instret_base_no_signal st else instret_base_signal st))"

lemma collect_fields:
  assumes "collect_result b s = Inr r"
  shows "signum r = global_signum s" "si_addrr r = global_si_addr s" "si_pc r = global_si_pc s" "si_code r = global_si_code s"
    "instr_idx r = derive_instr_idx b s (global_signum s) (global_si_pc s)" "regs_result r = gregs_result s"
    "flag_META b \<Longrightarrow> meta_cycle r = cycle (meta_post s) - cycle (meta_pre s)"
    "flag_META b \<Longrightarrow> meta_instret r = (if arch b = RISCV64 then instret (meta_post s) - instret (meta_pre s) else 0) -
       (if global_signum s = 0 then instret_base_no_signal s else instret_base_signal s)"
  using assms unfolding collect_result_def Let_def c_assert_def
  by (cases "flag_META b"; force split: if_split_asm)+

lemma after_run_idx: "derive_instr_idx b (after_run b st instr regs_before ex) sig pc = derive_instr_idx b st sig pc"
  unfolding derive_instr_idx_def runner_code_end_def after_run_def by simp

lemma collect_outcome:
  assumes "collect_result b (after_run b st instr regs_before ex) = Inr r"
  shows "outcome b st regs_before ex r"
proof -
  note fields = collect_fields [OF assms, unfolded after_run_idx]
  have "regs_result r = end_regs b regs_before (gregs_result st) (ex_end ex)"
    by (simp add: fields(6) after_run_def)
  moreover have "case ex_end ex of
      Returned _ \<Rightarrow> signum r = 0 \<and> si_addrr r = 0 \<and> si_pc r = 0 \<and> si_code r = 0
    | Trapped sc \<Rightarrow> signum r = sc_signum sc \<and> si_addrr r = sc_si_addr sc \<and> si_pc r = sc_pc sc \<and> si_code r = sc_si_code sc"
    by (simp add: fields(1-4) after_run_def split: run_end.split)
  moreover have "instr_idx r = derive_instr_idx b st (signum r) (si_pc r)" by (simp add: fields(1,3,5))
  moreover have "meta_cycle r = cycle (ex_meta_post ex) - cycle (ex_meta_pre ex)"
    "meta_instret r = counted b ex - (if signum r = 0 then instret_base_no_signal st else instret_base_signal st)"
    if "flag_META b"
    using that by (simp_all add: fields(1,7,8) after_run_def counted_def)
  ultimately show ?thesis by (auto simp: outcome_def)
qed

lemma outcome_env: "same_env (st\<lparr>live := []\<rparr>) (st'\<lparr>live := []\<rparr>) \<Longrightarrow> outcome b st regs_before ex r = outcome b st' regs_before ex r"
  by (simp add: outcome_def same_env_def derive_instr_idx_def runner_code_end_def)

lemma outcome_changes [simp]: "outcome b st regs_before ex (r\<lparr>mem_changes := cs\<rparr>) = outcome b st regs_before ex r"
  by (simp add: outcome_def split: run_end.split)

text \<open>A run over pages that were mapped on demand (\<open>extra\<close>), in terms of the processor.\<close>

lemma extra_run_outcome:
  assumes "runner_inv b st" and "length instr \<le> MAX_SEQ_LEN b" and "list_all wf_mapping extra"
    and "run_with_instr_seq_no_check_mem_extra_mappings b hw st instr [] extra regs_before = Inr (r, ms', extra', st')"
  shows "outcome b st regs_before (hw (padded b instr) regs_before (map loaded extra)) r \<and> ms' = [] \<and>
         extra' = set_mem (map loaded extra) (ex_mem (hw (padded b instr) regs_before (map loaded extra)))"
proof -
  have "run_with_instr_seq_no_check_mem b hw st instr [] (map loaded extra) regs_before = Inr (r, ms', extra', st')"
    using assms(3,4) by (simp add: run_with_instr_seq_no_check_mem_extra_mappings_def load_memory_mappings_wf)
  then show ?thesis
    using run_eq [OF assms(1,2), of "[]" _ hw regs_before "map loaded extra"]
    by (auto simp: Let_def res_bind_Inr_iff intro: collect_outcome)
qed

lemma first_run_outcome:
  assumes "runner_inv b st" and "length instr \<le> MAX_SEQ_LEN b"
    and "run_with_instr_seq_no_check_mem b hw st instr [] [] regs_before = Inr (r, ms', extra', st')"
  shows "outcome b st regs_before (hw (padded b instr) regs_before []) r \<and> ms' = []"
  using assms extra_run_outcome [of b st instr "[]" hw regs_before r ms' extra' st']
  by (simp add: run_with_instr_seq_no_check_mem_extra_mappings_def)

definition faults :: "execution \<Rightarrow> bool" where
  "faults ex = (case ex_end ex of Returned _ \<Rightarrow> False | Trapped sc \<Rightarrow> sc_signum sc = SIGSEGV \<or> sc_signum sc = SIGBUS)"

lemma outcome_fault: "outcome b st regs_before ex r \<Longrightarrow> is_fault r = faults ex"
  by (auto simp: outcome_def is_fault_def faults_def split: run_end.splits)

lemma no_mappings: "list_all P []"
  by simp

lemma runs_Nil [simp]: "runs [] = []"
  by (simp add: runs_def)

lemma plain_run:
  assumes pre: "run_pre b hw garbage st instr [] regs_before"
    and nofault: "\<not> faults (hw (padded b instr) regs_before [])"
  shows "\<exists>r st'. run_with_instr_seq b hw os_mapped garbage st instr [] regs_before = Inr (r, [], st') \<and>
           outcome b st regs_before (hw (padded b instr) regs_before []) r \<and> mem_changes r = [] \<and> ready b st st'"
proof -
  have inv: "runner_inv b st" "length instr \<le> MAX_SEQ_LEN b" using pre by (simp_all add: run_pre_def)
  from whole_run_ok [where os_mapped = os_mapped, OF pre] obtain r ms' st' where
    run: "run_with_instr_seq b hw os_mapped garbage st instr [] regs_before = Inr (r, ms', st')"
    and st': "runner_inv b st'" "same_env st st'" "ms' = []" by auto
  have rdy: "ready b st st'" using inv st' by (simp add: ready_def)
  show ?thesis
  proof (cases "flag_CHECK_MEM b")
    case False
    then obtain extra where
      first: "run_with_instr_seq_no_check_mem b hw st instr [] [] regs_before = Inr (r, ms', extra, st')"
      using run by (auto simp: run_with_instr_seq_def res_bind_Inr_iff)
    moreover have "mem_changes r = []"
      using first unfolding run_eq [OF inv no_mappings refl]
      by (auto simp: Let_def res_bind_Inr_iff collect_result_def c_assert_def split: if_splits)
    ultimately show ?thesis using first_run_outcome [OF inv first] run st' rdy by simp
  next
    case True
    from whole_run [where os_mapped = os_mapped, OF pre True]
    obtain r1 ms1 st1 st2 ms2 autos r' ms3 autos' st3 cs freed where
      w: "run_with_instr_seq_no_check_mem b hw st instr [] [] regs_before = Inr (r1, ms1, [], st1)"
        "map_stage b hw os_mapped instr regs_before r1 st1 ms1 = Inr (st2, ms2, autos)"
        "run_post b st [] [] st1 ms1 []"
        "run_with_instr_seq_no_check_mem_extra_mappings b hw st2 instr ms2 autos regs_before = Inr (r', ms3, autos', st3)"
        "check_mem b garbage (ms3 @ autos') = Inr cs"
        "free_memory_mappings b st3 autos' = Inr (st3\<lparr>live := live st\<rparr>, freed)"
        "run_changes b ms3 autos' (r'\<lparr>mem_changes := cs\<rparr>)" by metis
    have "\<not> is_fault r1" "ms1 = []"
      using first_run_outcome [OF inv w(1)] outcome_fault nofault by blast+
    then have stage: "st2 = st1" "ms2 = []" "autos = []" using w(2) by simp_all
    have inv1: "runner_inv b st1" "same_env st st1" using w(3) by (simp_all add: run_post_def)
    have out: "outcome b st1 regs_before (hw (padded b instr) regs_before []) r'" "ms3 = []" "autos' = []"
      using extra_run_outcome [OF inv1(1) inv(2) no_mappings w(4) [unfolded stage]] by simp_all
    have "cs = []" using w(7) out by (simp add: run_changes_def)
    moreover have "r = r'\<lparr>mem_changes := cs\<rparr>"
      using run True w(1,2,4-6) by (simp add: run_with_instr_seq_def)
    ultimately show ?thesis
      using run rdy st' out(1) outcome_env [of st st1] inv1(2) by (simp add: same_env_def)
  qed
qed

text \<open>The page a fault at \<open>a\<close> brings, and a run that faults once and then finds it.\<close>

definition demand_page :: "build \<Rightarrow> u64 \<Rightarrow> mapping" where
  "demand_page b t =
     \<lparr>map_start = t, map_n = unat (page_size b),
      map_prot = (if flag_AUTO_MAP_MEM_RW_PROT b then PROT_WRITE OR PROT_READ else gen_random_prot t),
      map_val = page_content b t (unat (page_size b)), map_rw = page_content b t (unat (page_size b))\<rparr>"

lemma loaded_set_mem: "map loaded (set_mem (map loaded ms) mem) = map loaded ms"
  by (rule loaded_ids) (simp add: set_mem_id)

lemma demand_page_wf: "wf_mapping (demand_page b t)"
  using length_page_content [OF page_size_pos(2), of b t b] page_size_pos(1) [of b]
  by (simp add: wf_mapping_def demand_page_def)

lemma demand_page_loop:
  assumes inv: "runner_inv b st" "length instr \<le> MAX_SEQ_LEN b" "wf_regs b regs_before"
      "hw_ok b (instret_base_no_signal st) (instret_base_signal st) hw"
    and fault: "auto_target b (si_addrr r) = t" "auto_map_allowed b os_mapped st t"
    and fine: "\<not> faults (hw (padded b instr) regs_before [demand_page b t])"
  shows "\<exists>st'. auto_map_loop b hw os_mapped instr regs_before r st [] [] =
           Inr (st', [], set_mem [demand_page b t] (ex_mem (hw (padded b instr) regs_before [demand_page b t])))"
proof -
  obtain m where m: "new_auto_mapping b os_mapped st t =
      Inr (st\<lparr>live := live st @ [(t, unat (page_size b))]\<rparr>, m)" (is "_ = Inr (?st1, m)") "wf_mapping m"
    using new_auto_mapping_ok [OF fault(2)] by blast
  have lm: "map loaded [m] = [demand_page b t]"
    using m(1) unfolding new_auto_mapping_eq by (auto simp: loaded_def demand_page_def split: if_splits)
  have inv1: "hw_ok b (instret_base_no_signal ?st1) (instret_base_signal ?st1) hw" "runner_inv b ?st1"
    using inv by (simp_all add: runner_inv_def)
  have "list_all wf_mapping [m]" using m(2) by simp
  from extra_run_ok [OF inv1 inv(2) no_mappings this inv(3)] obtain r' ms' autos' st2 where
    run: "run_with_instr_seq_no_check_mem_extra_mappings b hw ?st1 instr [] [m] regs_before = Inr (r', ms', autos', st2)"
    by blast
  from extra_run_outcome [OF inv1(2) inv(2) \<open>list_all wf_mapping [m]\<close> run, unfolded lm]
  have out: "outcome b ?st1 regs_before (hw (padded b instr) regs_before [demand_page b t]) r'" "ms' = []"
    "autos' = set_mem [demand_page b t] (ex_mem (hw (padded b instr) regs_before [demand_page b t]))" by simp_all
  have "\<not> is_fault r'" using outcome_fault [OF out(1)] fine by simp
  with fault m(1) run out show ?thesis by (subst auto_map_loop.simps) (simp add: Let_def)
qed

lemma demand_run:
  assumes pre: "run_pre b hw garbage st instr [] regs_before" and cm: "flag_CHECK_MEM b" "flag_AUTO_MAP_MEM b"
    and trap: "ex_end (hw (padded b instr) regs_before []) = Trapped sc" "sc_signum sc = SIGSEGV"
      "auto_target b (sc_si_addr sc) = t" "auto_map_allowed b os_mapped st t"
    and fine: "ex = hw (padded b instr) regs_before [demand_page b t]" "\<not> faults ex"
  shows "\<exists>r st'. run_with_instr_seq b hw os_mapped garbage st instr [] regs_before = Inr (r, [], st') \<and>
           outcome b st regs_before ex r \<and> ready b st st' \<and>
           list_all2 records_run (mem_changes r)
             (take (CHECK_MEM_MAX_NUMBER_MEM_CHANGES b) (runs (set_mem [demand_page b t] (ex_mem ex))))"
proof -
  have inv: "runner_inv b st" "length instr \<le> MAX_SEQ_LEN b" "wf_regs b regs_before"
      "hw_ok b (instret_base_no_signal st) (instret_base_signal st) hw" using pre by (simp_all add: run_pre_def)
  let ?autos = "set_mem [demand_page b t] (ex_mem ex)"
  from whole_run_ok [where os_mapped = os_mapped, OF pre] obtain r ms' st' where
    run: "run_with_instr_seq b hw os_mapped garbage st instr [] regs_before = Inr (r, ms', st')"
    and st': "runner_inv b st'" "same_env st st'" "ms' = []" by auto
  from whole_run [where os_mapped = os_mapped, OF pre cm(1)]
  obtain r1 ms1 st1 st2 ms2 autos r' ms3 autos' st3 cs freed where
    w: "run_with_instr_seq_no_check_mem b hw st instr [] [] regs_before = Inr (r1, ms1, [], st1)"
      "map_stage b hw os_mapped instr regs_before r1 st1 ms1 = Inr (st2, ms2, autos)"
      "run_post b st [] [] st1 ms1 []"
      "run_with_instr_seq_no_check_mem_extra_mappings b hw st2 instr ms2 autos regs_before = Inr (r', ms3, autos', st3)"
      "check_mem b garbage (ms3 @ autos') = Inr cs"
      "free_memory_mappings b st3 autos' = Inr (st3\<lparr>live := live st\<rparr>, freed)"
      "run_changes b ms3 autos' (r'\<lparr>mem_changes := cs\<rparr>)" "run_post b st2 ms2 autos st3 ms3 autos'"
      "list_all wf_mapping autos" "same_env st (st3\<lparr>live := live st\<rparr>)" by metis
  have out1: "outcome b st regs_before (hw (padded b instr) regs_before []) r1" "ms1 = []"
    using first_run_outcome [OF inv(1,2) w(1)] by simp_all
  have fault: "is_fault r1" "auto_target b (si_addrr r1) = t"
    using out1(1) trap by (simp_all add: outcome_def is_fault_def)
  have inv1: "runner_inv b st1" "same_env st st1" using w(3) by (simp_all add: run_post_def)
  have hw1: "hw_ok b (instret_base_no_signal st1) (instret_base_signal st1) hw"
    using inv(4) inv1(2) by (simp add: same_env_def)
  have "auto_map_allowed b os_mapped st1 t"
    using auto_map_allowed_indep [of b st st1 os_mapped t] trap(4) inv(1) inv1 by (simp add: ready_def)
  with hw1 have stage: "ms2 = []" "autos = ?autos"
    using demand_page_loop [OF inv1(1) inv(2,3) _ fault(2), where hw = hw and os_mapped = os_mapped] fine
      w(2) fault(1) out1(2) cm(2) by auto
  have "loaded (demand_page b t) = demand_page b t" by (simp add: loaded_def demand_page_def)
  with loaded_set_mem [of "[demand_page b t]"] have lm: "map loaded ?autos = [demand_page b t]" by simp
  have "list_all wf_mapping ms1" using w(3) by (simp add: run_post_def)
  from map_stage_ok [where os_mapped = os_mapped and r = r1, OF hw1 inv1(1) inv(2) this inv(3)]
  have ge: "runner_inv b st2" "same_env (st1\<lparr>live := []\<rparr>) (st2\<lparr>live := []\<rparr>)" unfolding w(2) by auto
  have out: "outcome b st2 regs_before ex r'" "ms3 = []" "autos' = ?autos"
    using extra_run_outcome [OF ge(1) inv(2) w(9) w(4) [unfolded stage(1)]] unfolding stage(2) lm fine(1) [symmetric]
    by simp_all
  have "outcome b st regs_before ex r'"
    using out(1) outcome_env [of st st2] ge(2) inv1(2) by (simp add: same_env_def)
  moreover have "r = r'\<lparr>mem_changes := cs\<rparr>"
    using run cm w(1,2,4-6) by (simp add: run_with_instr_seq_def)
  ultimately show ?thesis
    using run st' inv(1) w(7) out(2,3) by (simp add: ready_def run_changes_def)
qed

section \<open>Processors that follow the architecture\<close>

definition test_ready :: "init_env \<Rightarrow> runner \<Rightarrow> bool" where
  "test_ready e st \<longleftrightarrow>
     (let b = ie_build e
      in valid_build b \<and> 0 < MAX_SEQ_LEN b \<and> MAX_SEQ_LEN b < 2 ^ 30 \<and> 0 < runner_code_start st \<and>
         unat (runner_code_start st) + 4 * MAX_SEQ_LEN b < 2 ^ 64 \<and>
         follows_isa b (ie_v0 e) (runner_code_start st) (ie_hw e) \<and>
         hw_ok b (instret_base_no_signal st) (instret_base_signal st) (ie_hw e) \<and> runner_inv b st \<and>
         length (ie_garbage e) = CHECK_MEM_CUT_AT)"

lemma test_ready_ready: "test_ready e st \<Longrightarrow> ready (ie_build e) st st' \<Longrightarrow> test_ready e st'"
  by (simp add: test_ready_def ready_def same_env_def Let_def)

lemma gp_index_less: "gp_index b name < gp_count b"
proof -
  have *: "member_index ns m = Some i \<Longrightarrow> i < length ns" for ns m i
    by (induction ns arbitrary: i) (auto split: if_splits)
  have "0 < gp_count b" by (cases "arch b") simp_all
  then show ?thesis by (auto simp: gp_index_def gp_count_def dest: * split: option.split)
qed

lemma wf_set_gp_reg [simp]: "wf_regs b (set_gp_reg b name v r) = wf_regs b r"
  by (simp add: wf_regs_def set_gp_reg_def)

lemma test_regs_wf: "r \<in> set (test_regs b v0) \<Longrightarrow> wf_regs b r"
  by (auto simp: test_regs_def Let_def store_regs_def)

lemma isa_run_nops [simp]: "isa_run b v0 pc (replicate n (NOP_32 b)) r ms = (Returned r, map map_rw ms)"
  by (induction n arbitrary: pc) (simp_all add: isa_step_def)

lemma isa_run_padded:
  assumes "0 < MAX_SEQ_LEN b"
  shows "isa_run b v0 pc (padded b [i]) r ms =
           (case isa_step b v0 i r ms of
              Next r' ms' \<Rightarrow> (Returned r', map map_rw ms')
            | Fault sig a \<Rightarrow>
                (Trapped \<lparr>sc_signum = sig, sc_si_addr = a, sc_si_code = 1, sc_pc = pc, sc_regs = r\<rparr>, map map_rw ms))"
  by (simp add: padded_def split: step_end.split)

text \<open>The words of the tests are different instructions.\<close>

lemmas test_words = NOP_32_def add_instr_def store_instr_def vector_load_instr_def

lemma isa_step_invalid [simp]: "isa_step b v0 0 r ms = Fault SIGILL 0"
  by (cases "arch b") (simp_all add: isa_step_def test_words)

lemma padded_words:
  assumes "set instr \<subseteq> set (test_instrs b)" and "length instr \<le> MAX_SEQ_LEN b"
  shows "set (padded b instr) \<subseteq> set (test_instrs b)" "length (padded b instr) = MAX_SEQ_LEN b"
  using assms by (auto simp: padded_def test_instrs_def)

lemma follows_isaD:
  assumes "follows_isa b v0 start hw" and "set instr \<subseteq> set (test_instrs b)" and "length instr \<le> MAX_SEQ_LEN b"
    and "regs \<in> set (test_regs b v0)" and "list_all wf_mapping ms" and "list_all (auto_page b) ms"
  shows "same_end b (ex_end (hw (padded b instr) regs ms)) (fst (isa_run b v0 start (padded b instr) regs ms))"
    "ex_mem (hw (padded b instr) regs ms) = snd (isa_run b v0 start (padded b instr) regs ms)"
  using assms(1) padded_words [OF assms(2,3)] assms(4-6) by (auto simp: follows_isa_def)

lemma same_end_faults:
  "same_end b (ex_end ex) (Returned r) \<Longrightarrow> \<not> faults ex"
  "same_end b (ex_end ex) (Trapped sc) \<Longrightarrow> faults ex = (sc_signum sc = SIGSEGV \<or> sc_signum sc = SIGBUS)"
  by (auto simp: same_end_def faults_def)

lemma test_run_isa:
  assumes rdy: "test_ready e st" and args: "set instr \<subseteq> set (test_instrs (ie_build e))"
      "length instr \<le> MAX_SEQ_LEN (ie_build e)" "regs \<in> set (test_regs (ie_build e) (ie_v0 e))"
    and fin: "isa_run (ie_build e) (ie_v0 e) (runner_code_start st) (padded (ie_build e) instr) regs [] = (end', [])"
    and ok: "case end' of Returned _ \<Rightarrow> True | Trapped sc \<Rightarrow> sc_signum sc = SIGILL"
    and ex: "ex = ie_hw e (padded (ie_build e) instr) regs []"
  shows "\<exists>r st'. test_run e os_mapped st instr regs = Inr (r, st') \<and> outcome (ie_build e) st regs ex r \<and>
           same_end (ie_build e) (ex_end ex) end' \<and> mem_changes r = [] \<and> ready (ie_build e) st st' \<and> test_ready e st'"
proof -
  let ?b = "ie_build e"
  have pre: "run_pre ?b (ie_hw e) (ie_garbage e) st instr [] regs"
    using rdy args test_regs_wf by (auto simp: run_pre_def test_ready_def Let_def)
  have "follows_isa ?b (ie_v0 e) (runner_code_start st) (ie_hw e)"
    using rdy by (simp add: test_ready_def Let_def)
  from follows_isaD(1) [OF this args no_mappings no_mappings] fin ex
  have same: "same_end ?b (ex_end ex) end'" by simp
  with ok have "\<not> faults ex" by (auto simp: same_end_faults split: run_end.splits)
  from plain_run [where os_mapped = os_mapped, OF pre this [unfolded ex]] obtain r st' where
    "run_with_instr_seq ?b (ie_hw e) os_mapped (ie_garbage e) st instr [] regs = Inr (r, [], st')"
    "outcome ?b st regs ex r" "mem_changes r = []" "ready ?b st st'" unfolding ex by blast
  with same test_ready_ready [OF rdy] show ?thesis by (simp add: test_run_def)
qed

text \<open>One instruction that does not trap, and one with an illegal instruction behind it.\<close>

lemma run_one:
  assumes rdy: "test_ready e st" and args: "i \<in> set (test_instrs (ie_build e))"
      "regs \<in> set (test_regs (ie_build e) (ie_v0 e))"
    and step: "isa_step (ie_build e) (ie_v0 e) i regs [] = Next regs' []"
    and x29: "gp_reg (ie_build e) regs' ''x29'' = gp_reg (ie_build e) regs ''x29''"
  shows "\<exists>r st'. test_run e os_mapped st [i] regs = Inr (r, st') \<and>
           outcome (ie_build e) st regs (ie_hw e (padded (ie_build e) [i]) regs []) r \<and>
           signum r = 0 \<and> si_addrr r = 0 \<and> si_pc r = 0 \<and> si_code r = 0 \<and> regs_result r = regs' \<and>
           mem_changes r = [] \<and> ready (ie_build e) st st' \<and> test_ready e st'"
proof -
  let ?b = "ie_build e" and ?ex = "ie_hw e (padded (ie_build e) [i]) regs []"
  have len: "0 < MAX_SEQ_LEN ?b" using rdy by (simp add: test_ready_def Let_def)
  have fin: "isa_run ?b (ie_v0 e) (runner_code_start st) (padded ?b [i]) regs [] = (Returned regs', [])"
    by (simp add: isa_run_padded [OF len] step)
  obtain r st' where run: "test_run e os_mapped st [i] regs = Inr (r, st')" "outcome ?b st regs ?ex r"
      "same_end ?b (ex_end ?ex) (Returned regs')" "mem_changes r = []" "ready ?b st st'" "test_ready e st'"
    using test_run_isa [where os_mapped = os_mapped, OF rdy _ _ args(2) fin _ refl] len args(1) by auto
  obtain x where q: "ex_end ?ex = Returned (set_gp_reg ?b ''x29'' x regs')"
    using run(3) by (auto simp: same_end_def)
  have "regs'\<lparr>gp := (gp regs')[gp_index ?b ''x29'' := gp regs ! gp_index ?b ''x29'']\<rparr> = regs'"
    using x29 [symmetric] by (cases regs') (simp add: gp_reg_def)
  then have "regs_result r = regs'"
    using run(2) by (auto simp: outcome_def q end_regs_def set_gp_reg_def)
  then show ?thesis using run q by (auto simp: outcome_def)
qed

lemma run_trap:
  assumes rdy: "test_ready e st" and two: "2 \<le> MAX_SEQ_LEN (ie_build e)"
    and args: "i \<in> set (test_instrs (ie_build e))" "regs \<in> set (test_regs (ie_build e) (ie_v0 e))"
    and step: "isa_step (ie_build e) (ie_v0 e) i regs [] = Next regs' []"
  shows "\<exists>r st'. test_run e os_mapped st [i, 0] regs = Inr (r, st') \<and>
           signum r = SIGILL \<and> instr_idx r = 2 \<and> si_pc r = runner_code_start st' + 4 \<and>
           gp (regs_result r) = gp regs' \<and> (flag_VECTOR (ie_build e) \<longrightarrow> vec (regs_result r) = vec regs') \<and>
           ready (ie_build e) st st' \<and> test_ready e st'"
proof -
  let ?b = "ie_build e" and ?ex = "ie_hw e (padded (ie_build e) [i, 0]) regs []" and ?s = "runner_code_start st"
  let ?sc = "\<lparr>sc_signum = SIGILL, sc_si_addr = 0, sc_si_code = 1, sc_pc = ?s + 4, sc_regs = regs'\<rparr>"
  have fin: "isa_run ?b (ie_v0 e) ?s (padded ?b [i, 0]) regs [] = (Trapped ?sc, [])"
    using two by (simp add: padded_def step)
  have "set [i, 0] \<subseteq> set (test_instrs ?b)" using args(1) by (simp add: test_instrs_def)
  from test_run_isa [where os_mapped = os_mapped, OF rdy this _ args(2) fin _ refl] two obtain r st' where
    run: "test_run e os_mapped st [i, 0] regs = Inr (r, st')" "outcome ?b st regs ?ex r"
      "same_end ?b (ex_end ?ex) (Trapped ?sc)" "ready ?b st st'" "test_ready e st'" by auto
  obtain sc where sc: "ex_end ?ex = Trapped sc" "sc_signum sc = SIGILL" "sc_pc sc = ?s + 4"
      "gp (sc_regs sc) = gp regs'" "vec (sc_regs sc) = vec regs'"
    using run(3) by (auto simp: same_end_def)
  have bounds: "MAX_SEQ_LEN ?b < 2 ^ 30" "0 < ?s" "unat ?s + 4 * MAX_SEQ_LEN ?b < 2 ^ 64"
    using rdy by (simp_all add: test_ready_def Let_def)
  have pc: "unat (?s + 4) = unat ?s + 4"
    using bounds two by (subst unat_add_lem [THEN iffD1]) simp_all
  have "unat (derive_instr_idx ?b st SIGILL (?s + 4)) = 2"
    using unat_derive_instr_idx [OF _ bounds, of SIGILL "?s + 4"] pc two by simp
  then have idx: "derive_instr_idx ?b st SIGILL (?s + 4) = 2"
    by (intro unsigned_word_eqI [where ?'a = nat]) simp
  have "gp (regs_result r) = gp regs'" "flag_VECTOR ?b \<longrightarrow> vec (regs_result r) = vec regs'"
    using run(2) sc by (cases "arch ?b"; auto simp: outcome_def end_regs_def handler_regs_def)+
  moreover have "runner_code_start st' = ?s" using run(4) by (simp add: ready_def same_env_def)
  ultimately show ?thesis using run sc idx by (auto simp: outcome_def)
qed

lemma run_invalid:
  assumes rdy: "test_ready e st" and regs: "regs \<in> set (test_regs (ie_build e) (ie_v0 e))"
  shows "\<exists>r st'. test_run e os_mapped st [0] regs = Inr (r, st') \<and> signum r = SIGILL \<and>
           outcome (ie_build e) st regs (ie_hw e (padded (ie_build e) [0]) regs []) r \<and>
           ready (ie_build e) st st' \<and> test_ready e st'"
proof -
  let ?b = "ie_build e"
  have len: "0 < MAX_SEQ_LEN ?b" using rdy by (simp add: test_ready_def Let_def)
  have "set [0] \<subseteq> set (test_instrs ?b)" by (simp add: test_instrs_def)
  from test_run_isa [where os_mapped = os_mapped and instr = "[0]", OF rdy this _ regs _ _ refl] len
  show ?thesis by (force simp: isa_run_padded same_end_def outcome_def)
qed

section \<open>The stores\<close>

lemma runs_one_change:
  assumes "wf_mapping m" and "k < l" and "l \<le> map_n m"
    and eq: "\<And>j. j < map_n m \<Longrightarrow> j < k \<or> l \<le> j \<Longrightarrow> map_rw m ! j = map_val m ! j"
    and diff: "\<And>j. k \<le> j \<Longrightarrow> j < l \<Longrightarrow> map_rw m ! j \<noteq> map_val m ! j"
  shows "runs [m] = [(map_start m + of_nat k, take (l - k) (drop k (map_rw m)))]"
proof -
  let ?a = "map_start m + of_nat k" and ?xs = "take (l - k) (drop k (map_rw m))"
  have len: "length (map_rw m) = map_n m" using assms(1) by (simp add: wf_mapping_def)
  have opened: "runs_from (Some (?a, [])) (drop k (cells m)) = runs_from (Some (?a, take (j - k) (drop k (map_rw m)))) (drop j (cells m))"
    if "k \<le> j" "j \<le> l" for j
    using that
  proof (induction j rule: dec_induct)
    case (step j)
    have "j < map_n m" using step.prems assms(3) by simp
    moreover have "take (Suc j - k) (drop k (map_rw m)) = take (j - k) (drop k (map_rw m)) @ [map_rw m ! j]"
      using step.hyps calculation len by (simp add: Suc_diff_le take_Suc_conv_app_nth)
    ultimately show ?case using step diff [of j] len by (simp add: drop_cells of_nat_diff)
  qed simp
  have rest: "runs_from None (drop l (cells m)) = []"
    using runs_from_skip [of l "map_n m" m "[]"] assms(3) eq by simp
  have "runs [m] = runs_from None (drop k (cells m))"
    using runs_from_skip [of 0 k m "[]"] assms(2,3) eq by (simp add: runs_def)
  also have "\<dots> = runs_from (Some (?a, [])) (drop k (cells m))"
    using assms(2,3) diff [of k] by (simp add: drop_cells)
  also have "\<dots> = runs_from (Some (?a, ?xs)) (drop l (cells m))"
    using opened [of l] assms(2) by simp
  also have "\<dots> = (?a, ?xs) # runs_from None (drop l (cells m))"
  proof (rule runs_from_close)
    fix x v cs'
    assume d: "drop l (cells m) = (?a + of_nat (length ?xs), x, v) # cs'"
    then have "l < map_n m" using drop_eq_Nil [of l "cells m"] by (simp add: not_le [symmetric] del: drop_eq_Nil)
    with d eq [of l] show "x = v" by (auto simp: drop_cells)
  qed
  finally show ?thesis by (simp add: rest)
qed

text \<open>
  The two pages of the store tests: mapped on demand they are writable, and the eight bytes behind the
  tested address are other than those that are stored. (Both are functions of the addresses alone.)
\<close>

definition page_accepts :: "build \<Rightarrow> u64 \<Rightarrow> nat \<Rightarrow> bool" where
  "page_accepts b t k \<longleftrightarrow>
     map_prot (demand_page b t) AND PROT_WRITE \<noteq> 0 \<and>
     list_all (\<lambda>i. map_val (demand_page b t) ! (k + i) \<noteq> le_store 8 (unat store_val) ! i) [0..<8]"

definition test_pages :: "build \<Rightarrow> bool" where
  "test_pages b \<longleftrightarrow>
     page_accepts b (store_base b + page_size b) 0 \<and> page_accepts b (store_base b) (unat (page_size b) - 8)"

lemma stored_page:
  assumes "page_accepts b t k" and "k + 8 \<le> unat (page_size b)" and "unat t + unat (page_size b) < 2 ^ 64"
    and "a = t + of_nat k"
  shows "store_target a (demand_page b t)"
    "runs [store_bytes a store_val (demand_page b t)] = [(a, le_store 8 (unat store_val))]"
proof -
  let ?m = "demand_page b t" and ?n = "unat (page_size b)" and ?v = "le_store 8 (unat store_val)"
  let ?m' = "store_bytes a store_val ?m"
  have k: "unat (of_nat k :: u64) = k" using assms(2,3) by (simp add: unat_of_nat)
  have a: "unat a = unat t + k"
    using assms k by (subst assms(4), subst unat_add_lem [THEN iffD1]) simp_all
  show "store_target a ?m"
    using assms(1,2) a by (simp add: store_target_def page_accepts_def) (simp add: demand_page_def)
  have wf: "wf_mapping ?m" by (rule demand_page_wf)
  have n: "map_n ?m = ?n" "map_start ?m = t" "map_rw ?m = map_val ?m" by (simp_all add: demand_page_def)
  have m': "?m' = ?m\<lparr>map_rw := take k (map_val ?m) @ ?v @ drop (k + 8) (map_val ?m)\<rparr>"
    by (simp add: store_bytes_def Let_def n assms(4) k)
  have len: "length (map_val ?m) = ?n" using wf n by (simp add: wf_mapping_def)
  have "runs [?m'] = [(map_start ?m' + of_nat k, take (k + 8 - k) (drop k (map_rw ?m')))]"
  proof (rule runs_one_change)
    show "wf_mapping ?m'" using wf n len assms(2) by (simp add: m' wf_mapping_def)
    show "k < k + 8" "k + 8 \<le> map_n ?m'" using assms(2) n by (simp_all add: m')
    show "map_rw ?m' ! j = map_val ?m' ! j" if "j < map_n ?m'" "j < k \<or> k + 8 \<le> j" for j
      using that n len assms(2) by (auto simp: m' nth_append)
    show "map_rw ?m' ! j \<noteq> map_val ?m' ! j" if "k \<le> j" "j < k + 8" for j
    proof -
      have "j - k < 8" using that by simp
      then have "map_val ?m ! (k + (j - k)) \<noteq> ?v ! (j - k)"
        using assms(1) unfolding page_accepts_def list_all_iff by (metis atLeastLessThan_iff le0 set_upt)
      then show ?thesis using that len assms(2) by (auto simp: m' nth_append)
    qed
  qed
  moreover have "map_start ?m' + of_nat k = a" "take 8 (drop k (map_rw ?m')) = ?v"
    using len assms(2) by (simp_all add: m' n) (simp add: assms(4))
  ultimately show "runs [?m'] = [(a, ?v)]" by simp
qed

lemma demand_page_auto:
  assumes "auto_map_allowed b os_mapped st (auto_target b a)"
  shows "auto_page b (demand_page b (auto_target b a))"
  using assms auto_target_aligned [of b a] page_size_values [of b]
  by (auto simp: auto_page_def demand_page_def auto_map_allowed_def split: if_splits)

lemma isa_step_store:
  assumes "offset = 0 \<or> offset = 1"
  shows "isa_step b v0 (store_instr b offset) r ms = isa_store b offset r ms"
  using assms by (cases "arch b") (auto simp: isa_step_def test_words)

lemma store_instr_test: "offset = 0 \<or> offset = 1 \<Longrightarrow> store_instr b offset \<in> set (test_instrs b)"
  by (auto simp: test_instrs_def)

lemma gp_index_x12: "gp_index b ''x1'' \<noteq> gp_index b ''x2''"
  by (cases "arch b") (simp_all add: gp_index_def gp_members_def reg_name_defs)

lemma store_regs_x:
  assumes "wf_regs b r"
  shows "gp_reg b (store_regs b target r) ''x2'' = target" "gp_reg b (store_regs b target r) ''x1'' = store_val"
  using assms gp_index_less [of b] gp_index_x12 [of b]
  by (simp_all add: gp_reg_def store_regs_def set_gp_reg_def wf_regs_def)

text \<open>A store to a page that is not mapped yet passes its test.\<close>

lemma test_store_ok:
  assumes rdy: "test_ready e st" and b: "ie_build e = b" "flag_CHECK_MEM b" "flag_AUTO_MAP_MEM b"
    and offset: "offset = 0 \<or> offset = 1" and regs: "wf_regs b regs7" "store_regs b target regs7 \<in> set (test_regs b (ie_v0 e))"
    and page: "auto_target b (target + offset) = t" "auto_map_allowed b os_mapped st t" "page_accepts b t k"
      "k + 8 \<le> unat (page_size b)" "unat t + unat (page_size b) < 2 ^ 64" "target + offset = t + of_nat k"
  shows "\<exists>st'. test_store e os_mapped offset target regs7 st = Inr (store_regs b target regs7, st') \<and>
           ready b st st' \<and> test_ready e st'"
proof -
  let ?regs = "store_regs b target regs7" and ?i = "store_instr b offset" and ?a = "target + offset"
  let ?c = "padded b [?i]" and ?hw = "ie_hw e" and ?page = "demand_page b t" and ?v = "le_store 8 (unat store_val)"
  have len: "0 < MAX_SEQ_LEN b" and fol: "follows_isa b (ie_v0 e) (runner_code_start st) ?hw"
    and pre: "run_pre b ?hw (ie_garbage e) st [?i] [] ?regs"
    using rdy b(1) test_regs_wf [OF regs(2)] by (auto simp: test_ready_def run_pre_def Let_def)
  note x = store_regs_x [OF regs(1), of target] and stored = stored_page [OF page(3-6)]
  have "set [?i] \<subseteq> set (test_instrs b)" "length [?i] \<le> MAX_SEQ_LEN b"
    using store_instr_test [OF offset] len by simp_all
  note isa = follows_isaD [OF fol this regs(2)]
  have "isa_run b (ie_v0 e) (runner_code_start st) ?c ?regs [] =
      (Trapped \<lparr>sc_signum = SIGSEGV, sc_si_addr = ?a, sc_si_code = 1, sc_pc = runner_code_start st, sc_regs = ?regs\<rparr>, [])"
    by (simp add: isa_run_padded [OF len] isa_step_store [OF offset] isa_store_def Let_def x)
  with isa(1) [OF no_mappings no_mappings] obtain sc where
    trap: "ex_end (?hw ?c ?regs []) = Trapped sc" "sc_signum sc = SIGSEGV" "sc_si_addr sc = ?a"
    by (auto simp: same_end_def)
  have "isa_run b (ie_v0 e) (runner_code_start st) ?c ?regs [?page] = (Returned ?regs, [map_rw (store_bytes ?a store_val ?page)])"
    using stored(1) by (simp add: isa_run_padded [OF len] isa_step_store [OF offset] isa_store_def Let_def x)
  moreover have "list_all wf_mapping [?page]" "list_all (auto_page b) [?page]"
    using demand_page_wf demand_page_auto [of b os_mapped st ?a] page(1,2) by simp_all
  note isa [OF this]
  ultimately have fine: "same_end b (ex_end (?hw ?c ?regs [?page])) (Returned ?regs)"
    and mem: "ex_mem (?hw ?c ?regs [?page]) = [map_rw (store_bytes ?a store_val ?page)]" by simp_all
  have pages: "set_mem [?page] (ex_mem (?hw ?c ?regs [?page])) = [store_bytes ?a store_val ?page]"
    unfolding mem by (simp add: store_bytes_def Let_def)
  have "auto_target b (sc_si_addr sc) = t" using trap(3) page(1) by simp
  from demand_run [OF pre b(2,3) trap(1,2) this page(2) refl same_end_faults(1) [OF fine]] obtain r st' where
    run: "run_with_instr_seq b ?hw os_mapped (ie_garbage e) st [?i] [] ?regs = Inr (r, [], st')"
      "outcome b st ?regs (?hw ?c ?regs [?page]) r" "ready b st st'"
      "list_all2 records_run (mem_changes r) (take (CHECK_MEM_MAX_NUMBER_MEM_CHANGES b) [(?a, ?v)])"
    unfolding pages stored(2) by blast
  have "take (CHECK_MEM_MAX_NUMBER_MEM_CHANGES b) [(?a, ?v)] = [(?a, ?v)]"
    by (simp add: CHECK_MEM_MAX_NUMBER_MEM_CHANGES_def split: arch.split)
  then obtain c where c: "mem_changes r = [c]" "records_run c (?a, ?v)"
    using run(4) by (auto simp: list_all2_Cons2)
  have "mc_n c = 8" using c(2) by (intro unsigned_word_eqI [where ?'a = nat]) (simp add: records_run_def)
  moreover have "take 8 (mc_val c) = ?v" using c(2) by (simp add: records_run_def)
  then have "of_nat (le_load (take 8 (mc_val c))) = store_val" by (simp add: le_load_unat_store)
  moreover have "signum r = 0" using run(2) fine by (auto simp: outcome_def same_end_def)
  ultimately have "test_store e os_mapped offset target regs7 st = Inr (?regs, st')"
    using run(1) c b(1) by (simp add: test_store_def test_run_def Let_def records_run_def c_assert_def)
  then show ?thesis using run(3) test_ready_ready [OF rdy] b(1) by simp
qed

end
