(* ===== verification/Address_Space.thy ===== *)
theory Address_Space
  imports C_Strings Self_Test
begin

text \<open>
  lib/maps.c and \<open>clean_memory_mappings\<close> of lib/runner.c: finding sections in /proc/self/maps,
  unmapping them, and moving to a new stack, which every program of the client does before it runs
  code. The address space is the list of the kernel's regions in the order of their addresses; the text
  of /proc/self/maps is printed from it, \<^verbatim>\<open>munmap\<close> and \<^verbatim>\<open>mmap\<close> change it. The loop of \<open>unmap_section\<close> has
  no bound of its own; \<open>None\<close> says that it does not end.
\<close>

section \<open>Regions\<close>

record region =
  rg_start :: u64
  rg_end :: u64
  rg_attr :: string

definition maps_line :: "region \<Rightarrow> string" where
  "maps_line r = fmt_0x 8 (unat (rg_start r)) @ CHR ''-'' # fmt_0x 8 (unat (rg_end r)) @ rg_attr r"

definition proc_self_maps :: "region list \<Rightarrow> string" where
  "proc_self_maps rs = unlines (map maps_line rs)"

text \<open>What \<^verbatim>\<open>munmap\<close> of a range leaves of a region.\<close>

definition unmap_range :: "u64 \<Rightarrow> u64 \<Rightarrow> region \<Rightarrow> region list" where
  "unmap_range a e r =
     (if rg_start r < a then [r\<lparr>rg_end := min (rg_end r) a\<rparr>] else []) @
     (if e < rg_end r then [r\<lparr>rg_start := max (rg_start r) e\<rparr>] else [])"

definition munmap :: "u64 \<Rightarrow> u64 \<Rightarrow> region list \<Rightarrow> region list" where
  "munmap a e rs = concat (map (unmap_range a e) rs)"

section \<open>lib/maps.c\<close>

text \<open>\<open>get_addr\<close>; the variables keep what they held when a line does not begin with a range.\<close>

definition get_addr :: "string \<Rightarrow> string \<Rightarrow> (u64 \<times> u64) option res" where
  "get_addr ident maps_file =
     (case List.find (\<lambda>line. strstr line ident \<noteq> None) (fgets_lines 254 maps_file) of
        None \<Rightarrow> Inr None
      | Some line \<Rightarrow>
          (case sscanf [Conv 16, Lit (CHR ''-''), Conv 16] line of
             [start, stop] \<Rightarrow> Inr (Some (word_of_int start, word_of_int stop))
           | _ \<Rightarrow> Inl (Undefined ''start and end are not set'')))"

partial_function (option) unmap_section ::
  "(u64 \<Rightarrow> u64 \<Rightarrow> bool) \<Rightarrow> string \<Rightarrow> region list \<Rightarrow> region list res option" where
  "unmap_section granted_unmap ident rs =
     (case get_addr ident (proc_self_maps rs) of
        Inl e \<Rightarrow> Some (Inl e)
      | Inr None \<Rightarrow> Some (Inr rs)
      | Inr (Some (start, stop)) \<Rightarrow>
          if \<not> granted_unmap start stop then Some (Inl (Exit EXIT_FAILURE ''Couldn't unmap section''))
          else unmap_section granted_unmap ident (munmap start stop rs))"

declare unmap_section.simps [code]

fun unmap_sections :: "(u64 \<Rightarrow> u64 \<Rightarrow> bool) \<Rightarrow> string list \<Rightarrow> region list \<Rightarrow> region list res option" where
  "unmap_sections granted_unmap [] rs = Some (Inr rs)"
| "unmap_sections granted_unmap (ident # idents) rs =
     (case unmap_section granted_unmap ident rs of
        None \<Rightarrow> None
      | Some (Inl e) \<Rightarrow> Some (Inl e)
      | Some (Inr rs') \<Rightarrow> unmap_sections granted_unmap idents rs')"

definition unwanted_sections :: "string list" where
  "unwanted_sections = [''[vdso]'', ''[vvar]'', ''[vdso_data]'', ''---p'']"

definition clean_memory_mappings :: "(u64 \<Rightarrow> u64 \<Rightarrow> bool) \<Rightarrow> region list \<Rightarrow> region list res option" where
  "clean_memory_mappings granted_unmap rs = unmap_sections granted_unmap unwanted_sections rs"

abbreviation (input) stack_size :: u64 where "stack_size \<equiv> 0x100000"

definition overlaps :: "u64 \<Rightarrow> u64 \<Rightarrow> region \<Rightarrow> bool" where
  "overlaps a e r \<longleftrightarrow> a < rg_end r \<and> rg_start r < e"

text \<open>
  \<open>check_and_map_with_flags\<close> with \<^verbatim>\<open>MAP_FIXED_NOREPLACE\<close>: refused when the first page is mapped and when
  any other page of the range is.
\<close>

definition map_region :: "build \<Rightarrow> u64 \<Rightarrow> u64 \<Rightarrow> region list \<Rightarrow> region list res" where
  "map_region b target len rs =
     (if list_ex (overlaps target (target + page_size b)) rs then Inl (Exit 1 ''already mapped'')
      else if list_ex (overlaps target (target + len)) rs then Inl (Exit 1 ''mmap in check_and_map_with_flags failed'')
      else Inr (insort_key rg_start
                  \<lparr>rg_start = target, rg_end = target + len, rg_attr = '' rw-p 00000000 00:00 0''\<rparr> rs))"

text \<open>\<open>switch_stack\<close> with \<open>no_return_wrapper\<close>, which unmaps the old stack from the new one.\<close>

definition switch_stack :: "build \<Rightarrow> (u64 \<Rightarrow> u64 \<Rightarrow> bool) \<Rightarrow> u64 \<Rightarrow> region list \<Rightarrow> region list res option" where
  "switch_stack b granted_unmap new_address rs =
     (case res_bind (c_assert (new_address mod stack_size = 0) ''new_address % stack_size == 0'')
             (\<lambda>_. map_region b (new_address - stack_size) stack_size rs) of
        Inl e \<Rightarrow> Some (Inl e)
      | Inr rs' \<Rightarrow> unmap_section granted_unmap ''[stack]'' rs')"

definition STACK_ADDR :: "build \<Rightarrow> u64" where
  "STACK_ADDR b = (case arch b of RISCV64 \<Rightarrow> 0x081af00000 | AARCH64 \<Rightarrow> 0x391af00000)"

text \<open>\<open>print_proc_self_maps\<close> and \<open>portable_shmem_create\<close>; the answers of the kernel to its calls are a record.\<close>

definition print_proc_self_maps :: "region list \<Rightarrow> string" where
  "print_proc_self_maps rs = concat (fgets_lines 254 (proc_self_maps rs))"

record shmem_calls =
  sm_open_ashmem :: int
  sm_set_name1 :: bool
  sm_set_name2 :: bool
  sm_set_size :: bool
  sm_memfd_create :: int
  sm_ftruncate :: bool

definition portable_shmem_create :: "shmem_calls \<Rightarrow> int res" where
  "portable_shmem_create k =
     (if 0 \<le> sm_open_ashmem k
      then (if \<not> sm_set_name1 k \<and> \<not> sm_set_name2 k then Inl (Exit EXIT_FAILURE ''ioctl(ASHMEM_SET_NAME)'')
            else if \<not> sm_set_size k then Inl (Exit EXIT_FAILURE ''ioctl(ASHMEM_SET_SIZE)'')
            else Inr (sm_open_ashmem k))
      else if sm_memfd_create k = -1 then Inl (Exit EXIT_FAILURE ''memfd_create'')
      else if \<not> sm_ftruncate k then Inl (Exit EXIT_FAILURE ''ftruncate'')
      else Inr (sm_memfd_create k))"

text \<open>The end of every \<^verbatim>\<open>main\<close>: both steps.\<close>

definition enter_sandbox :: "build \<Rightarrow> (u64 \<Rightarrow> u64 \<Rightarrow> bool) \<Rightarrow> region list \<Rightarrow> region list res option" where
  "enter_sandbox b granted_unmap rs =
     (case clean_memory_mappings granted_unmap rs of
        None \<Rightarrow> None
      | Some (Inl e) \<Rightarrow> Some (Inl e)
      | Some (Inr rs') \<Rightarrow> switch_stack b granted_unmap (STACK_ADDR b) rs')"

section \<open>Address spaces as the kernel prints them\<close>

text \<open>
  Regions are disjoint, ordered and not empty; a line begins with the range, then comes a blank, and it
  fits the buffer of \<open>get_addr\<close>.
\<close>

definition wf_region :: "region \<Rightarrow> bool" where
  "wf_region r \<longleftrightarrow>
     rg_start r < rg_end r \<and> starts_with '' '' (rg_attr r) \<and> newline \<notin> set (rg_attr r) \<and> length (maps_line r) \<le> 254"

definition wf_space :: "region list \<Rightarrow> bool" where
  "wf_space rs \<longleftrightarrow> list_all wf_region rs \<and> sorted_wrt (\<lambda>r r'. rg_end r \<le> rg_start r') rs"

definition named :: "string \<Rightarrow> region \<Rightarrow> bool" where
  "named ident r \<longleftrightarrow> strstr (maps_line r @ [newline]) ident \<noteq> None"

lemma maps_line_newline: "wf_region r \<Longrightarrow> newline \<notin> set (maps_line r)"
  by (auto simp: wf_region_def maps_line_def number_chars)

lemma fgets_maps:
  "list_all wf_region rs \<Longrightarrow> fgets_lines 254 (proc_self_maps rs) = map (\<lambda>r. maps_line r @ [newline]) rs"
  unfolding proc_self_maps_def
  by (subst fgets_lines_unlines) (auto simp: list_all_iff maps_line_newline wf_region_def)

text \<open>What is printed is the whole text, also when lines do not fit the buffer.\<close>

lemma take_line_append: "fst (take_line n s) @ snd (take_line n s) = s"
  by (induction n s rule: take_line.induct) (auto split: prod.split)

lemma concat_fgets: "concat (fgets_lines n s) = s"
proof (induction n s rule: fgets_lines.induct)
  case (1 n s)
  then show ?case using take_line_append [of "Suc n" s] by (cases "s = []") (simp_all add: fgets_lines.simps [of n])
qed

lemma print_proc_self_maps_all: "print_proc_self_maps rs = proc_self_maps rs"
  by (simp add: print_proc_self_maps_def concat_fgets)

lemma shmem_descriptor: "portable_shmem_create k = Inr fd \<Longrightarrow> -1 \<le> sm_memfd_create k \<Longrightarrow> 0 \<le> fd"
  by (auto simp: portable_shmem_create_def split: if_splits)

lemma fmt_0x_chars: "c \<in> set (fmt_0x w n) \<Longrightarrow> \<exists>d < 16. c = hex_digit d"
  using set_digits_of [of 16 c n]
  by (auto simp: fmt_0x_def fmt_x_digits hex_digit_def hex_digits_def intro: exI [of _ 0] split: if_splits)

lemma fmt_0x_Cons: "\<exists>d cs. fmt_0x w n = hex_digit d # cs \<and> d < 16"
proof -
  obtain d cs where "digits_of 16 n = hex_digit d # cs" by (rule digits_of_Cons [of 16 n]) simp_all
  then have "fmt_0x w n \<noteq> []" by (simp add: fmt_0x_def fmt_x_digits)
  then obtain c t where "fmt_0x w n = c # t" by (cases "fmt_0x w n") auto
  with fmt_0x_chars [of c w n] show ?thesis by auto
qed

text \<open>A hexadecimal number without a prefix.\<close>

lemma scan_bare_hex:
  assumes "n < 2 ^ 64" and "no_digit 16 s" and s: "take 1 s \<noteq> ''x''" "take 1 s \<noteq> ''X''"
  shows "scan_int 16 (fmt_0x w n @ s) = Some (int n, s)"
proof -
  obtain d cs where d: "fmt_0x w n = hex_digit d # cs" "d < 16" using fmt_0x_Cons by blast
  have "c1 \<noteq> CHR ''x''" "c1 \<noteq> CHR ''X''" if "cs @ s = c1 # t" for c1 t
  proof (atomize (full), cases cs)
    case Nil
    with that s show "c1 \<noteq> CHR ''x'' \<and> c1 \<noteq> CHR ''X''" by auto
  next
    case (Cons c cs')
    then have "c1 \<in> set (fmt_0x w n)" using that d by simp
    with fmt_0x_chars [of c1 w n] show "c1 \<noteq> CHR ''x'' \<and> c1 \<noteq> CHR ''X''" by auto
  qed
  then have "scan_unsigned 16 (hex_digit d # cs @ s) = scan_plain 16 (hex_digit d # cs @ s)"
    by (auto simp: scan_unsigned_def split: list.split)
  with scan_plain_padded [OF assms(1,2), of w] d show ?thesis by (simp add: scan_int_def)
qed

lemma scan_maps_line:
  assumes "wf_region r"
  shows "sscanf [Conv 16, Lit (CHR ''-''), Conv 16] (maps_line r @ [newline]) = [int (unat (rg_start r)), int (unat (rg_end r))]"
proof -
  obtain t where t: "rg_attr r = CHR '' '' # t" using assms by (cases "rg_attr r") (auto simp: wf_region_def starts_with_def)
  have nd: "no_digit 16 (CHR ''-'' # x)" "no_digit 16 (CHR '' '' # x)" for x
    by (simp_all add: no_digit_def digit_val_def hex_nibble_def)
  show ?thesis
    using scan_bare_hex [OF unat_bounds(4) nd(1), where w = 8] scan_bare_hex [OF unat_bounds(4) nd(2), where w = 8]
    by (simp add: sscanf_def maps_line_def t)
qed

lemma find_map: "List.find P (map f xs) = map_option f (List.find (P \<circ> f) xs)"
  by (induction xs) simp_all

lemma find_first:
  "List.find P xs = Some x \<Longrightarrow> \<exists>pre post. xs = pre @ x # post \<and> P x \<and> (\<forall>y \<in> set pre. \<not> P y)"
proof (induction xs)
  case (Cons y ys)
  show ?case
  proof (cases "P y")
    case True
    with Cons.prems show ?thesis by (intro exI [of _ "[]"] exI [of _ ys]) simp
  next
    case False
    with Cons obtain pre post where "ys = pre @ x # post" "P x" "\<forall>y \<in> set pre. \<not> P y" by auto
    with False show ?thesis by (intro exI [of _ "y # pre"] exI [of _ post]) simp
  qed
qed simp

lemma get_addr_maps:
  assumes "list_all wf_region rs"
  shows "get_addr ident (proc_self_maps rs) = Inr (map_option (\<lambda>r. (rg_start r, rg_end r)) (List.find (named ident) rs))"
proof (cases "List.find (named ident) rs")
  case None
  then show ?thesis by (simp add: get_addr_def fgets_maps [OF assms] find_map named_def [abs_def] comp_def)
next
  case (Some r)
  then have "wf_region r" using assms by (auto simp: find_Some_iff list_all_iff)
  with Some show ?thesis
    by (simp add: get_addr_def fgets_maps [OF assms] find_map named_def [abs_def] comp_def scan_maps_line)
qed

lemma unmap_range_other:
  "wf_region r \<Longrightarrow> rg_end r \<le> a \<or> e \<le> rg_start r \<Longrightarrow> a < e \<Longrightarrow> unmap_range a e r = [r]"
  by (cases r) (auto simp: unmap_range_def wf_region_def min_def max_def)

lemma concat_map_single: "concat (map (\<lambda>x. [x]) xs) = xs"
  by (induction xs) simp_all

lemma munmap_region:
  assumes "wf_space (pre @ r # post)"
  shows "munmap (rg_start r) (rg_end r) (pre @ r # post) = pre @ post"
proof -
  have r: "rg_start r < rg_end r" using assms by (simp add: wf_space_def wf_region_def)
  have "unmap_range (rg_start r) (rg_end r) r' = [r']" if "r' \<in> set pre \<or> r' \<in> set post" for r'
    using that assms r by (intro unmap_range_other) (auto simp: wf_space_def sorted_wrt_append list_all_iff)
  then have "map (unmap_range (rg_start r) (rg_end r)) pre = map (\<lambda>x. [x]) pre"
    "map (unmap_range (rg_start r) (rg_end r)) post = map (\<lambda>x. [x]) post" by (simp_all cong: map_cong)
  moreover have "unmap_range (rg_start r) (rg_end r) r = []" by (simp add: unmap_range_def)
  ultimately show ?thesis by (simp add: munmap_def concat_map_single del: map_eq_conv)
qed

lemma wf_space_filter: "wf_space rs \<Longrightarrow> wf_space (filter P rs)"
  by (auto simp: wf_space_def list_all_iff sorted_wrt_filter)

lemma unmap_section_filter:
  assumes "wf_space rs" and "\<And>r. r \<in> set rs \<Longrightarrow> named ident r \<Longrightarrow> granted_unmap (rg_start r) (rg_end r)"
  shows "unmap_section granted_unmap ident rs = Some (Inr (filter (\<lambda>r. \<not> named ident r) rs))"
  using assms
proof (induction "length (filter (named ident) rs)" arbitrary: rs rule: less_induct)
  case less
  have wf: "list_all wf_region rs" using less.prems(1) by (simp add: wf_space_def)
  show ?case
  proof (cases "List.find (named ident) rs")
    case None
    then have "filter (\<lambda>r. \<not> named ident r) rs = rs" by (auto simp: find_None_iff intro: filter_True)
    then show ?thesis by (subst unmap_section.simps) (simp add: get_addr_maps [OF wf] None)
  next
    case (Some r)
    then obtain pre post where rs: "rs = pre @ r # post" "named ident r" "\<And>x. x \<in> set pre \<Longrightarrow> \<not> named ident x"
      using find_first [of "named ident" rs] by blast
    have wf': "wf_space (pre @ post)"
      using less.prems(1) rs(1) by (auto simp: wf_space_def sorted_wrt_append)
    have "munmap (rg_start r) (rg_end r) rs = pre @ post" using munmap_region less.prems(1) rs(1) by simp
    moreover have "unmap_section granted_unmap ident (pre @ post) = Some (Inr (filter (\<lambda>r. \<not> named ident r) (pre @ post)))"
      using less.prems(2) rs by (intro less.hyps wf') auto
    moreover have "granted_unmap (rg_start r) (rg_end r)" using less.prems(2) rs by simp
    moreover have "get_addr ident (proc_self_maps rs) = Inr (Some (rg_start r, rg_end r))"
      by (simp add: get_addr_maps [OF wf] Some)
    ultimately have "unmap_section granted_unmap ident rs = Some (Inr (filter (\<lambda>r. \<not> named ident r) (pre @ post)))"
      by (subst unmap_section.simps) simp
    with rs show ?thesis by simp
  qed
qed

definition kept_by :: "string list \<Rightarrow> region \<Rightarrow> bool" where
  "kept_by idents r \<longleftrightarrow> list_all (\<lambda>ident. \<not> named ident r) idents"

lemma unmap_sections_filter:
  assumes "wf_space rs" and "\<And>r. r \<in> set rs \<Longrightarrow> \<not> kept_by idents r \<Longrightarrow> granted_unmap (rg_start r) (rg_end r)"
  shows "unmap_sections granted_unmap idents rs = Some (Inr (filter (kept_by idents) rs))"
  using assms
proof (induction idents arbitrary: rs)
  case Nil
  then show ?case by (simp add: kept_by_def [abs_def])
next
  case (Cons ident idents)
  have "unmap_section granted_unmap ident rs = Some (Inr (filter (\<lambda>r. \<not> named ident r) rs))"
    using Cons.prems by (intro unmap_section_filter) (auto simp: kept_by_def)
  moreover have "unmap_sections granted_unmap idents (filter (\<lambda>r. \<not> named ident r) rs) =
      Some (Inr (filter (kept_by idents) (filter (\<lambda>r. \<not> named ident r) rs)))"
    using Cons.prems by (intro Cons.IH wf_space_filter) (auto simp: kept_by_def)
  ultimately show ?case by (simp add: kept_by_def [abs_def] conj_commute)
qed

section \<open>The new stack\<close>

definition stack_region :: "build \<Rightarrow> region" where
  "stack_region b =
     \<lparr>rg_start = STACK_ADDR b - stack_size, rg_end = STACK_ADDR b, rg_attr = '' rw-p 00000000 00:00 0''\<rparr>"

lemma strstr_head: "strstr s (c # t) \<noteq> None \<Longrightarrow> c \<in> set s"
  by (induction s) (auto simp: starts_with_def split: if_splits)

lemma strstr_append: "strstr t ident \<noteq> None \<Longrightarrow> strstr (s @ t) ident \<noteq> None"
  by (induction s) auto

lemma maps_line_length: "length (maps_line r) \<le> 33 + length (rg_attr r)"
proof -
  have "length (fmt_0x 8 (unat w)) \<le> 16" for w :: u64
    using length_digits_of [of 16 "unat w" 16] unat_bounds(4) [of w] by (simp add: fmt_0x_def fmt_x_digits)
  from this [of "rg_start r"] this [of "rg_end r"] show ?thesis by (simp add: maps_line_def)
qed

lemma hex_digit_bracket: "d < 16 \<Longrightarrow> hex_digit d \<noteq> CHR ''[''"
proof -
  have "list_all (\<lambda>d. hex_digit d \<noteq> CHR ''['') [0..<16]" by code_simp
  then show "d < 16 \<Longrightarrow> hex_digit d \<noteq> CHR ''[''" by (simp add: list_all_iff)
qed

lemma maps_line_bracket: "CHR ''['' \<in> set (maps_line r) \<Longrightarrow> CHR ''['' \<in> set (rg_attr r)"
  using fmt_0x_chars hex_digit_bracket by (fastforce simp: maps_line_def)

lemma wf_stack_region: "wf_region (stack_region b)"
  using maps_line_length [of "stack_region b"]
  by (simp add: wf_region_def stack_region_def STACK_ADDR_def starts_with_def split: arch.split)

lemma stack_region_not_named: "\<not> named (CHR ''['' # s) (stack_region b)"
proof
  assume "named (CHR ''['' # s) (stack_region b)"
  then have "CHR ''['' \<in> set (maps_line (stack_region b))"
    using strstr_head by (fastforce simp: named_def)
  then show False using maps_line_bracket by (fastforce simp: stack_region_def)
qed

lemma wf_space_sorted: "wf_space rs \<Longrightarrow> sorted (map rg_start rs)"
  unfolding wf_space_def sorted_map
  by (auto elim!: sorted_wrt_mono_rel [rotated] simp: list_all_iff wf_region_def)

lemma wf_space_insort:
  assumes "wf_space rs" and "wf_region r" and "\<not> list_ex (overlaps (rg_start r) (rg_end r)) rs"
  shows "wf_space (insort_key rg_start r rs)"
  using assms
  by (induction rs) (fastforce simp: wf_space_def overlaps_def wf_region_def list_all_iff list_ex_iff set_insort_key)+


lemma map_stack_region:
  assumes "\<not> list_ex (overlaps (STACK_ADDR b - stack_size) (STACK_ADDR b)) rs"
  shows "map_region b (STACK_ADDR b - stack_size) stack_size rs = Inr (insort_key rg_start (stack_region b) rs)"
proof -
  have "overlaps (STACK_ADDR b - stack_size) (STACK_ADDR b - stack_size + page_size b) r \<Longrightarrow>
      overlaps (STACK_ADDR b - stack_size) (STACK_ADDR b) r" for r
    by (cases "arch b") (auto simp: overlaps_def STACK_ADDR_def page_size_def elim: order.strict_trans)
  with assms show ?thesis by (auto simp: map_region_def stack_region_def list_ex_iff)
qed

lemma enter_sandbox_eq:
  assumes "wf_space rs"
    and granted: "\<And>r. r \<in> set rs \<Longrightarrow> \<not> kept_by (''[stack]'' # unwanted_sections) r \<Longrightarrow> granted_unmap (rg_start r) (rg_end r)"
    and free: "\<not> list_ex (overlaps (STACK_ADDR b - stack_size) (STACK_ADDR b)) (filter (kept_by unwanted_sections) rs)"
  shows "enter_sandbox b granted_unmap rs =
      Some (Inr (insort_key rg_start (stack_region b) (filter (kept_by (''[stack]'' # unwanted_sections)) rs)))"
proof -
  let ?kept = "filter (kept_by unwanted_sections) rs"
  let ?all = "insort_key rg_start (stack_region b) ?kept"
  have kept: "wf_space ?kept" using assms(1) by (rule wf_space_filter)
  have clean: "clean_memory_mappings granted_unmap rs = Some (Inr ?kept)"
    unfolding clean_memory_mappings_def
    using assms(1) granted by (intro unmap_sections_filter) (auto simp: kept_by_def)
  have "wf_space ?all" using kept wf_stack_region free by (intro wf_space_insort) (simp_all add: stack_region_def)
  then have unmapped: "unmap_section granted_unmap ''[stack]'' ?all = Some (Inr (filter (\<lambda>r. \<not> named ''[stack]'' r) ?all))"
    using granted by (intro unmap_section_filter) (auto simp: kept_by_def set_insort_key stack_region_not_named)
  have old: "filter (\<lambda>r. \<not> named ''[stack]'' r) ?all =
      insort_key rg_start (stack_region b) (filter (kept_by (''[stack]'' # unwanted_sections)) rs)"
    using wf_space_sorted [OF kept]
    by (simp add: filter_insort stack_region_not_named kept_by_def [abs_def] conj_commute)
  show ?thesis
    using clean map_stack_region [OF free] unmapped [unfolded old]
    by (simp add: enter_sandbox_def switch_stack_def STACK_ADDR_def c_assert_def split: arch.split)
qed

text \<open>
  C37. When the kernel grants every unmapping and the range of the new stack is free, \<^verbatim>\<open>clean_memory_mappings\<close>
  and \<^verbatim>\<open>switch_stack\<close> end, whatever regions the process has and however often a section occurs: each pass
  of the loop reads the whole of /proc/self/maps again. What is mapped afterwards is exactly the new stack
  and the regions whose line contains none of the five sections; the result is again disjoint and ordered.
\<close>

theorem enter_sandbox_ends:
  assumes "wf_space rs"
    and "\<forall>r \<in> set rs. \<not> kept_by (''[stack]'' # unwanted_sections) r \<longrightarrow> granted_unmap (rg_start r) (rg_end r)"
    and "\<not> list_ex (overlaps (STACK_ADDR b - 0x100000) (STACK_ADDR b)) (filter (kept_by unwanted_sections) rs)"
  shows "\<exists>rs'. enter_sandbox b granted_unmap rs = Some (Inr rs') \<and> wf_space rs' \<and>
      set rs' = insert (stack_region b) {r \<in> set rs. kept_by (''[stack]'' # unwanted_sections) r}"
proof (intro exI conjI)
  let ?kept = "filter (kept_by (''[stack]'' # unwanted_sections)) rs"
  show "enter_sandbox b granted_unmap rs = Some (Inr (insort_key rg_start (stack_region b) ?kept))"
    using assms by (intro enter_sandbox_eq) auto
  show "wf_space (insort_key rg_start (stack_region b) ?kept)"
    using assms(1,3)
    by (intro wf_space_insort wf_space_filter wf_stack_region)
      (auto simp: list_ex_iff kept_by_def stack_region_def)
  show "set (insort_key rg_start (stack_region b) ?kept) =
      insert (stack_region b) {r \<in> set rs. kept_by (''[stack]'' # unwanted_sections) r}"
    by (auto simp: set_insort_key)
qed

text \<open>A process with two guard regions, the old stack and the vdso.\<close>

definition sample_space :: "region list" where
  "sample_space =
     [\<lparr>rg_start = 0x10000, rg_end = 0x20000, rg_attr = '' r-xp 00000000 fe:01 77 /bin/diffuzz-client''\<rparr>,
      \<lparr>rg_start = 0x20000, rg_end = 0x21000, rg_attr = '' ---p 00010000 fe:01 77 /bin/diffuzz-client''\<rparr>,
      \<lparr>rg_start = 0x3fb0000000, rg_end = 0x3fb0001000, rg_attr = '' ---p 00000000 00:00 0''\<rparr>,
      \<lparr>rg_start = 0x3fc0000000, rg_end = 0x3fc0021000, rg_attr = '' rw-p 00000000 00:00 0 [stack]''\<rparr>,
      \<lparr>rg_start = 0x3ff0000000, rg_end = 0x3ff0001000, rg_attr = '' r-xp 00000000 00:00 0 [vdso]''\<rparr>]"

lemma sample_space_ok: "wf_space sample_space"
  "\<not> list_ex (overlaps (STACK_ADDR b - 0x100000) (STACK_ADDR b)) sample_space"
proof -
  have "wf_region r" if "r \<in> set sample_space" for r
    using that maps_line_length [of r] by (auto simp: sample_space_def wf_region_def starts_with_def)
  then show "wf_space sample_space" by (simp add: wf_space_def list_all_iff) (simp add: sample_space_def)
  show "\<not> list_ex (overlaps (STACK_ADDR b - 0x100000) (STACK_ADDR b)) sample_space"
    by (cases "arch b") (simp_all add: sample_space_def overlaps_def STACK_ADDR_def)
qed

lemma attr_unwanted:
  assumes "list_ex (\<lambda>ident. strstr (rg_attr r @ [newline]) ident \<noteq> None) idents"
  shows "\<not> kept_by idents r"
proof
  assume "kept_by idents r"
  then have "strstr ((fmt_0x 8 (unat (rg_start r)) @ CHR ''-'' # fmt_0x 8 (unat (rg_end r))) @ rg_attr r @ [newline]) ident = None"
    if "ident \<in> set idents" for ident
    using that by (simp add: kept_by_def named_def maps_line_def list_all_iff)
  then have "strstr (rg_attr r @ [newline]) ident = None" if "ident \<in> set idents" for ident
    using that strstr_append by blast
  with assms show False by (auto simp: list_ex_iff)
qed

lemma sample_space_unwanted:
  "r \<in> set (tl sample_space) \<Longrightarrow> \<not> kept_by (''[stack]'' # unwanted_sections) r"
proof -
  have "list_all (\<lambda>r. list_ex (\<lambda>ident. strstr (rg_attr r @ [newline]) ident \<noteq> None) (''[stack]'' # unwanted_sections))
      (tl sample_space)" by code_simp
  then show "r \<in> set (tl sample_space) \<Longrightarrow> \<not> kept_by (''[stack]'' # unwanted_sections) r"
    by (intro attr_unwanted) (simp only: list_all_iff)
qed

theorem enter_sandbox_ends_witness:
  "\<exists>rs'. enter_sandbox riscv_vector_build (\<lambda>_ _. True) sample_space = Some (Inr rs') \<and> wf_space rs' \<and>
     set rs' \<subseteq> {stack_region riscv_vector_build, hd sample_space}"
proof -
  let ?b = "riscv_vector_build"
  obtain rs' where "enter_sandbox ?b (\<lambda>_ _. True) sample_space = Some (Inr rs')" "wf_space rs'"
    "set rs' = insert (stack_region ?b) {r \<in> set sample_space. kept_by (''[stack]'' # unwanted_sections) r}"
    using enter_sandbox_ends [OF sample_space_ok(1), of "\<lambda>_ _. True" ?b] sample_space_ok(2) [of ?b]
    by (auto simp: list_ex_iff)
  moreover have "set sample_space = insert (hd sample_space) (set (tl sample_space))" by (simp add: sample_space_def)
  ultimately show ?thesis using sample_space_unwanted by auto
qed

end
