(* ===== verification/Self_Accept.thy ===== *)
theory Self_Accept
  imports Self_Test
begin

text \<open>
  The self tests of \<open>runner_init\<close> accept every processor that follows the architecture: each test
  passes, and the initialised runner is ready for the runs of the fuzzer.
\<close>

section \<open>The other tests\<close>

lemma gp_index_values:
  "arch b = RISCV64 \<Longrightarrow> gp_index b ''ra'' = 0" "arch b = RISCV64 \<Longrightarrow> gp_index b ''sp'' = 1"
  "arch b = RISCV64 \<Longrightarrow> gp_index b ''tp'' = 3" "arch b = RISCV64 \<Longrightarrow> gp_index b ''t0'' = 4"
  "arch b = RISCV64 \<Longrightarrow> gp_index b ''a5'' = 14" "arch b = RISCV64 \<Longrightarrow> gp_index b ''t6'' = 30"
  "arch b = RISCV64 \<Longrightarrow> gp_index b ''x29'' = 28"
  "arch b = AARCH64 \<Longrightarrow> gp_index b ''x0'' = 0" "arch b = AARCH64 \<Longrightarrow> gp_index b ''x1'' = 1"
  "arch b = AARCH64 \<Longrightarrow> gp_index b ''x8'' = 8" "arch b = AARCH64 \<Longrightarrow> gp_index b ''x29'' = 29"
  "arch b = AARCH64 \<Longrightarrow> gp_index b ''x30'' = 30" "arch b = AARCH64 \<Longrightarrow> gp_index b ''sp'' = 31"
  by (simp_all add: gp_index_def gp_members_def reg_name_defs)

lemma name_tests_ok: "valid_build b \<Longrightarrow> assert_names b (name_tests b) = Inr ()"
  by (cases "arch b"; cases "flag_FLOATS b"; cases "flag_VECTOR b")
    (simp_all add: name_tests_def gp_index_values get_abi_name_def get_abi_name_float_def riscv_abi_names_def
      aarch64_abi_names_def valid_build_def reg_name_defs c_assert_def)

lemma isa_step_nop: "isa_step b v0 (NOP_32 b) r ms = Next r ms"
  by (simp add: isa_step_def)

definition added :: "build \<Rightarrow> regs \<Rightarrow> regs" where
  "added b r = (case arch b of RISCV64 \<Rightarrow> set_gp_reg b ''t0'' (gp_reg b r ''t0'' + 1) r
                             | AARCH64 \<Rightarrow> set_gp_reg b ''x0'' (gp_reg b r ''x1'' + 1) r)"

lemma isa_step_add: "isa_step b v0 (add_instr b) r ms = Next (added b r) ms"
  by (cases "arch b") (simp_all add: isa_step_def test_words added_def)

lemma isa_step_vector:
  assumes "flag_VECTOR b" and "gp_reg b r (v0_pointer b) = v0"
  shows "isa_step b v0 (vector_load_instr b) r ms = Next (r\<lparr>vec := (vec r)[0 := v0_bytes]\<rparr>) ms"
  using assms by (cases "arch b") (simp_all add: isa_step_def test_words)

lemma test_instrs_simps:
  "NOP_32 b \<in> set (test_instrs b)" "add_instr b \<in> set (test_instrs b)"
  "flag_VECTOR b \<Longrightarrow> vector_load_instr b \<in> set (test_instrs b)"
  by (simp_all add: test_instrs_def)

lemma test_regs_simps:
  "zero_regs b \<in> set (test_regs b v0)" "set_gp_reg b (v0_pointer b) v0 (zero_regs b) \<in> set (test_regs b v0)"
  by (simp_all add: test_regs_def Let_def)

lemma run_case_ok:
  assumes rdy: "test_ready e st" and b: "ie_build e = b" "w \<longrightarrow> 2 \<le> MAX_SEQ_LEN b"
    and args: "i \<in> set (test_instrs b)" "regs \<in> set (test_regs b (ie_v0 e))"
    and step: "isa_step b (ie_v0 e) i regs [] = Next regs' []" "gp_reg b regs' ''x29'' = gp_reg b regs ''x29''"
  shows "\<exists>r st'. run_case e os_mapped w st i regs = Inr (r, st') \<and> gp (regs_result r) = gp regs' \<and>
           (flag_VECTOR b \<longrightarrow> vec (regs_result r) = vec regs') \<and>
           (w \<longrightarrow> instr_idx r = 2 \<and> si_pc r = runner_code_start st' + 4) \<and> ready b st st' \<and> test_ready e st'"
proof (cases w)
  case True
  with run_trap [where os_mapped = os_mapped, OF rdy, unfolded b(1), OF _ args step(1)] b(2) show ?thesis
    by (auto simp: run_case_def)
next
  case False
  with run_one [where os_mapped = os_mapped, OF rdy, unfolded b(1), OF args step] show ?thesis
    by (auto simp: run_case_def)
qed

lemma added_x29: "gp_reg b (added b (zero_regs b)) ''x29'' = gp_reg b (zero_regs b) ''x29''"
  by (cases "arch b") (simp_all add: added_def gp_reg_def set_gp_reg_def gp_index_values)

lemma test_addition_ok:
  assumes rdy: "test_ready e st" and b: "ie_build e = b" "w \<longrightarrow> 2 \<le> MAX_SEQ_LEN b"
  shows "\<exists>st'. test_addition e os_mapped w st = Inr st' \<and> ready b st st' \<and> test_ready e st'"
proof -
  obtain r st' where r: "run_case e os_mapped w st (add_instr b) (zero_regs b) = Inr (r, st')"
      "gp (regs_result r) = gp (added b (zero_regs b))"
      "w \<longrightarrow> instr_idx r = 2 \<and> si_pc r = runner_code_start st' + 4" "ready b st st'" "test_ready e st'"
    using run_case_ok [OF rdy b test_instrs_simps(2) test_regs_simps(1) isa_step_add added_x29] by blast
  have "test_addition e os_mapped w st = Inr st'"
    using r(1-3) b(1)
    by (cases "arch b"; cases w)
      (simp_all add: test_addition_def Let_def gp_reg_def added_def set_gp_reg_def gp_index_values zero_regs_def c_assert_def)
  with r show ?thesis by blast
qed

lemma v0_pointer_set: "gp_reg b (set_gp_reg b (v0_pointer b) v (zero_regs b)) (v0_pointer b) = v"
  using gp_index_less [of b "v0_pointer b"] by (simp add: gp_reg_def set_gp_reg_def zero_regs_def)

lemma test_vector_load_ok:
  assumes rdy: "test_ready e st" and b: "ie_build e = b" "w \<longrightarrow> 2 \<le> MAX_SEQ_LEN b"
  shows "\<exists>st'. test_vector_load e os_mapped w st = Inr st' \<and> ready b st st' \<and> test_ready e st'"
proof (cases "flag_VECTOR b")
  case True
  let ?regs = "set_gp_reg b (v0_pointer b) (ie_v0 e) (zero_regs b)"
  have x29: "gp_reg b (?regs\<lparr>vec := vs\<rparr>) ''x29'' = gp_reg b ?regs ''x29''" for vs by (simp add: gp_reg_def)
  obtain r st' where r: "run_case e os_mapped w st (vector_load_instr b) ?regs = Inr (r, st')"
      "vec (regs_result r) = (vec ?regs)[0 := v0_bytes]" "ready b st st'" "test_ready e st'"
    using run_case_ok [where os_mapped = os_mapped, OF rdy b test_instrs_simps(3) test_regs_simps(2) isa_step_vector [OF _ v0_pointer_set] x29] True
    by auto
  then have "test_vector_load e os_mapped w st = Inr st'"
    using True b(1) by (simp add: test_vector_load_def Let_def set_gp_reg_def zero_regs_def)
  with r show ?thesis by blast
next
  case False
  with rdy b(1) show ?thesis by (auto simp: test_vector_load_def ready_def same_env_def test_ready_def Let_def)
qed

lemma test_ready_refl: "test_ready e st \<Longrightarrow> ready (ie_build e) st st"
  by (simp add: test_ready_def ready_def same_env_def Let_def)

lemma test_rounds_ok:
  "test_ready e st \<Longrightarrow> ie_build e = b \<Longrightarrow> \<exists>st'. test_rounds e os_mapped ws st = Inr st' \<and> ready b st st' \<and> test_ready e st'"
proof (induction ws arbitrary: st)
  case Nil
  then show ?case using test_ready_refl by auto
next
  case (Cons w ws)
  show ?case
  proof (cases "MAX_SEQ_LEN b < 2 \<and> w")
    case True
    with Cons show ?thesis by auto
  next
    case False
    then have w: "w \<longrightarrow> 2 \<le> MAX_SEQ_LEN b" by auto
    obtain st1 where st1: "test_addition e os_mapped w st = Inr st1" "ready b st st1" "test_ready e st1"
      using test_addition_ok [OF Cons.prems w] by blast
    obtain st2 where st2: "test_vector_load e os_mapped w st1 = Inr st2" "ready b st1 st2" "test_ready e st2"
      using test_vector_load_ok [OF st1(3) Cons.prems(2) w] by blast
    obtain st3 where st3: "test_rounds e os_mapped ws st2 = Inr st3" "ready b st2 st3" "test_ready e st3"
      using Cons.IH [OF st2(3) Cons.prems(2)] by blast
    have "ready b st st3" by (rule ready_trans [OF ready_trans [OF st1(2) st2(2)] st3(2)])
    moreover have "test_rounds e os_mapped (w # ws) st = Inr st3"
      using False st1(1) st2(1) st3(1) Cons.prems(2) by auto
    ultimately show ?thesis using st3(3) by blast
  qed
qed

lemma run_nop:
  assumes rdy: "test_ready e st" and b: "ie_build e = b" and regs: "regs \<in> set (test_regs b (ie_v0 e))"
  shows "\<exists>r st'. test_run e os_mapped st [NOP_32 b] regs = Inr (r, st') \<and>
           outcome b st regs (ie_hw e (padded b [NOP_32 b]) regs []) r \<and>
           signum r = 0 \<and> si_addrr r = 0 \<and> si_pc r = 0 \<and> si_code r = 0 \<and> regs_result r = regs \<and>
           mem_changes r = [] \<and> ready b st st' \<and> test_ready e st'"
  using run_one [OF rdy, unfolded b, OF test_instrs_simps(1) regs isa_step_nop refl] by blast

lemma test_full_seq_ok:
  assumes rdy: "test_ready e st" and b: "ie_build e = b"
  shows "\<exists>st'. test_full_seq e os_mapped st = Inr st' \<and> ready b st st' \<and> test_ready e st'"
proof (cases "MAX_SEQ_LEN b < 2")
  case True
  with rdy b test_ready_refl [OF rdy] show ?thesis by (simp add: test_full_seq_def)
next
  case False
  let ?run = "\<lambda>st is. run_with_instr_seq b (ie_hw e) os_mapped (ie_garbage e) st is [] (zero_regs b)"
  obtain r1 st1 where r1: "test_run e os_mapped st [NOP_32 b] (zero_regs b) = Inr (r1, st1)" "signum r1 = 0"
      "ready b st st1" "test_ready e st1"
    using run_nop [OF rdy b test_regs_simps(1)] by blast
  obtain r2 st2 where r2: "test_run e os_mapped st1 [NOP_32 b, 0] (zero_regs b) = Inr (r2, st2)" "signum r2 = SIGILL"
      "instr_idx r2 = 2" "ready b st1 st2" "test_ready e st2"
    using run_trap [where os_mapped = os_mapped, OF r1(4), unfolded b, OF _ test_instrs_simps(1) test_regs_simps(1) isa_step_nop] False
    by auto
  have "\<exists>ms. ?run st [NOP_32 b] = Inr (r1, ms, st1)" "\<exists>ms. ?run st1 [NOP_32 b, 0] = Inr (r2, ms, st2)"
    using r1(1) r2(1) b by (auto simp: test_run_def res_bind_Inr_iff)
  moreover have "ms = []" if "?run s is = Inr (r, ms, s')" "test_ready e s" "length is \<le> MAX_SEQ_LEN b" for s "is" r ms s'
  proof -
    have "run_pre b (ie_hw e) (ie_garbage e) s is [] (zero_regs b)"
      using that(2,3) b by (simp add: run_pre_def test_ready_def Let_def)
    from whole_run_ok [where os_mapped = os_mapped, OF this] that(1) show ?thesis by auto
  qed
  ultimately have "?run st [NOP_32 b] = Inr (r1, [], st1)" "?run st1 [NOP_32 b, 0] = Inr (r2, [], st2)"
    using rdy r1(4) False by fastforce+
  then have "run_with_instr_seq_full_seq b (ie_hw e) os_mapped (ie_garbage e) st [NOP_32 b, 0, NOP_32 b] 3 [] (zero_regs b) =
      Inr ([r1, r2], [], st2)"
    using r1(2) r2(2) by (simp add: run_with_instr_seq_full_seq_def numeral_3_eq_3)
  then have "test_full_seq e os_mapped st = Inr st2"
    using False b r1(2) r2(2,3) by (simp add: test_full_seq_def Let_def c_assert_def)
  with ready_trans [OF r1(3) r2(4)] r2(5) show ?thesis by blast
qed

lemma added_differs: "\<not> regs_memeq b (zero_regs b) (added b (zero_regs b))"
proof -
  have wf: "wf_regs b (added b (zero_regs b))" by (cases "arch b") (simp_all add: added_def)
  have "gp (zero_regs b) ! (case arch b of RISCV64 \<Rightarrow> 4 | AARCH64 \<Rightarrow> 0) \<noteq>
      gp (added b (zero_regs b)) ! (case arch b of RISCV64 \<Rightarrow> 4 | AARCH64 \<Rightarrow> 0)"
    by (cases "arch b") (simp_all add: added_def set_gp_reg_def gp_reg_def gp_index_values zero_regs_def)
  then have "gp (zero_regs b) \<noteq> gp (added b (zero_regs b))" by metis
  then show ?thesis by (simp add: regs_memeq_banks [OF wf_zero_regs wf])
qed

lemma test_equality_ok:
  assumes rdy: "test_ready e st" and b: "ie_build e = b"
    and i: "i \<in> set (test_instrs b)" "isa_step b (ie_v0 e) i (zero_regs b) [] = Next regs' []"
      "gp_reg b regs' ''x29'' = gp_reg b (zero_regs b) ''x29''" "expected = regs_memeq b (zero_regs b) regs'"
  shows "\<exists>st'. test_equality e os_mapped i expected st = Inr st' \<and> ready b st st' \<and> test_ready e st'"
proof -
  obtain r1 st1 where r1: "test_run e os_mapped st [NOP_32 b] (zero_regs b) = Inr (r1, st1)" "signum r1 = 0"
      "si_addrr r1 = 0" "si_pc r1 = 0" "si_code r1 = 0" "regs_result r1 = zero_regs b" "mem_changes r1 = []"
      "ready b st st1" "test_ready e st1"
    using run_nop [OF rdy b test_regs_simps(1)] by blast
  obtain r2 st2 where r2: "test_run e os_mapped st1 [i] (zero_regs b) = Inr (r2, st2)" "signum r2 = 0"
      "si_addrr r2 = 0" "si_pc r2 = 0" "si_code r2 = 0" "regs_result r2 = regs'" "mem_changes r2 = []"
      "ready b st1 st2" "test_ready e st2"
    using run_one [OF r1(9), unfolded b, OF i(1) test_regs_simps(1) i(2,3)] by blast
  have "result_equal b r1 r2 = expected"
    using r1 r2 i(4) by (simp add: result_equal_iff)
  then have "test_equality e os_mapped i expected st = Inr st2"
    using r1(1,2) r2(1,2) b by (simp add: test_equality_def Let_def)
  with ready_trans [OF r1(8) r2(8)] r2(9) show ?thesis by blast
qed

lemma find_mapping_ok: "test_find_mapping = Inr ()"
  by (simp add: test_find_mapping_def test_maps_def c_assert_def)

lemma mem_change_equal_ok: "test_mem_change_equal b = Inr ()"
proof -
  have "test_mem_change_equal (b\<lparr>flag_CHECK_MEM := True\<rparr>) = Inr ()"
    by (simp add: test_mem_change_equal_def test_change_def mem_change_equal_def n_cap_def Let_def c_assert_def upt_rec)
  then show ?thesis by (auto simp: test_mem_change_equal_def)
qed

lemma store_pages:
  "auto_target b (store_base b + (page_size b - 1) + 1) = store_base b + page_size b"
  "auto_target b (store_base b + (page_size b - 8) + 0) = store_base b"
  "unat (store_base b + page_size b) + unat (page_size b) < 2 ^ 64" "unat (store_base b) + unat (page_size b) < 2 ^ 64"
  "store_base b + (page_size b - 1) + 1 = store_base b + page_size b + of_nat 0"
  "store_base b + (page_size b - 8) + 0 = store_base b + of_nat (unat (page_size b) - 8)"
  by (cases "arch b"; simp add: auto_target_def store_base_def page_size_def)+

lemma test_stores_ok:
  assumes rdy: "test_ready e st" and b: "ie_build e = b"
    and pages: "flag_CHECK_MEM b \<and> flag_AUTO_MAP_MEM b \<longrightarrow> test_pages b \<and>
      auto_map_allowed b os_mapped st (store_base b) \<and> auto_map_allowed b os_mapped st (store_base b + page_size b)"
  shows "\<exists>regs7 st'. test_stores e os_mapped st = Inr (regs7, st') \<and> regs7 \<in> set (test_regs b (ie_v0 e)) \<and>
           ready b st st' \<and> test_ready e st'"
proof (cases "flag_CHECK_MEM b \<and> flag_AUTO_MAP_MEM b")
  case True
  let ?t1 = "store_base b + (page_size b - 1)" and ?t2 = "store_base b + (page_size b - 8)"
  let ?r1 = "store_regs b ?t1 (zero_regs b)"
  have ps: "0 + 8 \<le> unat (page_size b)" "unat (page_size b) - 8 + 8 \<le> unat (page_size b)"
    by (simp_all add: page_size_values split: arch.split)
  have mem: "?r1 \<in> set (test_regs b (ie_v0 e))" "store_regs b ?t2 ?r1 \<in> set (test_regs b (ie_v0 e))"
    by (simp_all add: test_regs_def Let_def)
  have accepts: "page_accepts b (store_base b + page_size b) 0" "page_accepts b (store_base b) (unat (page_size b) - 8)"
    and allowed: "auto_map_allowed b os_mapped st (store_base b)" "auto_map_allowed b os_mapped st (store_base b + page_size b)"
    using pages True by (simp_all add: test_pages_def)
  have cm: "flag_CHECK_MEM b" "flag_AUTO_MAP_MEM b" using True by simp_all
  from test_store_ok [OF rdy b cm disjI2 [OF refl] wf_zero_regs mem(1) store_pages(1) allowed(2) accepts(1) ps(1) store_pages(3,5)]
  obtain st1 where st1: "test_store e os_mapped 1 ?t1 (zero_regs b) st = Inr (?r1, st1)" "ready b st st1" "test_ready e st1"
    by blast
  have "auto_map_allowed b os_mapped st1 (store_base b)"
    using auto_map_allowed_indep [OF st1(2)] allowed(1) by simp
  from test_store_ok [OF st1(3) b cm disjI1 [OF refl] test_regs_wf [OF mem(1)] mem(2) store_pages(2) this accepts(2) ps(2) store_pages(4,6)]
  obtain st2 where "test_store e os_mapped 0 ?t2 ?r1 st1 = Inr (store_regs b ?t2 ?r1, st2)" "ready b st1 st2" "test_ready e st2"
    by blast
  with True st1 b mem ready_trans [OF st1(2)] show ?thesis by (simp add: test_stores_def Let_def)
next
  case False
  with rdy b test_ready_refl [OF rdy] test_regs_simps(1) show ?thesis by (auto simp: test_stores_def)
qed

section \<open>Calibration\<close>

text \<open>
  The counters: with META every run counts at least the instructions of the harness, an empty program
  always counts the same number, and cycles go by when instructions are counted.
\<close>

definition nop_count :: "init_env \<Rightarrow> u64" where
  "nop_count e = counted (ie_build e) (ie_hw e (padded (ie_build e) [NOP_32 (ie_build e)]) (zero_regs (ie_build e)) [])"

definition base_no_signal :: "init_env \<Rightarrow> u64" where
  "base_no_signal e = (if nop_count e \<noteq> 0 then nop_count e - 1 else 0)"

definition base_signal :: "init_env \<Rightarrow> u64" where
  "base_signal e = counted (ie_build e) (ie_hw e (padded (ie_build e) [INVALID_32]) (zero_regs (ie_build e)) [])"

definition counters_ok :: "init_env \<Rightarrow> bool" where
  "counters_ok e \<longleftrightarrow>
     hw_ok (ie_build e) (base_no_signal e) (base_signal e) (ie_hw e) \<and>
     (flag_META (ie_build e) \<longrightarrow>
        list_all (\<lambda>regs. let ex = ie_hw e (padded (ie_build e) [NOP_32 (ie_build e)]) regs []
                         in counted (ie_build e) ex = nop_count e \<and>
                            (nop_count e \<noteq> 0 \<longrightarrow> cycle (ex_meta_post ex) \<noteq> cycle (ex_meta_pre ex)))
          (test_regs (ie_build e) (ie_v0 e)))"

lemma hw_ok_mono:
  assumes "hw_ok b x y hw" and "x' \<le> x" and "y' \<le> y"
  shows "hw_ok b x' y' hw"
  unfolding hw_ok_def Let_def
proof (intro allI impI)
  fix c :: "u32 list" and regs :: regs and ms :: "mapping list"
  assume "length c = MAX_SEQ_LEN b" "wf_regs b regs" "list_all wf_mapping ms"
  note h = assms(1) [unfolded hw_ok_def Let_def, rule_format, OF this]
  then show "list_all2 (\<lambda>m bs. length bs = map_n m) ms (ex_mem (hw c regs ms)) \<and>
      (case ex_end (hw c regs ms) of
         Returned r \<Rightarrow> wf_regs b r \<and> (flag_META b \<longrightarrow> x' \<le>
           (if arch b = RISCV64 then instret (ex_meta_post (hw c regs ms)) - instret (ex_meta_pre (hw c regs ms)) else 0))
       | Trapped sc \<Rightarrow> wf_regs b (sc_regs sc) \<and> sc_signum sc \<noteq> 0 \<and> unat (sc_signum sc) < 256 \<and>
           (flag_META b \<longrightarrow> y' \<le>
             (if arch b = RISCV64 then instret (ex_meta_post (hw c regs ms)) - instret (ex_meta_pre (hw c regs ms)) else 0)))"
    using order_trans [OF assms(2)] order_trans [OF assms(3)]
    by (cases "ex_end (hw c regs ms)") (simp_all only: run_end.case simp_thms, blast+)
qed

definition calibrated :: "init_env \<Rightarrow> runner \<Rightarrow> bool" where
  "calibrated e st \<longleftrightarrow>
     (flag_META (ie_build e) \<longrightarrow> instret_base_no_signal st = base_no_signal e \<and> instret_base_signal st = base_signal e)"

lemma calibrated_ready: "calibrated e st \<Longrightarrow> ready b st st' \<Longrightarrow> calibrated e st'"
  by (simp add: calibrated_def ready_def same_env_def)

lemma test_ready_base:
  assumes "test_ready e st" and "hw_ok (ie_build e) x y (ie_hw e)"
  shows "test_ready e (st\<lparr>instret_base_no_signal := x, instret_base_signal := y\<rparr>)"
  using assms by (simp add: test_ready_def Let_def runner_inv_def)

lemma calibrate_ok:
  assumes rdy: "test_ready e st" and b: "ie_build e = b" and cnt: "counters_ok e"
    and zero: "instret_base_no_signal st = 0" "instret_base_signal st = 0"
  shows "\<exists>st'. calibrate e os_mapped st = Inr st' \<and> calibrated e st' \<and> test_ready e st' \<and>
           live st' = live st \<and> runner_code_start st' = runner_code_start st"
proof (cases "flag_META b")
  case False
  with assms show ?thesis by (auto simp: calibrate_def calibrated_def)
next
  case True
  have hw: "hw_ok b (base_no_signal e) (base_signal e) (ie_hw e)" using cnt b by (simp add: counters_ok_def)
  obtain r1 st1 where r1: "test_run e os_mapped st [NOP_32 b] (zero_regs b) = Inr (r1, st1)" "signum r1 = 0"
      "outcome b st (zero_regs b) (ie_hw e (padded b [NOP_32 b]) (zero_regs b) []) r1" "ready b st st1" "test_ready e st1"
    using run_nop [OF rdy b test_regs_simps(1)] by blast
  have n: "meta_instret r1 = nop_count e" using r1(2,3) True zero b by (simp add: outcome_def nop_count_def)
  define st2 where "st2 = st1\<lparr>instret_base_no_signal := base_no_signal e\<rparr>"
  have st1: "live st1 = live st" "runner_code_start st1 = runner_code_start st" "instret_base_signal st1 = 0"
    using r1(4) zero by (simp_all add: ready_def same_env_def)
  have "hw_ok b (base_no_signal e) 0 (ie_hw e)" by (rule hw_ok_mono [OF hw]) simp_all
  with test_ready_base [OF r1(5)] b have "test_ready e (st1\<lparr>instret_base_no_signal := base_no_signal e, instret_base_signal := 0\<rparr>)"
    by simp
  moreover have "st1\<lparr>instret_base_no_signal := base_no_signal e, instret_base_signal := 0\<rparr> = st2"
    using st1(3) unfolding st2_def by (cases st1) simp
  ultimately have rdy2: "test_ready e st2" by simp
  obtain r3 st3 where r3: "test_run e os_mapped st2 [0] (zero_regs b) = Inr (r3, st3)" "signum r3 = SIGILL"
      "outcome b st2 (zero_regs b) (ie_hw e (padded b [0]) (zero_regs b) []) r3" "ready b st2 st3" "test_ready e st3"
    using run_invalid [OF rdy2, unfolded b, OF test_regs_simps(1)] by blast
  have v: "meta_instret r3 = base_signal e"
    using r3(2,3) True st1(3) b by (simp add: outcome_def base_signal_def st2_def)
  let ?st = "st3\<lparr>instret_base_signal := base_signal e\<rparr>"
  have st3: "instret_base_no_signal st3 = base_no_signal e" "live st3 = live st" "runner_code_start st3 = runner_code_start st"
    using r3(4) st1 by (simp_all add: ready_def same_env_def st2_def)
  have "calibrate e os_mapped st = Inr ?st"
    using r1(1,2) r3(1,2) n v True b 
    by (cases "nop_count e = 0") (simp_all add: calibrate_def Let_def base_no_signal_def st2_def)
  moreover have "st3\<lparr>instret_base_no_signal := base_no_signal e, instret_base_signal := base_signal e\<rparr> = ?st"
    using st3(1) by (cases st3) simp
  then have "test_ready e ?st" using test_ready_base [OF r3(5), unfolded b, OF hw] by simp
  ultimately show ?thesis using st3 by (simp add: calibrated_def)
qed

lemma test_meta_ok:
  assumes rdy: "test_ready e st" and b: "ie_build e = b" and cnt: "counters_ok e" "calibrated e st"
    and regs: "regs \<in> set (test_regs b (ie_v0 e))"
  shows "\<exists>st'. test_meta e os_mapped regs st = Inr st' \<and> ready b st st' \<and> test_ready e st'"
proof (cases "flag_META b")
  case False
  with rdy b test_ready_refl [OF rdy] show ?thesis by (auto simp: test_meta_def)
next
  case True
  obtain r st' where r: "test_run e os_mapped st [NOP_32 b] regs = Inr (r, st')" "signum r = 0"
      "outcome b st regs (ie_hw e (padded b [NOP_32 b]) regs []) r" "ready b st st'" "test_ready e st'"
    using run_nop [OF rdy b regs] by blast
  have "meta_instret r = nop_count e - base_no_signal e" "nop_count e \<noteq> 0 \<longrightarrow> meta_cycle r \<noteq> 0"
    using r(2,3) True cnt regs b
    by (auto simp: outcome_def counters_ok_def calibrated_def list_all_iff Let_def)
  then have "test_meta e os_mapped regs st = Inr st'"
    using True b r(1,2) by (auto simp: test_meta_def base_no_signal_def word_gt_0 c_assert_def)
  with r show ?thesis by blast
qed

section \<open>The whole initialisation\<close>

lemma self_tests_ok:
  assumes rdy: "test_ready e st" and b: "ie_build e = b" and cnt: "counters_ok e" "calibrated e st"
    and pages: "flag_CHECK_MEM b \<and> flag_AUTO_MAP_MEM b \<longrightarrow> test_pages b \<and>
      auto_map_allowed b os_mapped st (store_base b) \<and> auto_map_allowed b os_mapped st (store_base b + page_size b)"
    and answers: "test_disasm e = Inr ()" "test_vector_size e = Inr ()" "ie_fp_status e 0 = ie_fp_status e 1"
  shows "\<exists>st'. self_tests e os_mapped st = Inr st' \<and> ready b st st' \<and> test_ready e st'"
proof -
  have names: "assert_names b (name_tests b) = Inr ()"
    using rdy b by (intro name_tests_ok) (simp add: test_ready_def Let_def)
  obtain st1 where st1: "test_rounds e os_mapped [False, True] st = Inr st1" "ready b st st1" "test_ready e st1"
    using test_rounds_ok [OF rdy b] by blast
  obtain st2 where st2: "test_full_seq e os_mapped st1 = Inr st2" "ready b st1 st2" "test_ready e st2"
    using test_full_seq_ok [OF st1(3) b] by blast
  obtain st3 where st3: "test_equality e os_mapped (NOP_32 b) True st2 = Inr st3" "ready b st2 st3" "test_ready e st3"
    using test_equality_ok [where os_mapped = os_mapped and expected = True, OF st2(3) b test_instrs_simps(1) isa_step_nop refl]
    by (auto simp: regs_memeq_def)
  obtain st4 where st4: "test_equality e os_mapped (add_instr b) False st3 = Inr st4" "ready b st3 st4" "test_ready e st4"
    using test_equality_ok [where os_mapped = os_mapped and expected = False, OF st3(3) b test_instrs_simps(2) isa_step_add added_x29]
      added_differs [of b] by auto
  have r4: "ready b st st4" by (rule ready_trans [OF ready_trans [OF ready_trans [OF st1(2) st2(2)] st3(2)] st4(2)])
  have "flag_CHECK_MEM b \<and> flag_AUTO_MAP_MEM b \<longrightarrow> test_pages b \<and>
      auto_map_allowed b os_mapped st4 (store_base b) \<and> auto_map_allowed b os_mapped st4 (store_base b + page_size b)"
    using pages auto_map_allowed_indep [OF r4] by simp
  from test_stores_ok [OF st4(3) b this] obtain regs7 st5 where st5:
      "test_stores e os_mapped st4 = Inr (regs7, st5)" "regs7 \<in> set (test_regs b (ie_v0 e))" "ready b st4 st5" "test_ready e st5"
    by blast
  obtain r st6 where st6: "test_run e os_mapped st5 [NOP_32 b] regs7 = Inr (r, st6)" "ready b st5 st6" "test_ready e st6"
    using run_nop [OF st5(4) b st5(2)] by blast
  have r6: "ready b st st6" by (rule ready_trans [OF ready_trans [OF r4 st5(3)] st6(2)])
  obtain st7 where st7: "test_meta e os_mapped regs7 st6 = Inr st7" "ready b st6 st7" "test_ready e st7"
    using test_meta_ok [OF st6(3) b cnt(1) calibrated_ready [OF cnt(2) r6] st5(2)] by blast
  have "test_fp_status e os_mapped regs7 st5 = Inr st6"
    using st6(1) answers(3) b by (simp add: test_fp_status_def)
  then have "self_tests e os_mapped st = Inr st7"
    using names st1(1) st2(1) st3(1) st4(1) st5(1) st7(1) answers(1,2) b
    by (simp add: self_tests_def Let_def find_mapping_ok mem_change_equal_ok)
  with ready_trans [OF r6 st7(2)] st7(3) show ?thesis by blast
qed

text \<open>
  What the kernel and the tools must answer, and the address space the start-up relies on: the pages of
  the code can be unmapped, nothing else lies on them, on the handler's stack or on the tested pages.
\<close>

definition init_live :: "build \<Rightarrow> runner \<Rightarrow> (u64 \<times> nat) list" where
  "init_live b st =
     [(runner_code_start_page_aligned b st,
       unat (runner_code_end_page_aligned b st - runner_code_start_page_aligned b st)),
      (ALT_STACK_ADDR b, ALT_STACK_SIZE)]"

definition init_ok :: "init_env \<Rightarrow> (u64 \<Rightarrow> bool) \<Rightarrow> runner \<Rightarrow> bool" where
  "init_ok e os_mapped st \<longleftrightarrow>
     (let b = ie_build e; code_pages = hd (init_live b st)
      in ie_malloc e \<and> ie_munmap e \<and> ie_SIGSTKSZ e \<le> ALT_STACK_SIZE \<and> ie_sigaltstack e \<and>
         list_all (ie_sigaction e) caught_signals \<and> ie_timer_create e \<and>
         test_disasm e = Inr () \<and> test_vector_size e = Inr () \<and> ie_fp_status e 0 = ie_fp_status e 1 \<and>
         length (ie_text e) = snd code_pages \<and> runner_code_start_page_aligned b st < runner_code_end_page_aligned b st \<and>
         unat (runner_code_start st) mod 4 = 0 \<and> live st = [] \<and> \<not> os_mapped (ALT_STACK_ADDR b) \<and>
         \<not> pages_overlap code_pages (ALT_STACK_ADDR b) ALT_STACK_SIZE \<and>
         (flag_CHECK_MEM b \<and> flag_AUTO_MAP_MEM b \<longrightarrow>
            test_pages b \<and>
            list_all (auto_map_allowed b (unmapped_code b st os_mapped) (st\<lparr>live := init_live b st\<rparr>))
              [store_base b, store_base b + page_size b]) \<and>
         \<not> runner_running st \<and> \<not> alarm_set st \<and> instret_base_no_signal st = 0 \<and> instret_base_signal st = 0)"

lemma map_runner_code_ok:
  assumes "init_ok e os_mapped st" and "ie_build e = b"
  shows "\<exists>c. map_runner_code e os_mapped st = Inr (st\<lparr>live := [hd (init_live b st)], code := c\<rparr>) \<and> length c = MAX_SEQ_LEN b"
proof -
  let ?m = "runner_mapping b st (ie_text e)"
  have less: "runner_code_start_page_aligned b st < runner_code_end_page_aligned b st"
    and n: "length (ie_text e) = map_n ?m" "hd (init_live b st) = (map_start ?m, map_n ?m)"
    using assms by (simp_all add: init_ok_def Let_def runner_mapping_def init_live_def)
  have "0 < map_n ?m"
    using less by (simp add: runner_mapping_def unat_sub [OF less_imp_le] word_less_nat_alt)
  note n = this n
  then have "ie_text e \<noteq> []" by auto
  moreover have "\<not> check_page_mapped b (unmapped_code b st os_mapped) st (map_start ?m)"
    using assms by (simp add: check_page_mapped_def unmapped_code_def runner_mapping_def init_ok_def Let_def)
  ultimately show ?thesis
    using assms n
    by (auto simp: map_runner_code_def Let_def setup_memory_mapping_def check_and_map_shmem_fixed_def
        load_memory_mapping_def init_ok_def runner_mapping_def code_words_def c_assert_def)
qed

lemma install_handlers_ok: "list_all (ie_sigaction e) ss \<Longrightarrow> install_handlers e ss = Inr ()"
  by (induction ss) simp_all

lemma map_alt_stack_ok:
  assumes "init_ok e os_mapped st" and "ie_build e = b" and "live st1 = [hd (init_live b st)]"
  shows "map_alt_stack e (unmapped_code b st os_mapped) st1 = Inr (st1\<lparr>live := init_live b st\<rparr>)"
proof -
  have "\<not> pages_overlap (hd (init_live b st)) (ALT_STACK_ADDR b) ALT_STACK_SIZE"
    using assms(1,2) by (simp add: init_ok_def Let_def)
  moreover from this have "\<not> pages_overlap (hd (init_live b st)) (ALT_STACK_ADDR b) (unat (page_size b))"
    using page_size_values [of b] by (auto simp: pages_overlap_def split: arch.splits)
  ultimately show ?thesis
    using assms by (simp add: map_alt_stack_def check_and_map_with_flags_def check_page_mapped_def unmapped_code_def
        init_ok_def Let_def init_live_def c_assert_def)
qed

lemma runner_init_ok:
  assumes init: "init_ok e os_mapped st" and b: "ie_build e = b" and cnt: "counters_ok e"
    and isa: "follows_isa b (ie_v0 e) (runner_code_start st) (ie_hw e)"
    and build: "valid_build b" "0 < MAX_SEQ_LEN b" "MAX_SEQ_LEN b < 2 ^ 30" "length (ie_garbage e) = CHECK_MEM_CUT_AT"
    and place: "0 < runner_code_start st" "unat (runner_code_start st) + 4 * MAX_SEQ_LEN b < 2 ^ 64"
  shows "\<exists>st'. runner_init e os_mapped st = Inr st' \<and> runner_inv b st' \<and> live st' = init_live b st \<and>
           runner_code_start st' = runner_code_start st \<and> calibrated e st' \<and>
           hw_ok b (instret_base_no_signal st') (instret_base_signal st') (ie_hw e)"
proof -
  let ?os = "unmapped_code b st os_mapped"
  obtain c where c: "map_runner_code e os_mapped st = Inr (st\<lparr>live := [hd (init_live b st)], code := c\<rparr>)" "length c = MAX_SEQ_LEN b"
    using map_runner_code_ok [OF init b] by blast
  define st2 where "st2 = st\<lparr>live := init_live b st, code := c\<rparr>"
  have alt: "map_alt_stack e ?os (st\<lparr>live := [hd (init_live b st)], code := c\<rparr>) = Inr st2"
    using map_alt_stack_ok [OF init b, of "st\<lparr>live := [hd (init_live b st)], code := c\<rparr>"] by (simp add: st2_def)
  have "hw_ok b (base_no_signal e) (base_signal e) (ie_hw e)" using cnt b by (simp add: counters_ok_def)
  then have "hw_ok b 0 0 (ie_hw e)" by (rule hw_ok_mono) simp_all
  then have rdy: "test_ready e st2" and zero: "instret_base_no_signal st2 = 0" "instret_base_signal st2 = 0"
    using init b isa build place c(2) by (simp_all add: test_ready_def Let_def runner_inv_def init_ok_def st2_def)
  obtain st3 where st3: "calibrate e ?os st2 = Inr st3" "calibrated e st3" "test_ready e st3"
      "live st3 = live st2" "runner_code_start st3 = runner_code_start st2"
    using calibrate_ok [OF rdy b cnt zero] by blast
  have same: "auto_map_allowed b ?os st3 t = auto_map_allowed b ?os (st\<lparr>live := init_live b st\<rparr>) t" for t
    by (simp add: auto_map_allowed_def check_page_mapped_def st3(4) st2_def)
  have "flag_CHECK_MEM b \<and> flag_AUTO_MAP_MEM b \<longrightarrow> test_pages b \<and>
      auto_map_allowed b ?os st3 (store_base b) \<and> auto_map_allowed b ?os st3 (store_base b + page_size b)"
    using init b unfolding same by (simp add: init_ok_def Let_def)
  moreover have "test_disasm e = Inr ()" "test_vector_size e = Inr ()" "ie_fp_status e 0 = ie_fp_status e 1"
    using init by (simp_all add: init_ok_def Let_def)
  ultimately obtain st4 where st4: "self_tests e ?os st3 = Inr st4" "ready b st3 st4" "test_ready e st4"
    using self_tests_ok [OF st3(3) b cnt st3(2)] by blast
  have "install_handlers e caught_signals = Inr ()" "ie_timer_create e"
    using init install_handlers_ok by (auto simp: init_ok_def Let_def)
  with c(1) alt st3(1) st4(1) b have "runner_init e os_mapped st = Inr st4" by (simp add: runner_init_def Let_def)
  then show ?thesis
    using st4(2,3) st3(4,5) calibrated_ready [OF st3(2) st4(2)] b
    by (simp add: ready_def same_env_def st2_def test_ready_def Let_def)
qed

section \<open>Properties\<close>

text \<open>
  C6. The start-up accepts every correct processor. When the kernel grants what \<open>runner_init\<close> asks for
  and the processor executes the few instructions of the tests as the architecture manual says, whatever
  it does to x29, to signal codes and in all other programs, no assertion of the start-up fails: the
  code pages and the stack of the handler are mapped, the counters are calibrated, all tests pass, and
  the runner is in the state from which the fuzzer runs its inputs.
\<close>

theorem runner_init_accepts:
  assumes "init_ok e os_mapped st" and "ie_build e = b" and "counters_ok e"
    and "follows_isa b (ie_v0 e) (runner_code_start st) (ie_hw e)"
    and "valid_build b" and "0 < MAX_SEQ_LEN b" and "MAX_SEQ_LEN b < 2 ^ 30" and "length (ie_garbage e) = CHECK_MEM_CUT_AT"
    and "0 < runner_code_start st" and "unat (runner_code_start st) + 4 * MAX_SEQ_LEN b < 2 ^ 64"
  shows "\<exists>st'. runner_init e os_mapped st = Inr st' \<and> runner_inv b st' \<and> live st' = init_live b st \<and>
           runner_code_start st' = runner_code_start st \<and> calibrated e st' \<and>
           hw_ok b (instret_base_no_signal st') (instret_base_signal st') (ie_hw e)"
  using assms by (rule runner_init_ok)

text \<open>A processor that does exactly what the architecture says, and counts 30 instructions a run.\<close>

definition isa_hw :: "build \<Rightarrow> u64 \<Rightarrow> u64 \<Rightarrow> hw" where
  "isa_hw b v0 start c regs ms =
     \<lparr>ex_end = fst (isa_run b v0 start c regs ms), ex_meta_pre = \<lparr>cycle = 10, instret = 20\<rparr>,
      ex_meta_post = \<lparr>cycle = 30, instret = 50\<rparr>, ex_mem = snd (isa_run b v0 start c regs ms)\<rparr>"

lemma store_bytes_length:
  assumes "store_target a m" and "length (map_rw m) = map_n m"
  shows "length (map_rw (store_bytes a v m)) = map_n m" "map_n (store_bytes a v m) = map_n m"
proof -
  have "unat (a - map_start m) = unat a - unat (map_start m)"
    using assms(1) by (intro unat_sub) (simp add: store_target_def word_le_nat_alt)
  with assms show "length (map_rw (store_bytes a v m)) = map_n m" "map_n (store_bytes a v m) = map_n m"
    by (auto simp: store_bytes_def store_target_def Let_def)
qed

definition isa_inv :: "build \<Rightarrow> mapping list \<Rightarrow> regs \<Rightarrow> mapping list \<Rightarrow> bool" where
  "isa_inv b ms0 r ms \<longleftrightarrow>
     wf_regs b r \<and> list_all2 (\<lambda>m0 m. length (map_rw m) = map_n m \<and> map_n m = map_n m0) ms0 ms"

lemma isa_store_inv:
  "isa_inv b ms0 r ms \<Longrightarrow> isa_store b offset r ms = Next r' ms' \<Longrightarrow> isa_inv b ms0 r' ms'"
  by (auto simp: isa_inv_def isa_store_def Let_def list_all2_map2 store_bytes_length elim!: list_all2_mono split: if_splits)

lemma isa_step_cases:
  assumes "isa_step b v0 i r ms = Next r' ms'"
  shows "r' = r \<and> ms' = ms \<or> r' = added b r \<and> ms' = ms \<or> r' = r\<lparr>vec := (vec r)[0 := v0_bytes]\<rparr> \<and> ms' = ms \<or>
         isa_store b 1 r ms = Next r' ms' \<or> isa_store b 0 r ms = Next r' ms'"
  using assms unfolding isa_step_def added_def [symmetric] by (simp split: if_split_asm)

lemma isa_step_inv:
  assumes "isa_inv b ms0 r ms" and "isa_step b v0 i r ms = Next r' ms'"
  shows "isa_inv b ms0 r' ms'"
proof -
  have "wf_regs b (r\<lparr>vec := (vec r)[0 := v0_bytes]\<rparr>)"
    using assms(1) by (auto simp: isa_inv_def wf_regs_def v0_bytes_def dest!: subsetD [OF set_update_subset_insert])
  moreover have "wf_regs b (added b r)"
    using assms(1) by (cases "arch b") (simp_all add: added_def isa_inv_def)
  ultimately show ?thesis
    using assms(1) isa_step_cases [OF assms(2)] isa_store_inv [OF assms(1)] by (elim disjE) (simp_all add: isa_inv_def)
qed

lemma isa_step_signal: "isa_step b v0 i r ms = Fault sig a \<Longrightarrow> sig = SIGILL \<or> sig = SIGSEGV"
  by (auto simp: isa_step_def isa_store_def Let_def split: if_splits)

lemma isa_run_inv:
  assumes "isa_inv b ms0 r ms"
  shows "list_all2 (\<lambda>m bs. length bs = map_n m) ms0 (snd (isa_run b v0 pc c r ms)) \<and>
         (case fst (isa_run b v0 pc c r ms) of
            Returned r' \<Rightarrow> wf_regs b r'
          | Trapped sc \<Rightarrow> wf_regs b (sc_regs sc) \<and> (sc_signum sc = SIGILL \<or> sc_signum sc = SIGSEGV))"
  using assms
proof (induction b v0 pc c r ms rule: isa_run.induct)
  case (1 b v0 pc r ms)
  then show ?case by (auto simp: isa_inv_def list_all2_map2 elim!: list_all2_mono)
next
  case (2 b v0 pc i c r ms)
  show ?case
  proof (cases "isa_step b v0 i r ms")
    case (Next r' ms')
    with "2.IH" [OF Next isa_step_inv [OF "2.prems" Next]] show ?thesis by simp
  next
    case (Fault sig a)
    with "2.prems" isa_step_signal [OF Fault] show ?thesis
      by (auto simp: isa_inv_def list_all2_map2 elim!: list_all2_mono)
  qed
qed

lemma isa_hw_ok:
  assumes "x \<le> 30" and "y \<le> 30" and "arch b = RISCV64"
  shows "hw_ok b x y (isa_hw b v0 start)"
  unfolding hw_ok_def Let_def
proof (intro allI impI)
  fix c :: "u32 list" and regs :: regs and ms :: "mapping list"
  assume "length c = MAX_SEQ_LEN b" "wf_regs b regs" "list_all wf_mapping ms"
  then have "isa_inv b ms regs ms"
    by (auto simp: isa_inv_def wf_mapping_def list_all_iff intro!: list.rel_refl_strong)
  from isa_run_inv [OF this, of v0 start c] assms
  show "list_all2 (\<lambda>m bs. length bs = map_n m) ms (ex_mem (isa_hw b v0 start c regs ms)) \<and>
      (case ex_end (isa_hw b v0 start c regs ms) of
         Returned r \<Rightarrow> wf_regs b r \<and> (flag_META b \<longrightarrow> x \<le>
           (if arch b = RISCV64 then instret (ex_meta_post (isa_hw b v0 start c regs ms)) -
              instret (ex_meta_pre (isa_hw b v0 start c regs ms)) else 0))
       | Trapped sc \<Rightarrow> wf_regs b (sc_regs sc) \<and> sc_signum sc \<noteq> 0 \<and> unat (sc_signum sc) < 256 \<and>
           (flag_META b \<longrightarrow> y \<le>
             (if arch b = RISCV64 then instret (ex_meta_post (isa_hw b v0 start c regs ms)) -
                instret (ex_meta_pre (isa_hw b v0 start c regs ms)) else 0)))"
    by (auto simp: isa_hw_def split: run_end.splits)
qed

lemma same_end_refl: "same_end b en en"
proof (cases en)
  case (Returned r)
  have "r = set_gp_reg b ''x29'' (gp_reg b r ''x29'') r" by (cases r) (simp add: set_gp_reg_def gp_reg_def)
  with Returned show ?thesis by (auto simp: same_end_def)
qed (simp add: same_end_def)

lemma isa_hw_follows: "follows_isa b v0 start (isa_hw b v0 start)"
  by (simp add: follows_isa_def isa_hw_def same_end_refl)

definition sample_init :: init_env where
  "sample_init =
     (let b = riscv_vector_build\<lparr>flag_AUTO_MAP_MEM := False\<rparr>
      in \<lparr>ie_build = b, ie_hw = isa_hw b 0x3000000 0x800000, ie_garbage = replicate CHECK_MEM_CUT_AT 0, ie_malloc = True,
          ie_text = replicate 4096 0, ie_munmap = True, ie_SIGSTKSZ = 8192, ie_sigaltstack = True,
          ie_sigaction = (\<lambda>_. True), ie_timer_create = True,
          ie_disasm = (\<lambda>i. Some (if i = 0x13 then ''nop'' else ''addi'' @ [CHR 0x09] @ ''t0,t0,1'')),
          ie_max_vec_size = 16, ie_fp_status = (\<lambda>_. 0), ie_v0 = 0x3000000\<rparr>)"

definition start_runner :: runner where
  "start_runner = (sample_runner [])\<lparr>instret_base_no_signal := 0, instret_base_signal := 0\<rparr>"

abbreviation sample_init_build :: build where "sample_init_build \<equiv> ie_build sample_init"

lemma sample_init_build:
  "sample_init_build = riscv_vector_build\<lparr>flag_AUTO_MAP_MEM := False\<rparr>" "arch sample_init_build = RISCV64"
  "MAX_SEQ_LEN sample_init_build = 5" "flag_META sample_init_build" "valid_build sample_init_build"
  "ie_hw sample_init = isa_hw sample_init_build 0x3000000 0x800000" "ie_v0 sample_init = 0x3000000"
  "length (ie_garbage sample_init) = CHECK_MEM_CUT_AT" "runner_code_start start_runner = 0x800000"
  by (simp_all add: sample_init_def riscv_vector_build_def Let_def valid_build_def start_runner_def sample_runner_def)

lemma sample_init_live: "init_live sample_init_build start_runner = [(0x800000, 4096), (0x091af00000, 16384)]"
  "runner_code_start_page_aligned sample_init_build start_runner = 0x800000"
  "runner_code_end_page_aligned sample_init_build start_runner = 0x801000"
  by (simp_all add: init_live_def runner_code_start_page_aligned_def runner_code_end_page_aligned_def runner_code_end_def page_size_def
      ALT_STACK_ADDR_def sample_init_build(2,3,9))

lemma sample_init_ok: "init_ok sample_init (\<lambda>a. a = 0x800000) start_runner"
  unfolding init_ok_def Let_def sample_init_live
  by (simp add: sample_init_def Let_def start_runner_def sample_runner_def caught_signals_def ALT_STACK_ADDR_def pages_overlap_def
      test_disasm_def test_vector_size_def NOP_32_def add_instr_def riscv_vector_build_def)

lemma sample_counters: "counters_ok sample_init" "base_no_signal sample_init = 29"
proof -
  have counts: "nop_count sample_init = 30" "base_signal sample_init = 30"
    by (simp_all add: nop_count_def base_signal_def counted_def sample_init_build(2,6) isa_hw_def)
  then show bases: "base_no_signal sample_init = 29" by (simp add: base_no_signal_def)
  show "counters_ok sample_init"
    unfolding counters_ok_def bases counts sample_init_build(6,7)
    by (simp add: isa_hw_ok sample_init_build(2) counted_def Let_def list_all_iff) (simp add: isa_hw_def)
qed

lemma sample_follows:
  "follows_isa sample_init_build (ie_v0 sample_init) (runner_code_start start_runner) (ie_hw sample_init)"
  unfolding sample_init_build(6,7,9) by (rule isa_hw_follows)

theorem runner_init_accepts_witness:
  "\<exists>st'. runner_init sample_init (\<lambda>a. a = 0x800000) start_runner = Inr st' \<and>
     runner_inv (ie_build sample_init) st' \<and> live st' = [(0x800000, 4096), (0x091af00000, 16384)] \<and>
     instret_base_no_signal st' = 29"
  using runner_init_accepts [OF sample_init_ok refl sample_counters(1) sample_follows sample_init_build(5)]
    sample_init_build(3,4,8,9) sample_counters(2) sample_init_live(1)
  by (auto simp: calibrated_def)

end
