(* ===== verification/Repro_Run.thy ===== *)
theory Repro_Run
  imports Self_Accept Report
begin

text \<open>
  The end of a reproducer's life: \<open>read_file\<close> (lib/util.c), \<open>load_repro_from_file\<close> and
  \<open>repro_run_common\<close> (lib/runner.c) and \<^verbatim>\<open>run\<close> of repro-runner.c, which load the file, pin the process,
  initialise the runner, set up the mappings, run the sequence and print the result. The last theorem
  joins writing, loading and running: a stored reproducer shows the result it was written for.
\<close>

section \<open>Reading a file\<close>

text \<open>
  The loop of \<open>read_file\<close>. It reads \<^verbatim>\<open>sizeof(buffer)\<close> bytes at a time, which is the size of a pointer;
  \<open>None\<close> is the null pointer of an empty file.
\<close>

function read_chunks :: "(nat \<Rightarrow> bool) \<Rightarrow> string \<Rightarrow> string option \<Rightarrow> string option res" where
  "read_chunks realloc rest result =
     (let bytes = take 8 rest; old = (case result of None \<Rightarrow> [] | Some xs \<Rightarrow> xs)
      in if bytes = [] then Inr result
         else if \<not> realloc (length old + length bytes + 1) then Inl (Exit 1 ''realloc failed'')
         else read_chunks realloc (drop 8 rest) (Some (old @ bytes)))"
  by pat_completeness auto
termination
  by (relation "measure (\<lambda>(realloc, rest, result). length rest)") auto

declare read_chunks.simps [simp del]

definition read_file :: "(nat \<Rightarrow> bool) \<Rightarrow> string option \<Rightarrow> string res" where
  "read_file realloc content =
     (case content of
        None \<Rightarrow> Inl (Exit 1 ''Could not open'')
      | Some bytes \<Rightarrow>
          res_bind (read_chunks realloc bytes None) (\<lambda>result.
            case result of None \<Rightarrow> Inl (Exit 1 ''Reading file failed'') | Some xs \<Rightarrow> Inr xs))"

section \<open>Running a reproducer\<close>

record repro_env =
  re_init :: init_env
  re_mapped :: "u64 \<Rightarrow> bool"
  re_os :: os
  re_term :: term_env
  re_realloc :: "nat \<Rightarrow> bool"
  re_malloced :: "nat \<Rightarrow> u8 list"
  re_val :: "u8 list"

definition load_repro_from_file ::
  "nat \<Rightarrow> repro_env \<Rightarrow> string option \<Rightarrow> regs \<Rightarrow> (repro \<times> u32 list) res option" where
  "load_repro_from_file fuel p content regs_before =
     (case read_file (re_realloc p) content of
        Inl e \<Rightarrow> Some (Inl e)
      | Inr text \<Rightarrow> load_repro fuel (ie_build (re_init p)) (re_malloced p) text regs_before)"

text \<open>The result, what is printed of it, where the process was pinned, and the runner afterwards.\<close>

definition repro_run_common ::
  "repro_env \<Rightarrow> pin_state \<Rightarrow> runner \<Rightarrow> regs \<Rightarrow> u32 list \<Rightarrow> mapping list \<Rightarrow> i32 \<Rightarrow> u32 list \<Rightarrow> u32 \<Rightarrow> string \<Rightarrow>
     (result \<times> string list \<times> pin_state \<times> runner) res" where
  "repro_run_common p pst st regs_before instr_seq ms core midrs midr_override uarch_override =
     (let e = re_init p; b = ie_build e; os' = unmapped_code b st (re_mapped p)
      in res_bind (common_pin b (re_os p) pst core midrs midr_override uarch_override) (\<lambda>pst'.
         res_bind (runner_init e (re_mapped p) st) (\<lambda>st1.
         res_bind (if ms \<noteq> []
                   then res_bind (setup_memory_mappings b os' (re_val p) st1 ms) (\<lambda>(st2, ms1).
                        res_bind (load_memory_mappings ms1) (\<lambda>ms2. Inr (st2, ms2)))
                   else Inr (st1, ms)) (\<lambda>(st2, ms2).
         res_bind (run_with_instr_seq b (ie_hw e) os' (ie_garbage e) st2 instr_seq ms2 regs_before) (\<lambda>(r, _, st3).
         res_bind (print_result b (re_term p) regs_before r) (\<lambda>out. Inr (r, out, pst', st3)))))))"

text \<open>\<^verbatim>\<open>run\<close> of repro-runner.c, with the options of the command line.\<close>

definition repro_runner_run ::
  "nat \<Rightarrow> repro_env \<Rightarrow> cli \<Rightarrow> string option \<Rightarrow> pin_state \<Rightarrow> runner \<Rightarrow>
     (result \<times> string list \<times> pin_state \<times> runner) res option" where
  "repro_runner_run fuel p c content pst st =
     (case load_repro_from_file fuel p content (zero_regs (ie_build (re_init p))) of
        None \<Rightarrow> None
      | Some (Inl e) \<Rightarrow> Some (Inl e)
      | Some (Inr (rp, yaml_midrs)) \<Rightarrow>
          Some (repro_run_common p pst st (rp_regs rp) (rp_instr_seq rp) (rp_mappings rp) (cli_core c) yaml_midrs
                  (cli_midr c) (cli_uarch c)))"

section \<open>Lemmas\<close>

abbreviation (input) granted :: "nat \<Rightarrow> bool" where "granted \<equiv> (\<lambda>_. True)"

lemma read_chunks_ok:
  "read_chunks granted rest result =
     Inr (if rest = [] then result else Some ((case result of None \<Rightarrow> [] | Some xs \<Rightarrow> xs) @ rest))"
proof (induction granted rest result rule: read_chunks.induct)
  case (1 rest result)
  show ?case
  proof (cases "rest = []")
    case False
    let ?old = "case result of None \<Rightarrow> [] | Some xs \<Rightarrow> xs"
    have "take 8 rest \<noteq> []" using False by simp
    from 1 [OF refl refl this] have
      "read_chunks granted (drop 8 rest) (Some (?old @ take 8 rest)) = Inr (Some (?old @ rest))" by (simp split: if_splits)
    with False show ?thesis by (subst read_chunks.simps) (simp add: Let_def)
  qed (subst read_chunks.simps, simp)
qed

lemma read_file_ok: "bytes \<noteq> [] \<Longrightarrow> read_file granted (Some bytes) = Inr bytes"
  by (simp add: read_file_def read_chunks_ok)

text \<open>Setting up and loading mappings leaves their place and content.\<close>

lemma setup_ids:
  "setup_memory_mappings b os_mapped malloced st ms = Inr (st', ms') \<Longrightarrow>
   list_all (\<lambda>m. 0 < map_n m \<and> length (map_val m) = map_n m) ms \<Longrightarrow>
     list_all wf_mapping ms' \<and> map map_id ms' = map map_id ms \<and>
     st' = st\<lparr>live := live st @ map page_id ms\<rparr>"
proof (induction ms arbitrary: st ms')
  case Nil
  then show ?case by simp
next
  case (Cons m ms)
  from Cons.prems(1) obtain st1 m' ms1 where one: "setup_memory_mapping b os_mapped malloced st m = Inr (st1, m')"
    and rest: "setup_memory_mappings b os_mapped malloced st1 ms = Inr (st', ms1)" "ms' = m' # ms1"
    by (auto simp: res_bind_Inr_iff)
  have m: "map_val m \<noteq> []" using Cons.prems(2) by auto
  then have "st1 = st\<lparr>live := live st @ [page_id m]\<rparr>" "m' = m\<lparr>map_rw := replicate (map_n m) 0\<rparr>"
    using one by (auto simp: setup_memory_mapping_def check_and_map_shmem_fixed_def res_bind_Inr_iff Let_def split: if_splits)
  with Cons.IH [OF rest(1)] Cons.prems(2) rest(2) show ?case by (simp add: wf_mapping_def)
qed

lemma log_repro_nonempty:
  "log_repro b t disasm h num_cpus git_commit items instr_seq r ms = Inr file \<Longrightarrow> unlines file \<noteq> []"
  by (auto simp: log_repro_def log_repro_yaml_def res_bind_Inr_iff)

section \<open>Properties\<close>

text \<open>
  C7. A stored reproducer reproduces. Let a run of an input (sequence, registers with cleared status,
  mappings) give the result \<open>r\<close>, and let a build with at least one flag write the reproducer of this
  input. When repro-runner later reads the file on a processor that behaves the same, its options let it
  pin the process, its self tests pass and the kernel grants the mappings, then it ends, and the result
  it prints is equal to \<open>r\<close>, with the same instruction index and counters: nothing of the input is lost
  between the client, the file and the second run.
\<close>

theorem stored_reproducer_reproduces:
  fixes p :: repro_env
  defines "e \<equiv> re_init p"
  assumes b: "ie_build e = b" "valid_build b" "some_flag b"
    and written: "printable_input b disasm instr_seq r0 ms" "host_text h" "newline \<notin> set git_commit"
      "printable_items b t items" "log_repro b t disasm h num_cpus git_commit items instr_seq r0 ms = Inr file"
    and status: "restored_regs b r0 (zero_regs b) = r0"
    and measured: "run_pre b (ie_hw e) (ie_garbage e) st instr_seq ms r0"
      "run_with_instr_seq b (ie_hw e) (unmapped_code b st0 (re_mapped p)) (ie_garbage e) st instr_seq ms r0 = Inr (r, ms', st')"
    and pinned: "\<And>midrs. \<exists>pst'. common_pin b (re_os p) pst (cli_core c) midrs (cli_midr c) (cli_uarch c) = Inr pst'"
    and init: "runner_init e (re_mapped p) st0 = Inr st1" "re_realloc p = granted"
      "setup_memory_mappings b (unmapped_code b st0 (re_mapped p)) (re_val p) st1 (map (\<lambda>m. m\<lparr>map_rw := []\<rparr>) ms) = Inr (st2, ms2)"
    and rdy: "ready b st st2" and fuel: "length file < fuel"
  shows "\<exists>r' out pst' st3. repro_runner_run fuel p c (Some (unlines file)) pst st0 = Some (Inr (r', out, pst', st3)) \<and>
           same_result b r r' \<and> print_result b (re_term p) r0 r' = Inr out"
proof -
  let ?ms = "map (\<lambda>m. m\<lparr>map_rw := []\<rparr>) ms" and ?os = "unmapped_code b st0 (re_mapped p)"
  obtain midrs where load: "load_repro fuel b (re_malloced p) (unlines file) (zero_regs b) =
      Some (Inr (\<lparr>rp_regs = r0, rp_instr_seq = instr_seq, rp_mappings = ?ms\<rparr>, midrs))"
    using log_repro_loads [OF b(2,3) written(1) wf_zero_regs written(2-4), of num_cpus "re_malloced p"] written(5) fuel status
    by auto
  obtain pst' where pst': "common_pin b (re_os p) pst (cli_core c) midrs (cli_midr c) (cli_uarch c) = Inr pst'"
    using pinned by blast
  have wf: "list_all wf_mapping ms" using measured(1) by (simp add: run_pre_def)
  then have "list_all (\<lambda>m. 0 < map_n m \<and> length (map_val m) = map_n m) ?ms"
    by (auto simp: list_all_iff wf_mapping_def)
  from setup_ids [OF init(3) this]
  have ms2: "list_all wf_mapping ms2" "map map_id ms2 = map map_id ms" by (simp_all add: comp_def map_id_def)
  let ?ms3 = "map loaded ms2"
  have ms3: "list_all wf_mapping ?ms3" "map map_id ms = map map_id ?ms3"
    using ms2 by (auto simp: list_all_iff comp_def)
  have prepared: "(if ?ms \<noteq> []
      then res_bind (setup_memory_mappings b ?os (re_val p) st1 ?ms) (\<lambda>(st2, ms1).
           res_bind (load_memory_mappings ms1) (\<lambda>ms2. Inr (st2, ms2)))
      else Inr (st1, ?ms)) = Inr (st2, ?ms3)"
    using init(3) load_memory_mappings_wf [OF ms2(1)] by (cases ms) auto
  from whole_run_indep [OF measured(1) rdy ms3 measured(2)] obtain r' st3 where
    run: "run_with_instr_seq b (ie_hw e) ?os (ie_garbage e) st2 instr_seq ?ms3 r0 = Inr (r', ms', st3)" "same_result b r r'"
    by blast
  obtain out where out: "print_result b (re_term p) r0 r' = Inr out" using print_result_total [OF b(2)] by blast
  have "repro_run_common p pst st0 r0 instr_seq ?ms (cli_core c) midrs (cli_midr c) (cli_uarch c) = Inr (r', out, pst', st3)"
    using b(1) pst' init(1) run(1) out unfolding repro_run_common_def Let_def e_def [symmetric]
    by (simp only: prepared res_bind_simps prod.case)
  then have "repro_runner_run fuel p c (Some (unlines file)) pst st0 = Some (Inr (r', out, pst', st3))"
    using load init(2) b(1) read_file_ok [OF log_repro_nonempty [OF written(5)]]
    by (simp add: repro_runner_run_def load_repro_from_file_def e_def)
  with run(2) out show ?thesis by blast
qed

definition sample_repro_env :: repro_env where
  "sample_repro_env =
     \<lparr>re_init = sample_init, re_mapped = (\<lambda>a. a = 0x800000), re_os = sample_os 1, re_term = sample_term, re_realloc = granted,
      re_malloced = (\<lambda>n. replicate n 0), re_val = []\<rparr>"

definition sample_page :: mapping where
  "sample_page = \<lparr>map_start = 0x10000, map_n = 8, map_prot = 3, map_val = [1, 2, 3, 4, 5, 6, 7, 8], map_rw = replicate 8 0\<rparr>"

lemma sample_started:
  "\<exists>st1. runner_init sample_init (\<lambda>a. a = 0x800000) start_runner = Inr st1 \<and> runner_inv sample_init_build st1 \<and>
     live st1 = [(0x800000, 4096), (0x091af00000, 16384)] \<and>
     hw_ok sample_init_build (instret_base_no_signal st1) (instret_base_signal st1) (ie_hw sample_init)"
  using runner_init_ok [OF sample_init_ok refl sample_counters(1) sample_follows sample_init_build(5)]
    sample_init_build(3,8,9) sample_init_live(1) by auto

lemma sample_pinned:
  "\<exists>pst'. common_pin b (sample_os 1) sample_pin 0 midrs 0 [] = Inr pst'"
proof -
  have "setaffinity (sample_os 1) (affinity_calls sample_pin + 1) 0" by (simp add: sample_os_def sample_pin_def)
  from pin_tries_ok [OF _ this, of 10] show ?thesis
    by (auto simp: common_pin_def pin_to_core_verbose_def get_cpus_sample pin_to_cpu_def)
qed

theorem stored_reproducer_reproduces_witness:
  "\<exists>st st' ms' r yaml r' out pst' st3.
     run_with_instr_seq sample_init_build (ie_hw sample_init) (unmapped_code sample_init_build start_runner (\<lambda>a. a = 0x800000))
       (ie_garbage sample_init) st [0x13] [sample_page] (zero_regs sample_init_build) = Inr (r, ms', st') \<and>
     log_repro sample_init_build sample_term (\<lambda>_. Some ''nop'') sample_host 4 ''abc'' [(r, None)] [0x13]
       (zero_regs sample_init_build) [sample_page] = Inr yaml \<and>
     repro_runner_run (length yaml + 1) sample_repro_env ((bare_cli ''a.yaml'')\<lparr>cli_core := 0\<rparr>) (Some (unlines yaml))
       sample_pin start_runner = Some (Inr (r', out, pst', st3)) \<and>
     same_result sample_init_build r r'"
proof -
  let ?b = "sample_init_build" and ?os = "unmapped_code sample_init_build start_runner (\<lambda>a. a = 0x800000)"
  let ?r0 = "zero_regs sample_init_build"
  obtain st1 where st1: "runner_init sample_init (\<lambda>a. a = 0x800000) start_runner = Inr st1" "runner_inv ?b st1"
      "live st1 = [(0x800000, 4096), (0x091af00000, 16384)]"
      "hw_ok ?b (instret_base_no_signal st1) (instret_base_signal st1) (ie_hw sample_init)"
    using sample_started by blast
  define st2 where "st2 = st1\<lparr>live := live st1 @ [(0x10000, 8)]\<rparr>"
  have set_up: "setup_memory_mappings ?b ?os [] st1 (map (\<lambda>m. m\<lparr>map_rw := []\<rparr>) [sample_page]) = Inr (st2, [sample_page])"
    by (simp add: setup_memory_mapping_def check_and_map_shmem_fixed_def check_page_mapped_def unmapped_code_def pages_overlap_def
        st1(3) sample_page_def st2_def page_size_def sample_init_build(2) Let_def)
  have rdy: "ready ?b st2 st2" using st1(2) by (simp add: ready_def same_env_def runner_inv_def st2_def)
  have pre: "run_pre ?b (ie_hw sample_init) (ie_garbage sample_init) st2 [0x13] [sample_page] ?r0"
    using st1(2,4) sample_init_build(3,8) by (simp add: run_pre_def runner_inv_def st2_def sample_page_def wf_mapping_def)
  obtain r ms' st' where run: "run_with_instr_seq ?b (ie_hw sample_init) ?os (ie_garbage sample_init) st2 [0x13] [sample_page] ?r0 =
      Inr (r, ms', st')" "wf_result ?b r"
    using whole_run_ok [OF pre] by blast
  have env: "re_init sample_repro_env = sample_init" "re_mapped sample_repro_env = (\<lambda>a. a = 0x800000)" "re_os sample_repro_env = sample_os 1"
    "re_realloc sample_repro_env = granted" "re_val sample_repro_env = []"
    by (simp_all add: sample_repro_env_def)
  have flags: "some_flag ?b" by (simp add: sample_init_build(1) riscv_vector_build_def some_flag_def)
  have inp: "printable_input ?b (\<lambda>_. Some ''nop'') [0x13] ?r0 [sample_page]"
    by (simp add: printable_input_def storable_def sample_page_def sample_init_build(3))
  have host: "host_text sample_host" "newline \<notin> set ''abc''" by (simp_all add: host_text_def sample_host_def)
  have items: "printable_items ?b sample_term [(r, None)]"
    using run(2) by (simp add: printable_items_def sample_term_def wf_result_def)
  obtain yaml where yaml: "log_repro ?b sample_term (\<lambda>_. Some ''nop'') sample_host 4 ''abc'' [(r, None)] [0x13] ?r0 [sample_page] = Inr yaml"
    using log_repro_loads [OF sample_init_build(5) flags inp wf_zero_regs host items] by blast
  have status: "restored_regs ?b ?r0 ?r0 = ?r0" by (simp add: restored_regs_def)
  from stored_reproducer_reproduces [where p = sample_repro_env, unfolded env, OF refl sample_init_build(5) flags inp host items yaml status pre run(1) _
      st1(1) refl set_up rdy, of sample_pin "(bare_cli ''a.yaml'')\<lparr>cli_core := 0\<rparr>" "length yaml + 1"]
  obtain r' out pst' st3 where "repro_runner_run (length yaml + 1) sample_repro_env ((bare_cli ''a.yaml'')\<lparr>cli_core := 0\<rparr>) (Some (unlines yaml))
       sample_pin start_runner = Some (Inr (r', out, pst', st3))" "same_result ?b r r'"
    using sample_pinned by auto
  with run(1) yaml show ?thesis by blast
qed

end
