(* ===== verification/Startup.thy ===== *)
theory Startup
  imports Client Repro_Run
begin

text \<open>
  The start of diffuzz-client.c, \<^verbatim>\<open>main\<close> and \<open>start_client\<close> up to the loop over batches, and the other end
  of the handshake, \<^verbatim>\<open>recv_client_info\<close> and \<^verbatim>\<open>check_hash\<close> of \<^verbatim>\<open>RealClient\<close> in pyutils/server.py with the
  messages they read. A process is the \<open>client_info\<close> it holds when it enters \<open>start_client\<close>; what the
  system calls answer is the record \<open>client_host\<close>. A Python text is the list of its code points.
\<close>

section \<open>Arguments and the machine\<close>

record arguments =
  connect_ip :: string
  connect_port :: u16
  arg_hostname :: string

text \<open>
  The arguments after the program's name. \<^verbatim>\<open>strcpy\<close> writes into fields of 100 bytes; a longer argument
  runs over the end.
\<close>

definition copy_100 :: "string \<Rightarrow> string res" where
  "copy_100 s = (if 100 \<le> length s then Inl (Undefined ''strcpy'') else Inr s)"

definition parse_arguments :: "string list \<Rightarrow> arguments res" where
  "parse_arguments argv =
     (case argv of
        ip # port # others \<Rightarrow>
          res_bind (copy_100 ip) (\<lambda>ip'.
          res_bind (case others of [] \<Rightarrow> Inr [] | h # _ \<Rightarrow> copy_100 h) (\<lambda>h'.
            Inr \<lparr>connect_ip = ip',
                 connect_port = (case scan_int 10 port of Some (v, _) \<Rightarrow> word_of_int v | None \<Rightarrow> 0),
                 arg_hostname = h'\<rparr>))
      | _ \<Rightarrow> Inl (Exit EXIT_FAILURE ''Usage''))"

text \<open>What the kernel answers a request for a vector length, and what it reports afterwards.\<close>

record vector_length =
  vl_set :: "i32 \<Rightarrow> i32"
  vl_get :: "i32 \<Rightarrow> i32"

record client_host =
  ch_build :: build
  ch_host :: host_env
  ch_os :: os
  ch_no_randomize :: "bool \<times> bool"
  ch_hwcap_sve :: bool
  ch_sve :: vector_length
  ch_sme :: vector_length
  ch_realloc :: "nat \<Rightarrow> bool"
  ch_lscpu :: "string option"
  ch_cpuinfo :: "string option"
  ch_possible :: "string option"
  ch_fork :: bool
  ch_setsid :: bool
  ch_fork_core :: "nat \<Rightarrow> bool"
  ch_elf_hash :: string

text \<open>
  \<open>True\<close>: the program is executed again, without address space randomisation. \<open>client_main\<close> goes on in either
  case: the new program finds it disabled, and so does the old one when \<^verbatim>\<open>execv\<close> fails.
\<close>

definition disable_aslr :: "client_host \<Rightarrow> bool res" where
  "disable_aslr e =
     (case ch_no_randomize e of (before, after) \<Rightarrow>
        if before then Inr False
        else if after then Inr True
        else Inl (Exit 1 ''Failed to disable ASLR with personality syscall.''))"

definition get_lscpu :: "client_host \<Rightarrow> string res" where
  "get_lscpu e =
     (case ch_lscpu e of
        None \<Rightarrow> Inl (Exit 1 ''popen failed'')
      | Some out \<Rightarrow>
          res_bind (read_chunks (ch_realloc e) out None) (\<lambda>result.
            case result of None \<Rightarrow> Inl (Exit 1 ''Getting lscpu output failed'') | Some xs \<Rightarrow> Inr xs))"

text \<open>\<open>set_and_get_sve\<close> and \<open>set_and_get_sme\<close>, by the length they set.\<close>

definition set_and_get_vl :: "vector_length \<Rightarrow> i32 \<Rightarrow> i32 res" where
  "set_and_get_vl v n = res_bind (c_assert (vl_set v n = vl_get v n) ''ret == verify'') (\<lambda>_. Inr (vl_get v n))"

definition AARCH64_VEC_SIZE :: i32 where "AARCH64_VEC_SIZE = 16"

definition sve_sizes :: "client_host \<Rightarrow> (i32 \<times> i32) res" where
  "sve_sizes e =
     (if ch_hwcap_sve e
      then res_bind (set_and_get_vl (ch_sve e) 256) (\<lambda>sve_max_size.
           res_bind (c_assert (sve_max_size \<noteq> 0) ''sve_max_size != 0'') (\<lambda>_.
           res_bind (c_assert (sint AARCH64_VEC_SIZE \<le> sint sve_max_size) ''sve_max_size >= vec_size'') (\<lambda>_.
           res_bind (set_and_get_vl (ch_sve e) AARCH64_VEC_SIZE) (\<lambda>verify.
           res_bind (c_assert (verify = AARCH64_VEC_SIZE) ''verify == vec_size'') (\<lambda>_.
             Inr (AARCH64_VEC_SIZE, sve_max_size))))))
      else Inr (0, 0))"

definition sme_size :: "client_host \<Rightarrow> i32 \<Rightarrow> i32 \<Rightarrow> i32 res" where
  "sme_size e vec_size sve_max_size =
     res_bind (set_and_get_vl (ch_sme e) 256) (\<lambda>first.
       if first \<noteq> -1
       then res_bind (set_and_get_vl (ch_sme e) 256) (\<lambda>sme_max_size.
            res_bind (c_assert (sme_max_size \<noteq> 0) ''sme_max_size != 0'') (\<lambda>_.
            res_bind (c_assert (sve_max_size = sme_max_size) ''sve_max_size == sme_max_size'') (\<lambda>_.
            res_bind (c_assert (sint vec_size \<le> sint sme_max_size) ''sme_max_size >= vec_size'') (\<lambda>_.
            res_bind (set_and_get_vl (ch_sme e) vec_size) (\<lambda>verify.
            res_bind (c_assert (verify = sme_max_size) ''verify == sme_max_size'') (\<lambda>_. Inr sme_max_size))))))
       else Inr 0)"

text \<open>\<open>vec_size\<close>, \<open>sve_max_size\<close> and \<open>sme_max_size\<close>; the last two exist on aarch64 only.\<close>

definition vector_sizes :: "client_host \<Rightarrow> (i32 \<times> i32 \<times> i32) res" where
  "vector_sizes e =
     (case arch (ch_build e) of
        RISCV64 \<Rightarrow> Inr (if flag_VECTOR (ch_build e) then of_nat VEC_REG_SIZE else 0, 0, 0)
      | AARCH64 \<Rightarrow>
          res_bind (sve_sizes e) (\<lambda>(vec_size, sve_max_size).
          res_bind (sme_size e vec_size sve_max_size) (\<lambda>sme_max_size.
            Inr (if he_asimd (ch_host e) then AARCH64_VEC_SIZE else vec_size, sve_max_size, sme_max_size))))"

section \<open>The processes of the client\<close>

record client_info =
  ci_hostname :: string
  ci_num_cpus :: i32
  ci_core :: i32
  ci_lscpu :: string
  ci_cpuinfo :: string
  ci_possible :: string
  ci_vec_size :: i32
  ci_sve_max_size :: i32
  ci_sme_max_size :: i32
  ci_tags :: "(string \<times> string) list"
  ci_elf_hash :: string

definition global_tag_list :: "host_env \<Rightarrow> (string \<times> string) list" where
  "global_tag_list h =
     [(''android_serialno'', he_serialno h), (''android_model'', he_model h), (''android_product'', he_product h)]"

definition restricted_cpus :: "string \<Rightarrow> nat \<Rightarrow> nat" where
  "restricted_cpus host n = (if starts_with ''qemu'' host \<and> 8 \<le> n then 8 else n)"

text \<open>
  The processes that leave \<^verbatim>\<open>main\<close> for a core, in the order of the cores; a \<^verbatim>\<open>fork\<close> that fails is not
  noticed. Without \<open>SINGLE_THREAD\<close> they are children of a process in its own session.
\<close>

definition spawn :: "client_host \<Rightarrow> client_info \<Rightarrow> client_info list res" where
  "spawn e ci =
     (if single_thread (ch_os e) then Inr [ci\<lparr>ci_core := 0, ci_num_cpus := 1\<rparr>]
      else if \<not> ch_fork e then Inl (Exit EXIT_FAILURE ''fork'')
      else if \<not> ch_setsid e then Inl (Exit EXIT_FAILURE ''setsid'')
      else res_bind (get_num_cpus (ch_os e)) (\<lambda>cpus.
             let num_cpus = restricted_cpus (ci_hostname ci) cpus
             in Inr (map (\<lambda>core. ci\<lparr>ci_core := of_nat core, ci_num_cpus := of_nat num_cpus\<rparr>)
                       (filter (ch_fork_core e) [0..<num_cpus]))))"

definition client_main :: "client_host \<Rightarrow> string list \<Rightarrow> (arguments \<times> client_info list) res" where
  "client_main e argv =
     res_bind (disable_aslr e) (\<lambda>_.
     res_bind (parse_arguments argv) (\<lambda>args.
     res_bind (get_lscpu e) (\<lambda>lscpu.
     res_bind (read_file (ch_realloc e) (ch_cpuinfo e)) (\<lambda>proc_cpuinfo.
     res_bind (read_file (ch_realloc e) (ch_possible e)) (\<lambda>sys_possible.
     res_bind (vector_sizes e) (\<lambda>(vec_size, sve_max_size, sme_max_size).
     res_bind (spawn e
         \<lparr>ci_hostname = detect_preferred_hostname (ch_host e) (arg_hostname args), ci_num_cpus = 0, ci_core = 0,
          ci_lscpu = lscpu, ci_cpuinfo = proc_cpuinfo, ci_possible = sys_possible,
          ci_vec_size = vec_size, ci_sve_max_size = sve_max_size, ci_sme_max_size = sme_max_size,
          ci_tags = global_tag_list (ch_host e), ci_elf_hash = ch_elf_hash e\<rparr>) (\<lambda>processes.
       Inr (args, processes))))))))"

section \<open>The client's side of the handshake\<close>

text \<open>Whether each of the four calls for the sizes of the socket's buffers succeeds.\<close>

record buffer_calls =
  set_SNDBUF :: bool
  set_RCVBUF :: bool
  get_SNDBUF :: bool
  get_RCVBUF :: bool

definition set_buffer_sizes :: "buffer_calls \<Rightarrow> unit res" where
  "set_buffer_sizes c =
     (if \<not> set_SNDBUF c then Inl (Exit EXIT_FAILURE ''setsockopt SO_SNDBUF'')
      else if \<not> set_RCVBUF c then Inl (Exit EXIT_FAILURE ''setsockopt SO_RCVBUF'')
      else if \<not> get_SNDBUF c then Inl (Exit EXIT_FAILURE ''getsockopt SO_SNDBUF'')
      else if \<not> get_RCVBUF c then Inl (Exit EXIT_FAILURE ''getsockopt SO_RCVBUF'')
      else Inr ())"

definition send_int :: "sock \<Rightarrow> i32 \<Rightarrow> sock res" where
  "send_int s w = send_msg s (le_store 4 (unat w))"

fun send_tags :: "(string \<times> string) list \<Rightarrow> sock \<Rightarrow> sock res" where
  "send_tags [] s = Inr s"
| "send_tags ((k, v) # tags) s =
     res_bind (send_string s k) (\<lambda>s1. res_bind (send_string s1 v) (\<lambda>s2. send_tags tags s2))"

text \<open>The tags go from the last to the first.\<close>

definition send_client_info :: "build \<Rightarrow> client_info \<Rightarrow> sock \<Rightarrow> sock res" where
  "send_client_info b ci s =
     res_bind (send_string s (ci_hostname ci)) (\<lambda>s.
     res_bind (send_int s (ci_num_cpus ci)) (\<lambda>s.
     res_bind (send_int s (ci_core ci)) (\<lambda>s.
     res_bind (send_string s (ci_lscpu ci)) (\<lambda>s.
     res_bind (send_string s (ci_cpuinfo ci)) (\<lambda>s.
     res_bind (send_string s (ci_possible ci)) (\<lambda>s.
     res_bind (send_int s (ci_vec_size ci)) (\<lambda>s.
     res_bind (case arch b of
                 RISCV64 \<Rightarrow> Inr s
               | AARCH64 \<Rightarrow> res_bind (send_int s (ci_sve_max_size ci)) (\<lambda>s. send_int s (ci_sme_max_size ci))) (\<lambda>s.
     res_bind (send_int s (of_nat (length (ci_tags ci)))) (\<lambda>s.
     res_bind (send_tags (rev (ci_tags ci)) s) (\<lambda>s.
       send_string s (ci_elf_hash ci)))))))))))"

text \<open>\<open>max_batch_n\<close> and the seed.\<close>

definition recv_parameters :: "sock \<Rightarrow> ((nat \<times> nat) \<times> sock) res" where
  "recv_parameters s =
     res_bind (recv_msg_n s 4) (\<lambda>(max_batch_n, s).
     res_bind (recv_msg_n s 8) (\<lambda>(seed, s). Inr ((le_load max_batch_n, le_load seed), s)))"

record 'z start_env =
  se_socket :: "sock option"
  se_buffers :: buffer_calls
  se_connects :: "bool list"
  se_malloc :: "nat \<Rightarrow> bool"
  se_malloced :: "nat \<Rightarrow> u8 list"
  se_deflateInit2 :: "'z option"
  se_inflateInit2 :: "'z option"
  se_compress_recv :: bool
  se_inflate :: "'z coder"
  se_deflate :: "'z coder"
  se_stream :: 'z

text \<open>\<open>start_client\<close> until it has answered \<open>k\<close> batches; the loop itself has no end.\<close>

definition start_client ::
  "nat \<Rightarrow> client_env \<Rightarrow> 'z start_env \<Rightarrow> client_info \<Rightarrow> client \<Rightarrow> ('z connection_context \<times> u8 list \<times> client) res" where
  "start_client k e se ci c =
     (case se_socket se of
        None \<Rightarrow> Inl (Exit EXIT_FAILURE ''Socket creation failed'')
      | Some s \<Rightarrow>
          res_bind (set_buffer_sizes (se_buffers se)) (\<lambda>_.
          res_bind (connect_with_retry (se_connects se)) (\<lambda>_.
          res_bind (send_client_info (ce_build e) ci s) (\<lambda>s1.
          res_bind (recv_parameters s1) (\<lambda>((max_batch_n, seed), s2).
            let generator = (if ce_mode e = JUST_SEQ_NUM
                             then random_difffuzz_generator_init (cl_generator c) (of_nat seed) else cl_generator c);
                n = max_batch_n * max_input_size (ce_build e) (ce_mode e) mod 2 ^ 32;
                inputs_buf = (if se_malloc se n then se_malloced se n else [])
            in if \<not> se_malloc se OUT_BIGBUFFER_SIZE then Inl (Exit EXIT_FAILURE ''out_bigbuffer malloc failed'')
               else res_bind (check_fuzzing_values_safe (ce_build e)
                                (check_page_mapped (ce_build e) (ce_os_mapped e) (cl_runner c))) (\<lambda>_.
                    res_bind (init_comp (se_malloc se) (se_deflateInit2 se) (se_inflateInit2 se)
                                \<lparr>socket = s2, comp_deflate_stream = se_stream se, comp_deflate_buffer_size = None,
                                 comp_inflate_stream = se_stream se, comp_inflate_buffer_size = None\<rparr>
                                OUT_BIGBUFFER_SIZE n) (\<lambda>conn.
                      serve_batches k e (se_compress_recv se) (se_inflate se) (se_deflate se) max_batch_n
                        (conn, inputs_buf, c\<lparr>cl_generator := generator, cl_out := []\<rparr>))))))))"

section \<open>The server's side\<close>

datatype server_error = ReceivedZeroException | OSError | Msg_too_large | UnicodeDecodeError | Unpack_error | AssertionError | Exit_1

type_synonym 'a receive = "sock \<Rightarrow> server_error + 'a \<times> sock"

type_synonym pystr = "nat list"

definition receive_bind :: "(sock \<Rightarrow> 'e + 'a \<times> sock) \<Rightarrow> ('a \<Rightarrow> sock \<Rightarrow> 'e + 'b \<times> sock) \<Rightarrow> sock \<Rightarrow> 'e + 'b \<times> sock" where
  "receive_bind f g s = res_bind (f s) (\<lambda>(x, s'). g x s')"

definition receive_pure :: "'a \<Rightarrow> sock \<Rightarrow> 'e + 'a \<times> sock" where
  "receive_pure x s = Inr (x, s)"

definition receive_assert :: "bool \<Rightarrow> unit receive" where
  "receive_assert c s = (if c then Inr ((), s) else Inl AssertionError)"

function recv_all_py :: "u8 list \<Rightarrow> nat \<Rightarrow> u8 list receive" where
  "recv_all_py buf n s =
     (if length buf < n
      then (case sock_recv (n - length buf) s of
              (None, s') \<Rightarrow> Inl OSError
            | (Some xs, s') \<Rightarrow> if xs = [] then Inl ReceivedZeroException else recv_all_py (buf @ xs) n s')
      else Inr (buf, s))"
  by pat_completeness auto
termination
  by (relation "measure (\<lambda>(buf, n, s). n - length buf)") (auto intro!: diff_less_mono2)

declare recv_all_py.simps [simp del]

definition recv_hdr :: "nat receive" where
  "recv_hdr = receive_bind (recv_all_py [] 4) (\<lambda>hdr. receive_pure (le_load hdr))"

definition recv_msg_py :: "nat option \<Rightarrow> u8 list receive" where
  "recv_msg_py max_size =
     receive_bind recv_hdr (\<lambda>n.
       case max_size of
         None \<Rightarrow> recv_all_py [] n
       | Some m \<Rightarrow> if m \<noteq> 0 \<and> n > m then receive_bind (recv_all_py [] n) (\<lambda>_ s. Inl Msg_too_large)
                   else recv_all_py [] n)"

text \<open>
  \<^verbatim>\<open>bytes.decode("utf-8")\<close>: \<open>None\<close> is the exception. Overlong forms, surrogates and numbers above 0x10ffff are
  not accepted.
\<close>

definition utf8_tail :: "u8 \<Rightarrow> bool" where
  "utf8_tail w \<longleftrightarrow> 0x80 \<le> w \<and> w \<le> 0xbf"

definition utf8_second :: "u8 \<Rightarrow> u8 \<Rightarrow> bool" where
  "utf8_second w w1 \<longleftrightarrow> utf8_tail w1 \<and> (w = 0xe0 \<longrightarrow> 0xa0 \<le> w1) \<and> (w = 0xed \<longrightarrow> w1 \<le> 0x9f) \<and>
     (w = 0xf0 \<longrightarrow> 0x90 \<le> w1) \<and> (w = 0xf4 \<longrightarrow> w1 \<le> 0x8f)"

fun decode_utf8 :: "u8 list \<Rightarrow> pystr option" where
  "decode_utf8 [] = Some []"
| "decode_utf8 (w # ws) =
     (if w < 0x80 then map_option (Cons (unat w)) (decode_utf8 ws)
      else if 0xc2 \<le> w \<and> w \<le> 0xdf then
        (case ws of
           w1 # ws' \<Rightarrow> if utf8_tail w1
             then map_option (Cons ((unat w - 0xc0) * 64 + (unat w1 - 0x80))) (decode_utf8 ws') else None
         | _ \<Rightarrow> None)
      else if 0xe0 \<le> w \<and> w \<le> 0xef then
        (case ws of
           w1 # w2 # ws' \<Rightarrow> if utf8_second w w1 \<and> utf8_tail w2
             then map_option (Cons ((unat w - 0xe0) * 4096 + (unat w1 - 0x80) * 64 + (unat w2 - 0x80))) (decode_utf8 ws')
             else None
         | _ \<Rightarrow> None)
      else if 0xf0 \<le> w \<and> w \<le> 0xf4 then
        (case ws of
           w1 # w2 # w3 # ws' \<Rightarrow> if utf8_second w w1 \<and> utf8_tail w2 \<and> utf8_tail w3
             then map_option (Cons ((unat w - 0xf0) * 262144 + (unat w1 - 0x80) * 4096 + (unat w2 - 0x80) * 64 + (unat w3 - 0x80)))
                    (decode_utf8 ws')
             else None
         | _ \<Rightarrow> None)
      else None)"

definition recv_str :: "pystr receive" where
  "recv_str = receive_bind (recv_msg_py None) (\<lambda>bs s.
     case decode_utf8 bs of None \<Rightarrow> Inl UnicodeDecodeError | Some t \<Rightarrow> Inr (t, s))"

text \<open>\<^verbatim>\<open>struct.unpack("I", self.recv_msg(4))[0]\<close>, and with \<^verbatim>\<open>or None\<close>.\<close>

definition recv_uint :: "nat receive" where
  "recv_uint = receive_bind (recv_msg_py (Some 4)) (\<lambda>bs s. if length bs = 4 then Inr (le_load bs, s) else Inl Unpack_error)"

definition or_None :: "nat \<Rightarrow> nat option" where
  "or_None n = (if n = 0 then None else Some n)"

fun recv_tags :: "nat \<Rightarrow> (pystr \<rightharpoonup> pystr) \<Rightarrow> (pystr \<rightharpoonup> pystr) receive" where
  "recv_tags 0 tags = receive_pure tags"
| "recv_tags (Suc n) tags =
     receive_bind recv_str (\<lambda>tag_name. receive_bind recv_str (\<lambda>tag_value. recv_tags n (tags(tag_name \<mapsto> tag_value))))"

record server_client =
  sc_hostname :: pystr
  sc_num_cpus :: nat
  sc_n_core :: nat
  sc_lscpu :: pystr
  sc_cpuinfo :: pystr
  sc_possible :: pystr
  sc_vec_size :: "nat option"
  sc_sve_max_size :: "nat option"
  sc_sme_max_size :: "nat option"
  sc_tags :: "pystr \<rightharpoonup> pystr"

text \<open>The table \<^verbatim>\<open>serial_to_hostname\<close> is a parameter; the second one is \<^verbatim>\<open>single_client\<close>.\<close>

definition recv_client_info :: "build \<Rightarrow> (pystr \<rightharpoonup> pystr) \<Rightarrow> bool \<Rightarrow> server_client receive" where
  "recv_client_info b serial_to_hostname single_client =
     receive_bind recv_str (\<lambda>host.
     receive_bind recv_uint (\<lambda>num_cpus.
     receive_bind (receive_assert (\<not> single_client \<or> num_cpus = 1)) (\<lambda>_.
     receive_bind recv_uint (\<lambda>n_core.
     receive_bind recv_str (\<lambda>lscpu.
     receive_bind recv_str (\<lambda>proc_cpuinfo.
     receive_bind recv_str (\<lambda>sys_possible.
     receive_bind recv_uint (\<lambda>vec_size.
     receive_bind (case arch b of
         AARCH64 \<Rightarrow> receive_bind recv_uint (\<lambda>sve. receive_bind recv_uint (\<lambda>sme. receive_pure (or_None sve, or_None sme)))
       | RISCV64 \<Rightarrow> receive_pure (None, None)) (\<lambda>(sve, sme).
     receive_bind recv_uint (\<lambda>tag_count.
     receive_bind (recv_tags tag_count Map.empty) (\<lambda>tags.
       receive_pure
         \<lparr>sc_hostname = (case serial_to_hostname host of Some h \<Rightarrow> h | None \<Rightarrow> host), sc_num_cpus = num_cpus,
          sc_n_core = n_core, sc_lscpu = lscpu, sc_cpuinfo = proc_cpuinfo, sc_possible = sys_possible,
          sc_vec_size = or_None vec_size, sc_sve_max_size = sve, sc_sme_max_size = sme, sc_tags = tags\<rparr>)))))))))))"

text \<open>The hash all clients have to share, empty before the first one.\<close>

definition check_hash :: "pystr \<Rightarrow> pystr receive" where
  "check_hash server_hash =
     receive_bind recv_str (\<lambda>elf_hash s.
       if server_hash = [] then Inr (elf_hash, s)
       else if server_hash \<noteq> elf_hash then Inl Exit_1
       else Inr (server_hash, s))"

text \<open>\<^verbatim>\<open>sendall\<close> writes everything.\<close>

definition send_msg_py :: "u8 list \<Rightarrow> unit receive" where
  "send_msg_py buf s = Inr ((), s\<lparr>outgoing := outgoing s @ le_store 4 (length buf) @ buf\<rparr>)"

text \<open>The part of \<^verbatim>\<open>RealClient.__init__\<close> that talks to the client.\<close>

definition accept_client ::
  "build \<Rightarrow> (pystr \<rightharpoonup> pystr) \<Rightarrow> bool \<Rightarrow> pystr \<Rightarrow> u32 \<Rightarrow> u64 \<Rightarrow> (server_client \<times> pystr) receive" where
  "accept_client b serial_to_hostname single_client server_hash bigger_max_batch_n seed =
     receive_bind (recv_client_info b serial_to_hostname single_client) (\<lambda>c.
     receive_bind (check_hash server_hash) (\<lambda>hash.
     receive_bind (send_msg_py (le_store 4 (unat bigger_max_batch_n))) (\<lambda>_.
     receive_bind (send_msg_py (le_store 8 (unat seed))) (\<lambda>_. receive_pure (c, hash)))))"

section \<open>Messages and who reads them\<close>

text \<open>A receiver takes exactly these bytes from the stream, however they are cut, and returns the value.\<close>

definition expects :: "(sock \<Rightarrow> 'e + 'a \<times> sock) \<Rightarrow> u8 list \<Rightarrow> 'a \<Rightarrow> bool" where
  "expects f bytes x \<longleftrightarrow>
     (\<forall>s more. stream (incoming s) = bytes @ more \<longrightarrow> (\<exists>segs. f s = Inr (x, s\<lparr>incoming := segs\<rparr>) \<and> stream segs = more))"

lemma same_sock: "\<exists>segs. (s :: sock) = s\<lparr>incoming := segs\<rparr> \<and> stream segs = stream (incoming s)"
  by (rule exI [of _ "incoming s"]) simp

lemma expects_Inr: "expects (\<lambda>s. Inr (x, s)) [] x"
  using same_sock by (auto simp: expects_def)

lemma expects_pure: "expects (receive_pure x) [] x"
  using expects_Inr [of x] by (simp add: receive_pure_def [abs_def])

lemma expects_assert: "c \<Longrightarrow> expects (receive_assert c) [] ()"
  using expects_Inr [of "()"] by (simp add: receive_assert_def [abs_def])

lemma expects_bind:
  assumes "expects f bs x" and "expects (g x) cs y"
  shows "expects (receive_bind f g) (bs @ cs) y"
  unfolding expects_def
proof (intro allI impI)
  fix s :: sock and more
  assume "stream (incoming s) = (bs @ cs) @ more"
  then obtain segs where f: "f s = Inr (x, s\<lparr>incoming := segs\<rparr>)" "stream segs = cs @ more"
    using assms(1) by (auto simp: expects_def)
  then obtain segs' where "g x (s\<lparr>incoming := segs\<rparr>) = Inr (y, s\<lparr>incoming := segs'\<rparr>)" "stream segs' = more"
    using assms(2) [unfolded expects_def, rule_format, of "s\<lparr>incoming := segs\<rparr>" more] by auto
  with f show "\<exists>segs. receive_bind f g s = Inr (y, s\<lparr>incoming := segs\<rparr>) \<and> stream segs = more"
    by (auto simp: receive_bind_def)
qed

lemma expects_bind_silent: "expects f [] x \<Longrightarrow> expects (g x) cs y \<Longrightarrow> expects (receive_bind f g) cs y"
  using expects_bind [of f "[]" x g cs y] by simp

lemma expects_last: "expects f bs x \<Longrightarrow> expects (g x) [] y \<Longrightarrow> expects (receive_bind f g) bs y"
  using expects_bind [of f bs x g "[]" y] by simp

text \<open>The Python loop agrees with the one in C where that succeeds.\<close>

lemma recv_all_py_eq: "recv_all s buf n = Inr r \<Longrightarrow> recv_all_py buf n s = Inr r"
proof (induction s buf n rule: recv_all.induct)
  case (1 s buf n)
  show ?case
  proof (cases "length buf < n")
    case True
    with "1.prems" obtain xs s' where xs: "sock_recv (n - length buf) s = (Some xs, s')" "xs \<noteq> []"
      "recv_all s' (buf @ xs) n = Inr r"
      by (subst (asm) recv_all.simps) (auto split: prod.splits option.splits if_splits)
    from "1.IH" [OF True xs(1) [symmetric] refl xs(2,3)] xs(1,2) True show ?thesis by (subst recv_all_py.simps) simp
  next
    case False
    with "1.prems" show ?thesis by (subst (asm) recv_all.simps, subst recv_all_py.simps) simp
  qed
qed

lemma expects_all: "expects (recv_all_py [] (length xs)) xs xs"
  unfolding expects_def using recv_all_exact recv_all_py_eq by blast

lemma expects_msg:
  assumes "length msg < 2 ^ 32" and "\<And>m. max_size = Some m \<Longrightarrow> length msg \<le> m"
  shows "expects (recv_msg_py max_size) (frame msg) msg"
proof -
  have "expects (recv_all_py [] 4) (le_store 4 (length msg)) (le_store 4 (length msg))"
    using expects_all [of "le_store 4 (length msg)"] by simp
  then have "expects recv_hdr (le_store 4 (length msg)) (le_load (le_store 4 (length msg)))"
    unfolding recv_hdr_def by (rule expects_last) (rule expects_pure)
  then have "expects recv_hdr (le_store 4 (length msg)) (length msg)" using assms(1) by (simp add: le_load_store)
  then show ?thesis unfolding recv_msg_py_def frame_def
    by (rule expects_bind) (use assms(2) in \<open>fastforce simp: expects_all split: option.split\<close>)
qed

section \<open>The bytes of the handshake\<close>

definition ascii_text :: "string \<Rightarrow> bool" where
  "ascii_text t \<longleftrightarrow> (\<forall>c \<in> set t. 0 < (of_char c :: nat) \<and> (of_char c :: nat) < 0x80) \<and> length t < 2 ^ 32"

abbreviation py :: "string \<Rightarrow> pystr" where "py t \<equiv> map of_char t"

lemma decode_ascii: "ascii_text t \<Longrightarrow> decode_utf8 (map of_char t) = Some (py t)"
proof (induction t)
  case (Cons c t)
  then have c: "(of_char c :: nat) < 0x80" and t: "decode_utf8 (map of_char t) = Some (py t)" by (auto simp: ascii_text_def)
  have "unat (of_char c :: u8) = of_char c"
    using c by (simp add: of_char_def unat_of_nat)
  with c t show ?case by (simp add: word_less_nat_alt)
qed simp

definition text_frame :: "string \<Rightarrow> u8 list" where
  "text_frame t = frame (map of_char t)"

definition int_frame :: "i32 \<Rightarrow> u8 list" where
  "int_frame w = frame (le_store 4 (unat w))"

definition tags_bytes :: "(string \<times> string) list \<Rightarrow> u8 list" where
  "tags_bytes tags = concat (map (\<lambda>(k, v). text_frame k @ text_frame v) tags)"

definition info_bytes :: "build \<Rightarrow> client_info \<Rightarrow> u8 list" where
  "info_bytes b ci =
     text_frame (ci_hostname ci) @ int_frame (ci_num_cpus ci) @ int_frame (ci_core ci) @ text_frame (ci_lscpu ci) @
     text_frame (ci_cpuinfo ci) @ text_frame (ci_possible ci) @ int_frame (ci_vec_size ci) @
     (case arch b of RISCV64 \<Rightarrow> [] | AARCH64 \<Rightarrow> int_frame (ci_sve_max_size ci) @ int_frame (ci_sme_max_size ci)) @
     int_frame (of_nat (length (ci_tags ci))) @ tags_bytes (rev (ci_tags ci))"

definition info_ok :: "client_info \<Rightarrow> bool" where
  "info_ok ci \<longleftrightarrow>
     list_all ascii_text [ci_hostname ci, ci_lscpu ci, ci_cpuinfo ci, ci_possible ci, ci_elf_hash ci] \<and>
     list_all (\<lambda>(k, v). ascii_text k \<and> ascii_text v) (ci_tags ci) \<and> length (ci_tags ci) \<le> 10"

text \<open>What the server knows of the client afterwards. Of two tags with one name it keeps the first.\<close>

definition client_view :: "build \<Rightarrow> (pystr \<rightharpoonup> pystr) \<Rightarrow> client_info \<Rightarrow> server_client" where
  "client_view b serial_to_hostname ci =
     \<lparr>sc_hostname = (case serial_to_hostname (py (ci_hostname ci)) of Some h \<Rightarrow> h | None \<Rightarrow> py (ci_hostname ci)),
      sc_num_cpus = unat (ci_num_cpus ci), sc_n_core = unat (ci_core ci), sc_lscpu = py (ci_lscpu ci),
      sc_cpuinfo = py (ci_cpuinfo ci), sc_possible = py (ci_possible ci), sc_vec_size = or_None (unat (ci_vec_size ci)),
      sc_sve_max_size = (case arch b of RISCV64 \<Rightarrow> None | AARCH64 \<Rightarrow> or_None (unat (ci_sve_max_size ci))),
      sc_sme_max_size = (case arch b of RISCV64 \<Rightarrow> None | AARCH64 \<Rightarrow> or_None (unat (ci_sme_max_size ci))),
      sc_tags = map_of (map (\<lambda>(k, v). (py k, py v)) (ci_tags ci))\<rparr>"

text \<open>
  One kind of message: how the client sends a value, the bytes it becomes, and how the server reads them.
\<close>

locale message =
  fixes send :: "sock \<Rightarrow> 'a \<Rightarrow> sock res" and receive :: "'b receive"
    and ok :: "'a \<Rightarrow> bool" and bytes :: "'a \<Rightarrow> u8 list" and view :: "'a \<Rightarrow> 'b"
  assumes send_bytes: "ok x \<Longrightarrow> accepts s = [] \<Longrightarrow> send s x = Inr (s\<lparr>outgoing := outgoing s @ bytes x\<rparr>)"
    and receive_view: "ok x \<Longrightarrow> expects receive (bytes x) (view x)"
begin

lemma receive_then: "ok x \<Longrightarrow> expects (g (view x)) cs y \<Longrightarrow> expects (receive_bind receive g) (bytes x @ cs) y"
  by (rule expects_bind [OF receive_view])

lemma receive_last: "ok x \<Longrightarrow> expects (g (view x)) [] y \<Longrightarrow> expects (receive_bind receive g) (bytes x) y"
  by (rule expects_last [OF receive_view])

lemma delivered:
  assumes "ok x" and "accepts s = []" and "outgoing s = []"
  shows "\<exists>s'. send s x = Inr s' \<and>
     (\<forall>r. stream (incoming r) = outgoing s' \<longrightarrow> (\<exists>segs. receive r = Inr (view x, r\<lparr>incoming := segs\<rparr>) \<and> stream segs = []))"
  using send_bytes [OF assms(1,2)] receive_view [OF assms(1)] assms(3) by (auto simp: expects_def)

end

lemma send_string_frame:
  assumes "ascii_text t" and "accepts s = []"
  shows "send_string s t = Inr (s\<lparr>outgoing := outgoing s @ text_frame t\<rparr>)"
proof -
  have "takeWhile (\<lambda>c. c \<noteq> CHR 0x00) t = t"
    using assms(1) by (fastforce simp: ascii_text_def takeWhile_eq_all_conv)
  with assms(2) show ?thesis by (simp only: send_string_def send_msg_frame text_frame_def)
qed

lemma send_int_frame: "accepts s = [] \<Longrightarrow> send_int s w = Inr (s\<lparr>outgoing := outgoing s @ int_frame w\<rparr>)"
  by (simp add: send_int_def send_msg_frame int_frame_def)

lemma expects_str: "ascii_text t \<Longrightarrow> expects recv_str (text_frame t) (py t)"
  unfolding recv_str_def text_frame_def
  by (rule expects_last [OF expects_msg]) (simp_all add: decode_ascii expects_Inr, simp add: ascii_text_def)

lemma expects_uint: "expects recv_uint (int_frame w) (unat w)"
proof -
  have "le_load (le_store 4 (unat w)) = unat w" using unat_bounds(3) [of w] by (simp add: le_load_store)
  moreover have "expects (recv_msg_py (Some 4)) (int_frame w) (le_store 4 (unat w))"
    unfolding int_frame_def by (rule expects_msg) simp_all
  ultimately show ?thesis unfolding recv_uint_def
    by (intro expects_last [of _ _ "le_store 4 (unat w)"]) (simp_all add: expects_Inr)
qed

interpretation text_msg: message send_string recv_str ascii_text text_frame "\<lambda>t. py t"
  by unfold_locales (simp_all add: send_string_frame expects_str)

interpretation int_msg: message send_int recv_uint "\<lambda>_. True" int_frame unat
  by unfold_locales (simp_all add: send_int_frame expects_uint)

lemma send_tags_frames:
  "list_all (\<lambda>(k, v). ascii_text k \<and> ascii_text v) tags \<Longrightarrow> accepts s = [] \<Longrightarrow>
     send_tags tags s = Inr (s\<lparr>outgoing := outgoing s @ tags_bytes tags\<rparr>)"
  by (induction tags s rule: send_tags.induct) (simp_all add: text_msg.send_bytes tags_bytes_def)

lemma send_client_info_bytes:
  assumes "info_ok ci" and "accepts s = []"
  shows "send_client_info b ci s = Inr (s\<lparr>outgoing := outgoing s @ info_bytes b ci @ text_frame (ci_elf_hash ci)\<rparr>)"
  using assms
  by (cases "arch b")
    (simp_all add: send_client_info_def info_ok_def text_msg.send_bytes int_msg.send_bytes send_tags_frames info_bytes_def list_all_rev)

lemma expects_tags:
  "list_all (\<lambda>(k, v). ascii_text k \<and> ascii_text v) tags \<Longrightarrow>
     expects (recv_tags (length tags) m) (tags_bytes tags) (m ++ map_of (rev (map (\<lambda>(k, v). (py k, py v)) tags)))"
proof (induction tags arbitrary: m)
  case Nil
  then show ?case by (simp add: tags_bytes_def expects_pure)
next
  case (Cons kv tags)
  obtain k v where kv: "kv = (k, v)" by (cases kv)
  have "expects (recv_tags (length tags) (m(py k \<mapsto> py v))) (tags_bytes tags)
      (m(py k \<mapsto> py v) ++ map_of (rev (map (\<lambda>(k, v). (py k, py v)) tags)))"
    using Cons by simp
  then have "expects (receive_bind recv_str (\<lambda>n. receive_bind recv_str (\<lambda>x. recv_tags (length tags) (m(n \<mapsto> x)))))
      (text_frame k @ text_frame v @ tags_bytes tags) (m(py k \<mapsto> py v) ++ map_of (rev (map (\<lambda>(k, v). (py k, py v)) tags)))"
    using Cons.prems kv by (intro text_msg.receive_then) auto
  moreover have "m(py k \<mapsto> py v) = m ++ [py k \<mapsto> py v]" by simp
  ultimately show ?case by (simp add: kv tags_bytes_def map_of_append map_add_assoc del: map_add_upd)
qed

lemma expects_client_info:
  assumes "info_ok ci" and "single_client \<longrightarrow> ci_num_cpus ci = 1"
  shows "expects (recv_client_info b serial_to_hostname single_client) (info_bytes b ci) (client_view b serial_to_hostname ci)"
proof -
  let ?n = "of_nat (length (ci_tags ci)) :: i32"
  have n: "unat ?n = length (rev (ci_tags ci))" using assms(1) by (simp add: info_ok_def unat_of_nat)
  have tags: "expects (recv_tags (unat ?n) Map.empty) (tags_bytes (rev (ci_tags ci)))
      (map_of (map (\<lambda>(k, v). (py k, py v)) (ci_tags ci)))"
    unfolding n using expects_tags [of "rev (ci_tags ci)" Map.empty] assms(1) by (simp add: info_ok_def list_all_rev rev_map)
  have ascii: "ascii_text (ci_hostname ci)" "ascii_text (ci_lscpu ci)" "ascii_text (ci_cpuinfo ci)" "ascii_text (ci_possible ci)"
    using assms(1) by (simp_all add: info_ok_def)
  have c: "\<not> single_client \<or> unat (ci_num_cpus ci) = 1" using assms(2) by auto
  have vec: "expects (case arch b of
         AARCH64 \<Rightarrow> receive_bind recv_uint (\<lambda>sve. receive_bind recv_uint (\<lambda>sme. receive_pure (or_None sve, or_None sme)))
       | RISCV64 \<Rightarrow> receive_pure (None, None))
     (case arch b of RISCV64 \<Rightarrow> [] | AARCH64 \<Rightarrow> int_frame (ci_sve_max_size ci) @ int_frame (ci_sme_max_size ci))
     (case arch b of RISCV64 \<Rightarrow> (None, None) | AARCH64 \<Rightarrow> (or_None (unat (ci_sve_max_size ci)), or_None (unat (ci_sme_max_size ci))))"
    by (cases "arch b") (simp_all add: expects_pure, intro int_msg.receive_then int_msg.receive_last expects_pure TrueI)
  show ?thesis
    unfolding recv_client_info_def info_bytes_def client_view_def
    by (intro text_msg.receive_then int_msg.receive_then expects_bind_silent [OF expects_assert [OF c]] expects_bind [OF vec] ascii TrueI)
      (cases "arch b"; simp; intro int_msg.receive_then expects_last [OF tags] expects_pure TrueI)
qed

lemma expects_hash:
  assumes "ascii_text h" and "server_hash = [] \<or> server_hash = py h"
  shows "expects (check_hash server_hash) (text_frame h) (py h)"
  unfolding check_hash_def using assms(2)
  by (intro text_msg.receive_last assms(1)) (cases "server_hash = []"; simp add: expects_Inr)

definition parameter_bytes :: "u32 \<Rightarrow> u64 \<Rightarrow> u8 list" where
  "parameter_bytes max_batch_n seed = frame (le_store 4 (unat max_batch_n)) @ frame (le_store 8 (unat seed))"

lemma expects_msg_n:
  assumes "length msg < 2 ^ 32" shows "expects (\<lambda>s. recv_msg_n s (length msg)) (frame msg) msg"
  using recv_msg_frame [OF _ order.refl assms] by (fastforce simp: expects_def recv_msg_n_def)

lemma expects_parameters:
  "expects recv_parameters (parameter_bytes max_batch_n seed) (unat max_batch_n, unat seed)"
proof -
  have load: "le_load (le_store 4 (unat max_batch_n)) = unat max_batch_n" "le_load (le_store 8 (unat seed)) = unat seed"
    using unat_bounds(3) [of max_batch_n] unat_bounds(4) [of seed] by (simp_all add: le_load_store)
  have msgs: "expects (\<lambda>s. recv_msg_n s 4) (frame (le_store 4 (unat max_batch_n))) (le_store 4 (unat max_batch_n))"
    "expects (\<lambda>s. recv_msg_n s 8) (frame (le_store 8 (unat seed))) (le_store 8 (unat seed))"
    using expects_msg_n [of "le_store 4 (unat max_batch_n)"] expects_msg_n [of "le_store 8 (unat seed)"] by simp_all
  have "expects (receive_bind (\<lambda>s. recv_msg_n s 4) (\<lambda>m. receive_bind (\<lambda>s. recv_msg_n s 8) (\<lambda>x s. Inr ((le_load m, le_load x), s))))
      (parameter_bytes max_batch_n seed) (unat max_batch_n, unat seed)"
    unfolding parameter_bytes_def
    by (intro expects_bind [OF msgs(1)] expects_last [OF msgs(2)]) (simp add: load expects_Inr)
  then show ?thesis by (simp add: receive_bind_def [abs_def] recv_parameters_def [abs_def])
qed

lemma accept_client_ok:
  assumes "info_ok ci" and "single_client \<longrightarrow> ci_num_cpus ci = 1"
    and "server_hash = [] \<or> server_hash = py (ci_elf_hash ci)"
    and "stream (incoming ss) = info_bytes b ci @ text_frame (ci_elf_hash ci)"
  shows "\<exists>segs. accept_client b serial_to_hostname single_client server_hash max_batch_n seed ss =
      Inr ((client_view b serial_to_hostname ci, py (ci_elf_hash ci)),
           ss\<lparr>incoming := segs, outgoing := outgoing ss @ parameter_bytes max_batch_n seed\<rparr>) \<and> stream segs = []"
proof -
  have hash: "ascii_text (ci_elf_hash ci)" using assms(1) by (simp add: info_ok_def)
  obtain segs where 1: "recv_client_info b serial_to_hostname single_client ss =
      Inr (client_view b serial_to_hostname ci, ss\<lparr>incoming := segs\<rparr>)" "stream segs = text_frame (ci_elf_hash ci)"
    using expects_client_info [OF assms(1,2), of b serial_to_hostname] assms(4) by (auto simp: expects_def)
  then obtain segs' where "check_hash server_hash (ss\<lparr>incoming := segs\<rparr>) = Inr (py (ci_elf_hash ci), ss\<lparr>incoming := segs'\<rparr>)"
      "stream segs' = []"
    using expects_hash [OF hash assms(3), unfolded expects_def, rule_format, of "ss\<lparr>incoming := segs\<rparr>" "[]"] by auto
  with 1 show ?thesis
    by (auto simp: accept_client_def receive_bind_def receive_pure_def send_msg_py_def parameter_bytes_def frame_def)
qed

section \<open>The processes are ready for the handshake\<close>

lemma read_chunks_content:
  "read_chunks realloc rest result = Inr r \<Longrightarrow>
     r = (if rest = [] then result else Some ((case result of None \<Rightarrow> [] | Some xs \<Rightarrow> xs) @ rest))"
proof (induction realloc rest result rule: read_chunks.induct)
  case (1 realloc rest result)
  show ?case
  proof (cases "rest = []")
    case False
    let ?old = "case result of None \<Rightarrow> [] | Some xs \<Rightarrow> xs"
    have take: "take 8 rest \<noteq> []" using False by simp
    have ok: "\<not> \<not> realloc (length ?old + length (take 8 rest) + 1)"
      "read_chunks realloc (drop 8 rest) (Some (?old @ take 8 rest)) = Inr r"
      using "1.prems" False by (subst (asm) read_chunks.simps, simp add: Let_def split: if_splits)+
    from "1.IH" [OF refl refl take ok] False show ?thesis by (auto split: if_splits)
  qed (use "1.prems" in \<open>subst (asm) read_chunks.simps, simp\<close>)
qed

lemma read_chunks_all: "read_chunks realloc content None = Inr (Some t) \<Longrightarrow> t = content"
  using read_chunks_content [of realloc content None "Some t"] by (simp split: if_splits)

lemma get_lscpu_content: "get_lscpu e = Inr t \<Longrightarrow> ch_lscpu e = Some t"
  using read_chunks_all [of "ch_realloc e" "the (ch_lscpu e)" t]
  by (cases "ch_lscpu e") (auto simp: get_lscpu_def res_bind_Inr_iff split: option.split_asm)

lemma read_file_content: "read_file realloc content = Inr t \<Longrightarrow> content = Some t"
  using read_chunks_all [of realloc "the content" t]
  by (cases content) (auto simp: read_file_def res_bind_Inr_iff split: option.split_asm)

text \<open>Texts about the machine that are ASCII.\<close>

definition ascii_host :: "client_host \<Rightarrow> arguments \<Rightarrow> bool" where
  "ascii_host e args \<longleftrightarrow>
     ascii_text (detect_preferred_hostname (ch_host e) (arg_hostname args)) \<and>
     list_all (\<lambda>t. case t of Some x \<Rightarrow> ascii_text x | None \<Rightarrow> True) [ch_lscpu e, ch_cpuinfo e, ch_possible e] \<and>
     list_all ascii_text [he_serialno (ch_host e), he_model (ch_host e), he_product (ch_host e), ch_elf_hash e]"

lemma info_ok_core: "info_ok (ci\<lparr>ci_core := core, ci_num_cpus := n\<rparr>) = info_ok ci"
  by (simp add: info_ok_def)

lemma spawn_info_ok: "spawn e ci = Inr ps \<Longrightarrow> info_ok ci \<Longrightarrow> list_all info_ok ps"
  by (auto simp: spawn_def info_ok_core res_bind_Inr_iff Let_def list_all_iff split: if_splits)

lemma client_main_info_ok:
  assumes "client_main e argv = Inr (args, ps)" and "ascii_host e args"
  shows "list_all info_ok ps"
proof -
  have "ascii_text ''android_serialno''" "ascii_text ''android_model''" "ascii_text ''android_product''"
    by (simp_all add: ascii_text_def)
  with assms show ?thesis
    by (auto simp: client_main_def res_bind_Inr_iff ascii_host_def global_tag_list_def
        dest!: get_lscpu_content read_file_content elim!: spawn_info_ok simp: info_ok_def)
qed

section \<open>Properties\<close>

text \<open>
  C8. Client and server agree on the handshake. When the texts are ASCII, the writes of the client are
  accepted whole and the server runs the same build for the first time or with the same hash, then the
  server reads, however the bytes are cut into segments, exactly what the client sent: the host name (or
  the name its table has for it), the number of cores and the core, the three texts about the processors,
  the vector sizes (0 as none, the two of SVE and SME on aarch64 only) and the tags. No byte is left over, and
  from the answer the client reads the batch size and the seed the server has.
\<close>

theorem handshake_agrees:
  assumes "info_ok ci" and "accepts cs = []" and "outgoing cs = []" and "outgoing ss = []"
    and "single_client \<longrightarrow> ci_num_cpus ci = 1"
    and "server_hash = [] \<or> server_hash = py (ci_elf_hash ci)"
  shows "\<exists>cs'. send_client_info b ci cs = Inr cs' \<and>
     (\<forall>segs. stream segs = outgoing cs' \<longrightarrow>
       (\<exists>ss'. accept_client b serial_to_hostname single_client server_hash max_batch_n seed (ss\<lparr>incoming := segs\<rparr>) =
            Inr ((client_view b serial_to_hostname ci, py (ci_elf_hash ci)), ss') \<and>
          stream (incoming ss') = [] \<and>
          (\<forall>answer. stream answer = outgoing ss' \<longrightarrow>
            (\<exists>cs''. recv_parameters (cs'\<lparr>incoming := answer\<rparr>) = Inr ((unat max_batch_n, unat seed), cs'') \<and>
               stream (incoming cs'') = []))))"
proof -
  let ?cs = "cs\<lparr>outgoing := info_bytes b ci @ text_frame (ci_elf_hash ci)\<rparr>"
  let ?ss = "\<lambda>segs. ss\<lparr>incoming := segs, outgoing := parameter_bytes max_batch_n seed\<rparr>"
  have sent: "send_client_info b ci cs = Inr ?cs" using send_client_info_bytes [OF assms(1,2)] assms(3) by simp
  have read: "\<exists>segs'. accept_client b serial_to_hostname single_client server_hash max_batch_n seed (ss\<lparr>incoming := segs\<rparr>) =
      Inr ((client_view b serial_to_hostname ci, py (ci_elf_hash ci)), ?ss segs') \<and> stream segs' = []"
    if "stream segs = outgoing ?cs" for segs
    using that accept_client_ok [OF assms(1,5,6), of "ss\<lparr>incoming := segs\<rparr>" b serial_to_hostname max_batch_n seed] assms(4)
    by auto
  have answered: "\<exists>cs''. recv_parameters (?cs\<lparr>incoming := answer\<rparr>) = Inr ((unat max_batch_n, unat seed), cs'') \<and>
      stream (incoming cs'') = []"
    if "stream answer = parameter_bytes max_batch_n seed" for answer
    using expects_parameters [of max_batch_n seed, unfolded expects_def, rule_format, of "?cs\<lparr>incoming := answer\<rparr>" "[]"] that
    by auto
  show ?thesis
  proof (rule exI [of _ ?cs], rule conjI [OF sent], intro allI impI)
    fix segs
    assume "stream segs = outgoing ?cs"
    with read obtain segs' where ss: "accept_client b serial_to_hostname single_client server_hash max_batch_n seed
        (ss\<lparr>incoming := segs\<rparr>) = Inr ((client_view b serial_to_hostname ci, py (ci_elf_hash ci)), ?ss segs')" "stream segs' = []"
      by blast
    show "\<exists>ss'. accept_client b serial_to_hostname single_client server_hash max_batch_n seed (ss\<lparr>incoming := segs\<rparr>) =
          Inr ((client_view b serial_to_hostname ci, py (ci_elf_hash ci)), ss') \<and>
        stream (incoming ss') = [] \<and>
        (\<forall>answer. stream answer = outgoing ss' \<longrightarrow>
          (\<exists>cs''. recv_parameters (?cs\<lparr>incoming := answer\<rparr>) = Inr ((unat max_batch_n, unat seed), cs'') \<and>
             stream (incoming cs'') = []))"
      by (rule exI [of _ "?ss segs'"]) (use ss answered in simp)
  qed
qed

definition sample_info :: client_info where
  "sample_info =
     \<lparr>ci_hostname = ''lab'', ci_num_cpus = 4, ci_core = 2, ci_lscpu = ''lscpu'', ci_cpuinfo = ''processor'', ci_possible = ''0-3'',
      ci_vec_size = 16, ci_sve_max_size = 32, ci_sme_max_size = 0,
      ci_tags = [(''android_model'', ''m''), (''android_model'', ''n'')], ci_elf_hash = ''00ff''\<rparr>"

definition sample_sock :: sock where
  "sample_sock = \<lparr>incoming = [], accepts = [], outgoing = []\<rparr>"

theorem handshake_agrees_witness:
  "\<exists>cs'. send_client_info riscv_vector_build sample_info sample_sock = Inr cs' \<and>
     (\<forall>segs. stream segs = outgoing cs' \<longrightarrow>
       (\<exists>ss'. accept_client riscv_vector_build Map.empty False [] 200 7 (sample_sock\<lparr>incoming := segs\<rparr>) =
            Inr ((client_view riscv_vector_build Map.empty sample_info, py ''00ff''), ss') \<and>
          stream (incoming ss') = [] \<and>
          (\<forall>answer. stream answer = outgoing ss' \<longrightarrow>
            (\<exists>cs''. recv_parameters (cs'\<lparr>incoming := answer\<rparr>) = Inr ((200, 7), cs'') \<and> stream (incoming cs'') = []))))"
proof -
  have "info_ok sample_info" by (simp add: info_ok_def sample_info_def ascii_text_def)
  from handshake_agrees [OF this, of sample_sock sample_sock False "[]" riscv_vector_build Map.empty 200 7] show ?thesis
    by (simp add: sample_sock_def) (simp add: sample_info_def)
qed

end
