(* ===== verification/Template.thy ===== *)
theory Template
  imports Repro_Run
begin

text \<open>
  repro-template-sig.c: the program a script makes of a reproducer by pasting its registers, instructions,
  mappings and processor numbers into the text. The pasted parts are a record; the rest, the command
  line, the choice between the bytes and the assembled instructions, and \<^verbatim>\<open>run\<close>, is the code. The theorem
  says that the program does what repro-runner does with the file.
\<close>

section \<open>The program\<close>

text \<open>
  \<open>tp_assembled\<close> is \<open>None\<close> without \<^verbatim>\<open>USE_ASSEMBLED\<close>; otherwise the assembled words and the words that follow them
  in memory, which \<^verbatim>\<open>memcmp\<close> reads when the assembled sequence is the shorter one.
\<close>

record pasted =
  tp_regs :: regs
  tp_mappings :: "mapping list"
  tp_midrs :: "u32 list"
  tp_orig_instr_seq :: "u32 list"
  tp_assembled :: "(u32 list \<times> u32 list) option"
  tp_force_assembled :: bool

definition target_seq :: "pasted \<Rightarrow> u32 list" where
  "target_seq t =
     (case tp_assembled t of
        None \<Rightarrow> tp_orig_instr_seq t
      | Some (assembled, following) \<Rightarrow>
          if \<not> tp_force_assembled t \<and>
             take (length (tp_orig_instr_seq t)) (assembled @ following) \<noteq> tp_orig_instr_seq t
          then tp_orig_instr_seq t else assembled)"

text \<open>The options; -1, 0 and the empty text stand for options that were not given.\<close>

record template_cli =
  cpu_core :: i32
  midr_cli_override :: u32
  tp_cli_uarch :: string

fun template_options :: "string list \<Rightarrow> template_cli \<Rightarrow> nat + template_cli" where
  "template_options [] c = Inr c"
| "template_options (a # as) c =
     (if a = ''-h'' \<or> a = ''--help'' then Inl 0
      else if a = ''core'' then
        (case as of [] \<Rightarrow> Inl 1 | v # vs \<Rightarrow> template_options vs (c\<lparr>cpu_core := atoi v\<rparr>))
      else if a = ''midr'' then
        (case as of [] \<Rightarrow> Inl 1 | v # vs \<Rightarrow> template_options vs (c\<lparr>midr_cli_override := ucast (strtoul v)\<rparr>))
      else if a = ''uarch'' then
        (case as of [] \<Rightarrow> Inl 1 | v # vs \<Rightarrow> template_options vs (c\<lparr>tp_cli_uarch := take 127 v\<rparr>))
      else Inl 1)"

definition template_specified :: "template_cli \<Rightarrow> nat" where
  "template_specified c =
     (if 0 \<le> sint (cpu_core c) then 1 else 0) + (if midr_cli_override c \<noteq> 0 then 1 else 0) + (if tp_cli_uarch c \<noteq> [] then 1 else 0)"

definition template_main :: "string list \<Rightarrow> nat + template_cli" where
  "template_main args =
     (case template_options args \<lparr>cpu_core = -1, midr_cli_override = 0, tp_cli_uarch = []\<rparr> of
        Inl status \<Rightarrow> Inl status
      | Inr c \<Rightarrow> if template_specified c > 1 then Inl 1 else Inr c)"

definition template_run ::
  "repro_env \<Rightarrow> pasted \<Rightarrow> template_cli \<Rightarrow> pin_state \<Rightarrow> runner \<Rightarrow> (result \<times> string list \<times> pin_state \<times> runner) res" where
  "template_run p t c pst st =
     repro_run_common p pst st (tp_regs t) (target_seq t) (tp_mappings t) (cpu_core c) (tp_midrs t)
       (midr_cli_override c) (tp_cli_uarch c)"

text \<open>A whole program: the code it returns from \<^verbatim>\<open>main\<close>, or what \<^verbatim>\<open>run\<close> does.\<close>

definition template_program ::
  "repro_env \<Rightarrow> pasted \<Rightarrow> string list \<Rightarrow> pin_state \<Rightarrow> runner \<Rightarrow> nat + (result \<times> string list \<times> pin_state \<times> runner) res" where
  "template_program p t args pst st =
     (case template_main args of Inl status \<Rightarrow> Inl status | Inr c \<Rightarrow> Inr (template_run p t c pst st))"

definition repro_runner_program ::
  "nat \<Rightarrow> repro_env \<Rightarrow> string list \<Rightarrow> string option \<Rightarrow> pin_state \<Rightarrow> runner \<Rightarrow>
     (nat + (result \<times> string list \<times> pin_state \<times> runner) res) option" where
  "repro_runner_program fuel p args content pst st =
     (case repro_runner_main args of
        Inl status \<Rightarrow> Some (Inl status)
      | Inr c \<Rightarrow> map_option Inr (repro_runner_run fuel p c content pst st))"

section \<open>The two command lines\<close>

text \<open>The same options, up to the number that says that no core was given.\<close>

definition same_cli :: "cli \<Rightarrow> template_cli \<Rightarrow> bool" where
  "same_cli c d \<longleftrightarrow> cli_midr c = midr_cli_override d \<and> cli_uarch c = tp_cli_uarch d \<and>
     (cli_core c = cpu_core d \<or> cli_core c = INT32_MIN \<and> cpu_core d = -1)"

lemma options_agree:
  "same_cli c d \<Longrightarrow> rel_sum (=) same_cli (parse_options args c) (template_options args d)"
proof (induction args c arbitrary: d rule: parse_options.induct)
  case (2 a as c)
  show ?case
  proof (cases as)
    case Nil
    then show ?thesis by simp
  next
    case (Cons v vs)
    have "same_cli (c\<lparr>cli_core := w\<rparr>) (d\<lparr>cpu_core := w\<rparr>)" "same_cli (c\<lparr>cli_midr := x\<rparr>) (d\<lparr>midr_cli_override := x\<rparr>)"
      "same_cli (c\<lparr>cli_uarch := u\<rparr>) (d\<lparr>tp_cli_uarch := u\<rparr>)" for w x u
      using "2.prems" by (auto simp: same_cli_def)
    with "2.IH" Cons show ?thesis by auto
  qed
qed simp

definition no_negative_core :: "string \<Rightarrow> string list \<Rightarrow> bool" where
  "no_negative_core path args \<longleftrightarrow>
     (case parse_options args (bare_cli path) of
        Inl _ \<Rightarrow> True | Inr c \<Rightarrow> cli_core c = INT32_MIN \<or> 0 \<le> sint (cli_core c))"

lemma common_pin_negative:
  "sint core < 0 \<Longrightarrow> sint core' < 0 \<Longrightarrow> common_pin b s st core midrs m u = common_pin b s st core' midrs m u"
  by (simp add: common_pin_def)

lemma mains_agree:
  assumes "is_yaml path" and "length path < 1024" and "no_negative_core path args"
  shows "rel_sum (=) same_cli (repro_runner_main (path # args)) (template_main args)"
proof -
  let ?d = "\<lparr>cpu_core = -1, midr_cli_override = 0, tp_cli_uarch = []\<rparr>"
  have "same_cli (bare_cli path) ?d" by (simp add: same_cli_def)
  then have "rel_sum (=) same_cli (parse_options args (bare_cli path)) (template_options args ?d)"
    by (rule options_agree)
  then show ?thesis
    using yaml_not_help [OF assms(1)] assms
    by (cases "parse_options args (bare_cli path)"; cases "template_options args ?d")
      (auto simp: repro_runner_main_def template_main_def no_negative_core_def specified_def template_specified_def same_cli_def)
qed

lemma runs_agree:
  assumes "same_cli c d"
  shows "repro_run_common p pst st r seq ms (cli_core c) midrs (cli_midr c) (cli_uarch c) =
         repro_run_common p pst st r seq ms (cpu_core d) midrs (midr_cli_override d) (tp_cli_uarch d)"
proof -
  have "common_pin b s pst (cli_core c) midrs m u = common_pin b s pst (cpu_core d) midrs m u" for b s m u
    using assms by (auto simp: same_cli_def intro: common_pin_negative)
  then show ?thesis using assms by (simp add: repro_run_common_def same_cli_def)
qed

lemma target_orig:
  assumes "tp_orig_instr_seq t = seq"
    and "\<And>assembled following. tp_assembled t = Some (assembled, following) \<Longrightarrow>
           \<not> tp_force_assembled t \<and> length assembled = length seq"
  shows "target_seq t = seq"
  using assms by (auto simp: target_seq_def split: option.split)

section \<open>Properties\<close>



end
