(* ===== verification/Log.thy ===== *)
theory Log
  imports Report
begin

text \<open>
  lib/log.c: the choice of colours, made once from the environment and kept in two variables, and the
  lines the messages print. A format with its arguments is the text it makes.
\<close>

section \<open>Colours\<close>

text \<open>\<open>env_color_seen\<close> is -1 before the environment was read, 0 when it has no value and 1 when it has.\<close>

record log_state =
  env_color_seen :: int
  env_color_value :: bool

definition fresh_log :: log_state where
  "fresh_log = \<lparr>env_color_seen = -1, env_color_value = False\<rparr>"

definition same_letters :: "string \<Rightarrow> string \<Rightarrow> bool" where
  "same_letters s t \<longleftrightarrow> map tolower s = map tolower t"

definition color_off :: "string \<Rightarrow> bool" where
  "color_off env \<longleftrightarrow> env = ''0'' \<or> same_letters env ''off'' \<or> same_letters env ''false'' \<or> same_letters env ''no''"

text \<open>The value of \<^verbatim>\<open>COLOR\<close>, the number of the stream and which numbers are terminals.\<close>

definition log_should_color :: "string option \<Rightarrow> (int \<Rightarrow> bool) \<Rightarrow> int \<Rightarrow> log_state \<Rightarrow> bool \<times> log_state" where
  "log_should_color env isatty fd st =
     (let st' = (if env_color_seen st = -1
                 then (case env of
                         Some v \<Rightarrow> if v \<noteq> [] then st\<lparr>env_color_seen := 1, env_color_value := \<not> color_off v\<rparr>
                                   else st\<lparr>env_color_seen := 0\<rparr>
                       | None \<Rightarrow> st\<lparr>env_color_seen := 0\<rparr>)
                 else st)
      in if env_color_seen st' = 1 then (env_color_value st', st')
         else if fd < 0 then (False, st')
         else (isatty fd, st'))"

section \<open>Messages\<close>

definition vprint_prefixed :: "bool \<Rightarrow> string \<Rightarrow> string \<Rightarrow> string \<Rightarrow> string" where
  "vprint_prefixed color prefix tone msg =
     (if color then tone @ prefix @ COLOR_RESET @ '' '' else prefix @ '' '') @ msg @ [newline]"

definition vprint_noprefix :: "string \<Rightarrow> string" where
  "vprint_noprefix msg = msg @ [newline]"

definition log_info :: "bool \<Rightarrow> string \<Rightarrow> string" where
  "log_info color = vprint_prefixed color ''INFO:'' COLOR_CYAN"

definition log_warning :: "bool \<Rightarrow> string \<Rightarrow> string" where
  "log_warning color = vprint_prefixed color ''WARNING:'' COLOR_YELLOW"

definition log_error :: "bool \<Rightarrow> string \<Rightarrow> string" where
  "log_error color = vprint_prefixed color ''ERROR:'' COLOR_RED"

definition log_perror :: "bool \<Rightarrow> string option \<Rightarrow> string \<Rightarrow> string" where
  "log_perror color ctx strerror =
     (if color then COLOR_RED @ ''ERROR:'' @ COLOR_RESET else ''ERROR:'') @ '' '' @
     (case ctx of Some c \<Rightarrow> c | None \<Rightarrow> ''error'') @ '': '' @ strerror @ [newline]"

section \<open>What the messages are\<close>

text \<open>The answers of a sequence of calls, each with the environment of its time.\<close>

fun color_answers :: "(string option \<times> int) list \<Rightarrow> (int \<Rightarrow> bool) \<Rightarrow> log_state \<Rightarrow> bool list" where
  "color_answers [] isatty st = []"
| "color_answers ((env, fd) # calls) isatty st =
     (let (answer, st') = log_should_color env isatty fd st in answer # color_answers calls isatty st')"

definition wants_color :: "string option \<Rightarrow> (int \<Rightarrow> bool) \<Rightarrow> int \<Rightarrow> bool" where
  "wants_color env isatty fd =
     (case env of
        Some v \<Rightarrow> if v \<noteq> [] then \<not> color_off v else 0 \<le> fd \<and> isatty fd
      | None \<Rightarrow> 0 \<le> fd \<and> isatty fd)"

text \<open>The state after the environment was read as \<open>env\<close>.\<close>

definition settled :: "string option \<Rightarrow> log_state \<Rightarrow> bool" where
  "settled env st \<longleftrightarrow>
     (case env of
        Some v \<Rightarrow> if v \<noteq> [] then env_color_seen st = 1 \<and> env_color_value st = (\<not> color_off v) else env_color_seen st = 0
      | None \<Rightarrow> env_color_seen st = 0)"

lemma should_color_first:
  "env_color_seen st = -1 \<Longrightarrow>
     fst (log_should_color env isatty fd st) = wants_color env isatty fd \<and> settled env (snd (log_should_color env isatty fd st))"
  by (auto simp: log_should_color_def settled_def wants_color_def Let_def split: option.split)

lemma should_color_settled:
  "settled env st \<Longrightarrow> log_should_color env' isatty fd st = (wants_color env isatty fd, st)"
  by (auto simp: log_should_color_def settled_def wants_color_def Let_def split: option.splits if_splits)

lemma color_answers_settled:
  "settled env st \<Longrightarrow> color_answers calls isatty st = map (\<lambda>(_, fd). wants_color env isatty fd) calls"
  by (induction calls isatty st rule: color_answers.induct) (simp_all add: should_color_settled)

text \<open>The environment is read once: every answer goes by the value it had at the first call.\<close>

lemma color_decided_once:
  "color_answers ((env, fd) # calls) isatty fresh_log = map (\<lambda>(_, fd). wants_color env isatty fd) ((env, fd) # calls)"
  using should_color_first [of fresh_log env isatty fd] color_answers_settled [of env]
  by (auto simp: fresh_log_def split: prod.split)

end
