(* ===== verification/Spec2Isabelle.thy ===== *)
theory Spec2Isabelle
  imports Generator Connection Runner Undoc_Enum Address_Space Startup Template Log
begin

text \<open>
  RISCover compares processors: a server hands out a seed, clients on different machines generate the
  same instruction sequences from it, run them, and send back what changed, so that the server can
  spot two processors that disagree. This development models the client (src/client/src, C) and the
  parts of the Python server that have to agree with it.

  Parts and theories

  \<^item> Prelude: the build flags, machine integers, errors (\<open>stop\<close>: a call of \<^verbatim>\<open>exit\<close>, or undefined
    behaviour), and little-endian memory.
  \<^item> Rng (lib/rng.c): the generator shared by server and clients. It produces the MT19937 stream, its
    bounded draw stays in its bounds.
  \<^item> Regs (lib/*/regs.h, regs.c): the register snapshot, its memory layout, the register numbers of
    client and server, and the loops over registers that differ.
  \<^item> Util (lib/util.c): comparison of memory, printing and parsing of hexadecimal.
  \<^item> Results (lib/runner.c): the result of a run, when two results are equal, lookup of a mapping.
  \<^item> Mem_Check (\<open>run_with_instr_seq\<close>): the scan that records changed memory. It refines the
    specification "the first maximal runs of changed bytes".
  \<^item> Wire (diffuzz-client.c and pyutils/result.py): packing results on the client and parsing them on
    the server; what is parsed is what was measured.
  \<^item> Fuzzing_Values, Generator (fuzzing_value_map.h, randomdifffuzzgenerator.h, their server
    counterparts): the tables of special values, filling instruction templates and registers.
  \<^item> Connection (lib/connection.c): framed messages over a byte stream that may split them anywhere.
  \<^item> Runner (lib/runner.c, lib/maps.c): mappings, the signal handler, one run, the loop that maps pages
    on demand, and runs of all prefixes. The processor and the kernel are the parameter \<open>hw\<close>: what one
    execution of the code page does to registers, memory and signal; the laws assumed of it are
    \<open>hw_ok\<close>.
  \<^item> C_Strings: the text functions of the C library the next theories use (\<^verbatim>\<open>sscanf\<close>, \<^verbatim>\<open>strtok\<close>,
    \<^verbatim>\<open>fgets\<close>, \<^verbatim>\<open>printf\<close> conversions).
  \<^item> Cpuinfo, Pinning (lib/cpuinfo.c, repro-runner.c): reading /proc/cpuinfo, grouping cores by MIDR,
    choosing the core to run on, and the command line of repro-runner.
  \<^item> Repro_Log, Repro_Load, Repro (lib/runner.c): writing a reproducer file and loading it.
  \<^item> Client (diffuzz-client.c, pyutils/inp.py): the layout of an input on the wire, and the loop of the
    client from a received batch to its answer.
  \<^item> Report (lib/hexdiff.h, lib/regdiff_common.h, lib/*/regs.c, lib/runner.c): the commented summaries
    and differences of results, and the whole of \<^verbatim>\<open>log_repro\<close>; a report shows a difference exactly when
    the results differ, and what \<^verbatim>\<open>log_repro\<close> writes is loaded again.
  \<^item> Undoc_Enum (undoc-enum.c): the enumeration of undocumented instructions: the ranges, a worker, the
    split of the words among cores, the test of the monitor for the end.
  \<^item> Self_Test, Self_Accept (\<open>runner_init\<close> of lib/runner.c): the double mapping of the code page, the
    signal stack and handlers, the calibration of the counters and the self tests. Self_Test also holds a
    small interpreter of the tested instructions; when the processor follows it (\<open>follows_isa\<close>), all
    tests pass and the runner is ready.
  \<^item> Repro_Run (lib/runner.c, lib/util.c, repro-runner.c): repro-runner from the file to the printed
    result. A result that was written as a reproducer is the result its file gives.
  \<^item> Template (repro-template-sig.c): the program made of a reproducer does what repro-runner does.
  \<^item> Address_Space (lib/maps.c, lib/runner.c): unmapping the sections that would make machines differ
    and moving to a new stack, over the regions of the process. The loop of \<open>unmap_section\<close> ends.
  \<^item> Startup (diffuzz-client.c, pyutils/server.py): \<^verbatim>\<open>main\<close> of the client, its processes, the handshake
    and the server's side of it. What the server knows of a client is what the client sent.
  \<^item> Log (lib/log.c): the choice of colours, made once, and the messages.

  How the parts interact: a seed initialises Rng, Generator draws an input from it through
  Fuzzing_Values, Runner runs it and calls Mem_Check, the result is packed by Wire and sent by
  Connection, and the server parses it. A difference is stored by Repro_Log, and repro-runner reads it
  with Repro_Load, pins itself with Pinning and runs it again with Runner. Client puts these together
  for a batch of inputs, Undoc_Enum for all words that no manual documents. Every program first enters
  Address_Space and initialises the runner (Self_Test); the client of Startup then shakes hands and serves
  batches, and Repro_Run and Template run one reproducer.

  State and effects. Structs are records and enums datatypes. Functions that change globals take the
  state and return it. \<open>'a res\<close> is the outcome of code that may stop. Loops are structural or carry
  a measure; two loops take fuel: \<open>auto_map_loop\<close>, whose bound is the constant of the source, and
  \<open>load_lines\<close>, the outer loop of \<open>load_repro\<close>, which does not end on every file. For it, one
  iteration a line is enough on the files the program writes (\<open>repro_round_trip\<close>), and no fuel is
  enough on the files of a build without flags (\<open>flags_empty_hangs\<close>). The
  loop of \<open>unmap_section\<close> has no bound in the source and is a partial function, where \<open>None\<close> says that it
  does not end; \<open>enter_sandbox_ends\<close> shows that it does when the kernel grants the unmapping. The endless
  loop of the client is \<open>serve_batches\<close> with the number of rounds; its theorems are about every number.
  A worker of the enumeration is a function of \<open>worker_env\<close>: \<open>we_hw\<close> is what the processor does at
  each execution and \<open>we_flushed\<close> which part of a report reaches the archive.

  What \<open>runner_init\<close> needs of its surroundings is \<open>init_ok\<close> (system calls succeed, the fixed addresses are
  free), \<open>counters_ok\<close> (\<open>hw_ok\<close>, and a NOP counts the same in each test), and \<open>follows_isa\<close>. The store tests also need that
  the two pages the source names are mapped writable and hold other bytes there (\<open>test_pages\<close>). Both are
  decided by the generator of the page contents, which takes thousands of steps per page; they are a
  hypothesis for builds with CHECK_MEM and AUTO_MAP_MEM and not computed in the kernel.

  Interfaces are locales: \<open>rng_action\<close> (a computation that draws from the generator), \<open>equality_test\<close>,
  \<open>forward_reader\<close> (a parser that moves forward), \<open>codec\<close> (an encoder with its parser) and \<open>message\<close>
  (what the client sends of one kind and how the server reads it); all are interpreted on the model's
  functions.

  Not modelled: the assembly of runner.S (inside \<open>hw\<close>), libopcodes (a parameter of the writer), zlib
  (a parameter of Connection), libarchive (a parameter of Undoc_Enum), packing and removing of directories,
  the template whose instructions are inline assembly (repro-template.c), the Android app, the build
  scripts, and the Python server apart from its tables, the handshake, the packing of inputs and the
  parser of results.
\<close>

end
